(* ===== verification/Prelude.thy ===== *)
theory Prelude
  imports Main "HOL-Library.AList" "HOL-Library.Multiset"
begin

text \<open>
  What every theory of the development shares: Go maps as association lists with an explicit
  iteration order, and the few string functions of Go's standard library the program uses.

  A Go map is kept as an association list with one entry per key. \<open>range\<close> over a map visits the
  keys in an order the language leaves open, and a different one at every \<open>range\<close>; a function
  that ranges over maps takes an argument \<open>ord\<close>, and its \<open>n\<close>-th \<open>range\<close> visits
  \<open>ord n\<close> of the keys. \<open>go_order ord\<close> says that each of those is a permutation, the only thing
  the language promises.
\<close>

named_theorems gomap_simps "look-ups and key sets after a map update"

type_synonym ('k, 'v) gomap = "('k \<times> 'v) list"
type_synonym 'k order = "nat \<Rightarrow> 'k list \<Rightarrow> 'k list"

abbreviation keys :: "('k, 'v) gomap \<Rightarrow> 'k list" where
  "keys m \<equiv> map fst m"

abbreviation has_key :: "('k, 'v) gomap \<Rightarrow> 'k \<Rightarrow> bool" where
  "has_key m k \<equiv> map_of m k \<noteq> None"

definition put :: "'k \<Rightarrow> 'v \<Rightarrow> ('k, 'v) gomap \<Rightarrow> ('k, 'v) gomap" where
  "put k v m = AList.update k v m"

definition del :: "'k \<Rightarrow> ('k, 'v) gomap \<Rightarrow> ('k, 'v) gomap" where
  "del k m = AList.delete k m"

text \<open>Reading a missing key gives the zero value of the element type.\<close>

definition get_or :: "'v \<Rightarrow> ('k, 'v) gomap \<Rightarrow> 'k \<Rightarrow> 'v" where
  "get_or z m k = (case map_of m k of None \<Rightarrow> z | Some v \<Rightarrow> v)"

definition go_order :: "'k order \<Rightarrow> bool" where
  "go_order ord \<longleftrightarrow> (\<forall>n ks. mset (ord n ks) = mset ks)"

lemma put_simps [simp, code_abbrev]: "AList.update k v m = put k v m"
  by (simp add: put_def)

lemma put_Nil [simp]: "put k v [] = [(k, v)]"
  by (simp add: put_def del: put_simps)

lemma put_Cons [simp]: "put k v (p # m) = (if fst p = k then (k, v) # m else p # put k v m)"
  by (cases p) (simp add: put_def del: put_simps)

lemma del_Nil [simp]: "del k [] = []"
  by (simp add: del_def)

lemma del_Cons [simp]: "del k (p # m) = (if fst p = k then del k m else p # del k m)"
  by (simp add: del_def)

lemma map_of_put [simp, gomap_simps]: "map_of (put k v m) = (map_of m)(k \<mapsto> v)"
  by (simp add: put_def update_conv' del: put_simps)

lemma map_of_del [simp, gomap_simps]: "map_of (del k m) = (map_of m)(k := None)"
  by (simp add: del_def delete_conv')

lemma keys_put [gomap_simps]: "keys (put k v m) = (if k \<in> set (keys m) then keys m else keys m @ [k])"
  by (simp add: put_def update_keys del: put_simps)

lemma set_keys_put [simp]: "fst ` set (put k v m) = insert k (fst ` set m)"
  by (induction m) auto

lemma keys_del [gomap_simps]: "keys (del k m) = removeAll k (keys m)"
  by (simp add: del_def delete_keys)

lemma set_keys_del [simp]: "fst ` set (del k m) = fst ` set m - {k}"
  by (induction m) auto

lemma distinct_put [simp]: "distinct (keys m) \<Longrightarrow> distinct (keys (put k v m))"
  by (simp add: keys_put)

lemma distinct_del [simp]: "distinct (keys m) \<Longrightarrow> distinct (keys (del k m))"
  by (simp add: keys_del distinct_removeAll)

lemma has_key_iff: "has_key m k \<longleftrightarrow> k \<in> set (keys m)"
  by (simp add: map_of_eq_None_iff)

lemma map_of_None_keys: "map_of m k = None \<longleftrightarrow> k \<notin> set (keys m)"
  by (simp add: map_of_eq_None_iff)

lemma map_of_in_keys: "map_of m k = Some v \<Longrightarrow> k \<in> fst ` set m"
  by (metis map_of_SomeD fst_conv image_eqI)

lemma keys_lookup: "k \<in> fst ` set m \<Longrightarrow> \<exists>v. map_of m k = Some v"
  by (metis map_of_eq_None_iff not_None_eq)

lemma get_or_put [simp]: "get_or z (put k v m) x = (if x = k then v else get_or z m x)"
  by (simp add: get_or_def)

lemma get_or_Nil [simp]: "get_or z [] x = z"
  by (simp add: get_or_def)

lemma length_del_less: "k \<in> set (keys m) \<Longrightarrow> length (del k m) < length m"
  by (metis keys_del length_map length_removeAll_less)

lemma go_order_set: "go_order ord \<Longrightarrow> set (ord n ks) = set ks"
  by (metis go_order_def set_mset_mset)

lemma go_order_distinct: "go_order ord \<Longrightarrow> distinct (ord n ks) = distinct ks"
  by (metis go_order_def mset_eq_imp_distinct_iff)

lemma go_order_length: "go_order ord \<Longrightarrow> length (ord n ks) = length ks"
  by (metis go_order_def size_mset)

lemma go_order_id [simp]: "go_order (\<lambda>n ks. ks)"
  by (simp add: go_order_def)

lemma go_order_rev [simp]: "go_order (\<lambda>n. rev)"
  by (simp add: go_order_def)

lemma go_order_shift: "go_order ord \<Longrightarrow> go_order (\<lambda>n. ord (f n))"
  by (simp add: go_order_def)

lemma fold_concat_map: "fold f (concat (map g xs)) s = fold (\<lambda>x. fold f (g x)) xs s"
  by (induction xs arbitrary: s) auto

lemma in_concat_nth: "k < length ps \<Longrightarrow> x \<in> set (ps ! k) \<Longrightarrow> x \<in> set (concat ps)"
  by auto

lemma fold_pointwise: "(\<And>x s. f x s = g x s) \<Longrightarrow> fold f xs s = fold g xs s"
  by (induction xs arbitrary: s) auto

subsection \<open>Strings\<close>

text \<open>\<open>strings.ReplaceAll(s, a, b)\<close> for two strings of one byte, and \<open>%d\<close> of \<open>fmt\<close>.\<close>

definition replace_all :: "char \<Rightarrow> char \<Rightarrow> string \<Rightarrow> string" where
  "replace_all a b s = map (\<lambda>c. if c = a then b else c) s"

lemma replace_all_append [simp]: "replace_all a b (s @ t) = replace_all a b s @ replace_all a b t"
  by (simp add: replace_all_def)

lemma replace_all_gone: "a \<noteq> b \<Longrightarrow> a \<notin> set (replace_all a b s)"
  by (auto simp: replace_all_def)

lemma replace_all_id: "a \<notin> set s \<Longrightarrow> replace_all a b s = s"
  by (auto simp: replace_all_def intro: map_idI)

lemma length_replace_all [simp]: "length (replace_all a b s) = length s"
  by (simp add: replace_all_def)

definition digit :: "nat \<Rightarrow> char" where
  "digit n = char_of (48 + n)"

fun show_nat :: "nat \<Rightarrow> string" where
  "show_nat n = (if n < 10 then [digit n] else show_nat (n div 10) @ [digit (n mod 10)])"

declare show_nat.simps [simp del]

definition show_int :: "int \<Rightarrow> string" where
  "show_int i = (if i < 0 then ''-'' @ show_nat (nat (- i)) else show_nat (nat i))"

text \<open>A separator that occurs in neither of the halves before it splits a string in one way.\<close>

lemma append_sep_inject:
  assumes "c \<notin> set xs" and "c \<notin> set xs'"
  shows "xs @ c # ys = xs' @ c # ys' \<longleftrightarrow> xs = xs' \<and> ys = ys'"
  using assms
proof (induction xs arbitrary: xs')
  case Nil
  then show ?case by (cases xs') auto
next
  case (Cons x xs)
  then show ?case by (cases xs') auto
qed

end
