(* ===== verification/Effects.thy ===== *)
theory Effects
  imports Prelude
begin

text \<open>
  The effects of a Go function as a value. A program \<open>prog\<close> is a tree of the calls it makes to
  the outside (the database driver, the context, the clock) and of its reads and writes of shared
  heap objects; what a call answers is given by an environment, which is a parameter. Keeping the
  tree, rather than a state transformer, lets one definition of an operation be run alone
  (\<open>run\<close>) and be interleaved with other goroutines, call by call (theory Executor).
\<close>

subsection \<open>Errors\<close>

text \<open>
  \<open>Errorf\<close> is an error made by the code itself, \<open>Wrapf p e\<close> is \<open>fmt.Errorf("p: %w", e)\<close>.
  The others are the errors the code can tell apart with \<open>errors.As\<close> and \<open>errors.Is\<close>, and the rest.
\<close>

datatype goerror =
    Errorf string
  | Wrapf string goerror
  | PgError string
  | ErrNoRows
  | ErrScan
  | ErrCanceled
  | ErrDeadlineExceeded
  | ErrOther string

fun errors_as_pg :: "goerror \<Rightarrow> string option" where
  "errors_as_pg (PgError code) = Some code"
| "errors_as_pg (Wrapf _ e) = errors_as_pg e"
| "errors_as_pg _ = None"

fun errors_is_no_rows :: "goerror \<Rightarrow> bool" where
  "errors_is_no_rows ErrNoRows = True"
| "errors_is_no_rows (Wrapf _ e) = errors_is_no_rows e"
| "errors_is_no_rows _ = False"

subsection \<open>Programs\<close>

type_synonym ref = nat

text \<open>
  \<open>Panic\<close> is a run-time panic, \<open>Spin\<close> the value of a polling loop whose bound of iterations
  is used up: the function has not returned. \<open>Store r f p\<close> assigns a field of the object at
  \<open>r\<close>: the object becomes \<open>f\<close> of itself.
\<close>

datatype (dead 'q, dead 's, dead 'o, 'a) prog =
    Return 'a
  | Panic
  | Spin
  | Call 'q "'s \<Rightarrow> ('q, 's, 'o, 'a) prog"
  | Load ref "'o \<Rightarrow> ('q, 's, 'o, 'a) prog"
  | Store ref "'o \<Rightarrow> 'o" "('q, 's, 'o, 'a) prog"

primrec bind :: "('q, 's, 'o, 'a) prog \<Rightarrow> ('a \<Rightarrow> ('q, 's, 'o, 'b) prog) \<Rightarrow> ('q, 's, 'o, 'b) prog"
where
  "bind (Return a) f = f a"
| "bind Panic f = Panic"
| "bind Spin f = Spin"
| "bind (Call q k) f = Call q (\<lambda>s. bind (k s) f)"
| "bind (Load r k) f = Load r (\<lambda>x. bind (k x) f)"
| "bind (Store r g p) f = Store r g (bind p f)"

lemma prog_induct [case_names Return Panic Spin Call Load Store]:
  assumes "\<And>a. P (Return a)" and "P Panic" and "P Spin"
    and "\<And>q k. (\<And>s. P (k s)) \<Longrightarrow> P (Call q k)"
    and "\<And>r k. (\<And>x. P (k x)) \<Longrightarrow> P (Load r k)"
    and "\<And>r f p. P p \<Longrightarrow> P (Store r f p)"
  shows "P p"
  using assms by (induction p) auto

text \<open>
  The environment: the reply to a call and the next state of the outside world. Its first argument
  tells whether the context of the calling goroutine has been cancelled by its errgroup; deadlines
  and signals on the process's own context are part of the world.
\<close>

type_synonym ('w, 'q, 's) env = "bool \<Rightarrow> 'q \<Rightarrow> 'w \<Rightarrow> 's \<times> 'w"

datatype 'a outcome = Returned 'a | Panicked | Spinning

primrec run :: "('w, 'q, 's) env \<Rightarrow> bool \<Rightarrow> ('q, 's, 'o, 'a) prog \<Rightarrow> 'o list \<Rightarrow> 'w
    \<Rightarrow> 'a outcome \<times> 'o list \<times> 'w"
where
  "run env c (Return a) h w = (Returned a, h, w)"
| "run env c Panic h w = (Panicked, h, w)"
| "run env c Spin h w = (Spinning, h, w)"
| "run env c (Call q k) h w = (case env c q w of (s, w') \<Rightarrow> run env c (k s) h w')"
| "run env c (Load r k) h w = (if r < length h then run env c (k (h ! r)) h w else (Panicked, h, w))"
| "run env c (Store r f p) h w =
     (if r < length h then run env c p (h[r := f (h ! r)]) w else (Panicked, h, w))"

text \<open>The calls a run makes, each with its reply.\<close>

primrec trace :: "('w, 'q, 's) env \<Rightarrow> bool \<Rightarrow> ('q, 's, 'o, 'a) prog \<Rightarrow> 'o list \<Rightarrow> 'w \<Rightarrow> ('q \<times> 's) list"
where
  "trace env c (Return a) h w = []"
| "trace env c Panic h w = []"
| "trace env c Spin h w = []"
| "trace env c (Call q k) h w = (case env c q w of (s, w') \<Rightarrow> (q, s) # trace env c (k s) h w')"
| "trace env c (Load r k) h w = (if r < length h then trace env c (k (h ! r)) h w else [])"
| "trace env c (Store r f p) h w = (if r < length h then trace env c p (h[r := f (h ! r)]) w else [])"

lemma run_bind:
  "run env c (bind p f) h w =
     (case run env c p h w of
        (Returned a, h', w') \<Rightarrow> run env c (f a) h' w'
      | (Panicked, h', w') \<Rightarrow> (Panicked, h', w')
      | (Spinning, h', w') \<Rightarrow> (Spinning, h', w'))"
  by (induction p arbitrary: h w rule: prog_induct) (auto split: prod.splits)

lemma trace_bind:
  "trace env c (bind p f) h w =
     trace env c p h w @
     (case run env c p h w of
        (Returned a, h', w') \<Rightarrow> trace env c (f a) h' w'
      | (Panicked, h', w') \<Rightarrow> []
      | (Spinning, h', w') \<Rightarrow> [])"
  by (induction p arbitrary: h w rule: prog_induct) (auto split: prod.splits)

lemma bind_return [simp]: "bind p Return = p"
  by (induction p rule: prog_induct) auto

lemma bind_assoc: "bind (bind p f) g = bind p (\<lambda>a. bind (f a) g)"
  by (induction p rule: prog_induct) auto

lemma run_length: "run env c p h w = (x, h', w') \<Longrightarrow> length h' = length h"
proof (induction p arbitrary: h w rule: prog_induct)
  case (Store r f p)
  then show ?case by (cases "r < length h") fastforce+
qed (auto split: prod.splits if_splits)

text \<open>The objects a program writes, and those it reads, whatever the replies.\<close>

primrec writes_only :: "ref set \<Rightarrow> ('q, 's, 'o, 'a) prog \<Rightarrow> bool" where
  "writes_only R (Return a) \<longleftrightarrow> True"
| "writes_only R Panic \<longleftrightarrow> True"
| "writes_only R Spin \<longleftrightarrow> True"
| "writes_only R (Call q k) \<longleftrightarrow> (\<forall>s. writes_only R (k s))"
| "writes_only R (Load r k) \<longleftrightarrow> (\<forall>x. writes_only R (k x))"
| "writes_only R (Store r f p) \<longleftrightarrow> r \<in> R \<and> writes_only R p"

lemma writes_only_bind:
  "writes_only R p \<Longrightarrow> (\<And>a. writes_only R (f a)) \<Longrightarrow> writes_only R (bind p f)"
  by (induction p rule: prog_induct) auto

lemma run_frame:
  "run env c p h w = (x, h', w') \<Longrightarrow> writes_only R p \<Longrightarrow> r \<notin> R \<Longrightarrow> h' ! r = h ! r"
proof (induction p arbitrary: h w rule: prog_induct)
  case (Store r' f p)
  then have "r' \<noteq> r" by auto
  show ?case
  proof (cases "r' < length h")
    case True
    with Store have "h' ! r = (h[r' := f (h ! r')]) ! r" by simp
    with \<open>r' \<noteq> r\<close> show ?thesis by simp
  next
    case False
    with Store show ?thesis by simp
  qed
qed (auto split: prod.splits if_splits)

text \<open>A property of objects that every write keeps is kept by every run.\<close>

primrec stores_keep :: "('o \<Rightarrow> 'o \<Rightarrow> bool) \<Rightarrow> ('q, 's, 'o, 'a) prog \<Rightarrow> bool" where
  "stores_keep P (Return a) \<longleftrightarrow> True"
| "stores_keep P Panic \<longleftrightarrow> True"
| "stores_keep P Spin \<longleftrightarrow> True"
| "stores_keep P (Call q k) \<longleftrightarrow> (\<forall>s. stores_keep P (k s))"
| "stores_keep P (Load r k) \<longleftrightarrow> (\<forall>x. stores_keep P (k x))"
| "stores_keep P (Store r f p) \<longleftrightarrow> (\<forall>x. P x (f x)) \<and> stores_keep P p"

lemma stores_keep_bind:
  "stores_keep P p \<Longrightarrow> (\<And>a. stores_keep P (f a)) \<Longrightarrow> stores_keep P (bind p f)"
  by (induction p rule: prog_induct) auto

lemma run_stores_keep:
  assumes "run env c p h w = (x, h', w')" and "stores_keep P p" and "reflp P" and "transp P"
  shows "list_all2 P h h'"
  using assms(1,2)
proof (induction p arbitrary: h w rule: prog_induct)
  case (Store r f p)
  show ?case
  proof (cases "r < length h")
    case True
    with Store have "list_all2 P (h[r := f (h ! r)]) h'" by auto
    moreover have "list_all2 P h (h[r := f (h ! r)])"
      using Store.prems(2) True assms(3)
      by (auto simp: list_all2_conv_all_nth nth_list_update reflp_def)
    ultimately show ?thesis
      using assms(4) list.rel_transp[of P] by (metis transpE)
  next
    case False
    with Store show ?thesis using assms(3) by (auto simp: list_all2_refl reflp_def)
  qed
qed (use assms(3) in \<open>auto simp: list_all2_refl reflp_def split: prod.splits if_splits\<close>)

end
