(* ===== verification/Resource_Model.thy ===== *)
theory Resource_Model
  imports Effects
begin

text \<open>
  \<open>internal/resource/resource.go\<close>: identifiers, statuses, actions and events, and the
  \<open>Resource\<close> interface as the record of its methods. Resources are pointers; \<open>Identifier\<close>,
  \<open>Dependencies\<close> and \<open>Status\<close> read the object they point to in the heap, the other four
  methods are programs that answer with an error or with None for \<open>nil\<close>.
\<close>

record ident =
  Type :: string
  ID :: string

abbreviation mk_id :: "string \<Rightarrow> string \<Rightarrow> ident" where
  "mk_id t i \<equiv> \<lparr>Type = t, ID = i\<rparr>"

record status =
  Exists :: bool
  NeedsRecreate :: bool
  NeedsUpdate :: bool
  Reason :: string

abbreviation zero_status :: status where
  "zero_status \<equiv> \<lparr>Exists = False, NeedsRecreate = False, NeedsUpdate = False, Reason = ''''\<rparr>"

text \<open>\<open>Action\<close> is an integer type with three named values; \<open>ActionOther\<close> is any other integer.\<close>

datatype action = ActionCreate | ActionUpdate | ActionDelete | ActionOther int

record 'r event =
  Action :: action
  Resource :: 'r

type_synonym ('q, 's, 'o) operation = "('q, 's, 'o, goerror option) prog"

record ('q, 's, 'o, 'r) methods =
  m_Identifier :: "'o list \<Rightarrow> 'r \<Rightarrow> ident"
  m_Dependencies :: "'o list \<Rightarrow> 'r \<Rightarrow> ident list"
  m_Refresh :: "'r \<Rightarrow> ('q, 's, 'o) operation"
  m_Status :: "'o list \<Rightarrow> 'r \<Rightarrow> status"
  m_Create :: "'r \<Rightarrow> ('q, 's, 'o) operation"
  m_Update :: "'r \<Rightarrow> ('q, 's, 'o) operation"
  m_Delete :: "'r \<Rightarrow> ('q, 's, 'o) operation"

abbreviation event_id :: "('q, 's, 'o, 'r) methods \<Rightarrow> 'o list \<Rightarrow> 'r event \<Rightarrow> ident" where
  "event_id vt h e \<equiv> m_Identifier vt h (Resource e)"

abbreviation event_deps :: "('q, 's, 'o, 'r) methods \<Rightarrow> 'o list \<Rightarrow> 'r event \<Rightarrow> ident list" where
  "event_deps vt h e \<equiv> m_Dependencies vt h (Resource e)"

end
