(* ===== verification/Topo_Sort.thy ===== *)
theory Topo_Sort
  imports Resource_Model "HOL-Library.Monad_Syntax"
begin

text \<open>
  \<open>topoSort\<close> of \<open>internal/resource/plan.go\<close>: the order of events that respects dependencies,
  by repeatedly taking every identifier of in-degree zero. First the code, with its three maps
  (\<open>eventSet\<close>, \<open>inDegree\<close>, \<open>dependents\<close>) and its loop; then \<open>layered\<close>, what an
  admissible list of phases is; then the refinement of the one by the other, for every order in
  which Go may range over \<open>inDegree\<close>.
\<close>

subsection \<open>The code\<close>

type_synonym 'r event_map = "(ident, 'r event) gomap"
type_synonym degree_map = "(ident, int) gomap"
type_synonym dependents_map = "(ident, ident list) gomap"

definition event_set :: "('q, 's, 'o, 'r) methods \<Rightarrow> 'o list \<Rightarrow> 'r event list \<Rightarrow> 'r event_map" where
  "event_set vt h events = fold (\<lambda>e m. put (event_id vt h e) e m) events []"

definition zero_degrees :: "('q, 's, 'o, 'r) methods \<Rightarrow> 'o list \<Rightarrow> 'r event list \<Rightarrow> degree_map" where
  "zero_degrees vt h events = fold (\<lambda>e m. put (event_id vt h e) 0 m) events []"

text \<open>\<open>inDegree[post]++; dependents[pre] = append(dependents[pre], post)\<close>\<close>

definition add_edge :: "ident \<times> ident \<Rightarrow> degree_map \<times> dependents_map
    \<Rightarrow> degree_map \<times> dependents_map" where
  "add_edge edge maps = (case edge of (pre, post) \<Rightarrow> case maps of (inDegree, dependents) \<Rightarrow>
     (put post (get_or 0 inDegree post + 1) inDegree,
      put pre (get_or [] dependents pre @ [post]) dependents))"

text \<open>The inner loop of the second pass: one event, each of its dependencies.\<close>

definition add_event :: "bool \<Rightarrow> ('q, 's, 'o, 'r) methods \<Rightarrow> 'o list \<Rightarrow> 'r event_map \<Rightarrow> 'r event
    \<Rightarrow> degree_map \<times> dependents_map \<Rightarrow> degree_map \<times> dependents_map" where
  "add_event reverse vt h eventSet e maps =
     fold (\<lambda>dep maps.
         if has_key eventSet dep
         then add_edge (if reverse then (event_id vt h e, dep) else (dep, event_id vt h e)) maps
         else maps)
       (event_deps vt h e) maps"

definition build_maps :: "bool \<Rightarrow> ('q, 's, 'o, 'r) methods \<Rightarrow> 'o list \<Rightarrow> 'r event list
    \<Rightarrow> degree_map \<times> dependents_map" where
  "build_maps reverse vt h events =
     fold (add_event reverse vt h (event_set vt h events)) events (zero_degrees vt h events, [])"

text \<open>\<open>delete(inDegree, id)\<close>, then \<open>inDegree[dependent]--\<close> for each dependent of \<open>id\<close>.\<close>

definition take_ready :: "dependents_map \<Rightarrow> ident \<Rightarrow> degree_map \<Rightarrow> degree_map" where
  "take_ready dependents i inDegree =
     fold (\<lambda>dependent m. put dependent (get_or 0 m dependent - 1) m)
       (get_or [] dependents i) (del i inDegree)"

definition ready_ids :: "ident list \<Rightarrow> degree_map \<Rightarrow> ident list" where
  "ready_ids visited inDegree = filter (\<lambda>i. get_or 0 inDegree i = 0) visited"

text \<open>
  The loop, and \<open>eventSet[id]\<close> for every identifier it takes: those are keys of \<open>eventSet\<close>
  (lemma \<open>topo_loop_layered\<close>), so the read never misses. The \<open>n\<close>-th round ranges over
  \<open>inDegree\<close> in the order \<open>ord (2 * n)\<close>, and over what remains in the order
  \<open>ord (2 * n + 1)\<close> when it finds a cycle. None would be a loop that does not end.
\<close>

abbreviation events_of :: "'r event_map \<Rightarrow> ident list \<Rightarrow> 'r event list" where
  "events_of eventSet is \<equiv> map (\<lambda>i. the (map_of eventSet i)) is"

partial_function (option) topo_loop ::
  "ident order \<Rightarrow> nat \<Rightarrow> 'r event_map \<Rightarrow> dependents_map \<Rightarrow> degree_map \<Rightarrow> 'r event list list
    \<Rightarrow> 'r event list list option" where
  "topo_loop ord n eventSet dependents inDegree phases =
     (if inDegree = [] then Some phases
      else let ready = ready_ids (ord (2 * n) (keys inDegree)) inDegree in
        if ready = [] then Some (phases @ [events_of eventSet (ord (2 * n + 1) (keys inDegree))])
        else topo_loop ord (n + 1) eventSet dependents (fold (take_ready dependents) ready inDegree)
               (phases @ [events_of eventSet ready]))"

declare topo_loop.simps [code]

definition topo_sort :: "ident order \<Rightarrow> ('q, 's, 'o, 'r) methods \<Rightarrow> 'o list \<Rightarrow> 'r event list
    \<Rightarrow> bool \<Rightarrow> 'r event list list option" where
  "topo_sort ord vt h events reverse =
     (case build_maps reverse vt h events of (inDegree, dependents) \<Rightarrow>
        topo_loop ord 0 (event_set vt h events) dependents inDegree [])"

subsection \<open>Admissible phases\<close>

text \<open>
  \<open>layered succs R ps\<close>: the phases \<open>ps\<close> exhaust the identifiers \<open>R\<close>, each phase being
  exactly the identifiers that no remaining one precedes; if every remaining identifier is preceded
  by a remaining one, they form the last phase together.
\<close>

inductive layered :: "('k \<Rightarrow> 'k list) \<Rightarrow> 'k set \<Rightarrow> 'k list list \<Rightarrow> bool" for succs where
  finished: "layered succs {} []"
| cyclic: "R \<noteq> {} \<Longrightarrow> (\<forall>x\<in>R. \<exists>p\<in>R. x \<in> set (succs p)) \<Longrightarrow> set xs = R \<Longrightarrow> distinct xs \<Longrightarrow>
    layered succs R [xs]"
| round: "set xs = {x\<in>R. \<forall>p\<in>R. x \<notin> set (succs p)} \<Longrightarrow> xs \<noteq> [] \<Longrightarrow> distinct xs \<Longrightarrow>
    layered succs (R - set xs) ps \<Longrightarrow> layered succs R (xs # ps)"

inductive_cases layered_NilE [elim!]: "layered succs R []"
inductive_cases layered_ConsE: "layered succs R (xs # ps)"

lemma layered_set: "layered succs R ps \<Longrightarrow> set (concat ps) = R"
  by (induction rule: layered.induct) auto

lemma layered_distinct: "layered succs R ps \<Longrightarrow> distinct (concat ps)"
proof (induction rule: layered.induct)
  case (round xs R ps)
  then have "set (concat ps) = R - set xs" by (blast dest: layered_set)
  with round show ?case by auto
qed simp_all

lemma layered_nonempty: "layered succs R ps \<Longrightarrow> xs \<in> set ps \<Longrightarrow> xs \<noteq> []"
  by (induction rule: layered.induct) auto

text \<open>What precedes an identifier comes in an earlier phase, unless both are in the last one.\<close>

lemma layered_order:
  "layered succs R ps \<Longrightarrow> i < length ps \<Longrightarrow> x \<in> set (ps ! i) \<Longrightarrow> p \<in> R \<Longrightarrow> x \<in> set (succs p) \<Longrightarrow>
   (\<exists>j<i. p \<in> set (ps ! j)) \<or> (Suc i = length ps \<and> p \<in> set (ps ! i))"
proof (induction arbitrary: i rule: layered.induct)
  case finished
  then show ?case by simp
next
  case (cyclic R xs)
  then show ?case by simp
next
  case (round xs R ps)
  show ?case
  proof (cases i)
    case 0
    with round.prems round.hyps(1) show ?thesis by auto
  next
    case (Suc k)
    show ?thesis
    proof (cases "p \<in> set xs")
      case True
      with Suc show ?thesis by (intro disjI1 exI[of _ 0]) simp
    next
      case False
      with round.prems Suc have "(\<exists>j<k. p \<in> set (ps ! j)) \<or> (Suc k = length ps \<and> p \<in> set (ps ! k))"
        by (intro round.IH) auto
      then show ?thesis
      proof (elim disjE exE conjE)
        fix j
        assume "j < k" "p \<in> set (ps ! j)"
        with Suc show ?thesis by (intro disjI1 exI[of _ "Suc j"]) simp
      next
        assume last: "Suc k = length ps" "p \<in> set (ps ! k)"
        from Suc have "(xs # ps) ! i = ps ! k" by simp
        with last Suc show ?thesis by (intro disjI2) (simp only:, simp)
      qed
    qed
  qed
qed

text \<open>Without a cycle the exception disappears: a rank that grows along the edges rules it out.\<close>

lemma layered_order_acyclic:
  assumes "layered succs R ps"
    and "\<And>p x. p \<in> R \<Longrightarrow> x \<in> R \<Longrightarrow> x \<in> set (succs p) \<Longrightarrow> rank p < (rank x :: nat)"
    and "i < length ps" "x \<in> set (ps ! i)" "p \<in> R" "x \<in> set (succs p)"
  shows "\<exists>j<i. p \<in> set (ps ! j)"
  using assms
proof (induction arbitrary: i rule: layered.induct)
  case finished
  then show ?case by simp
next
  case (cyclic R xs)
  from \<open>R \<noteq> {}\<close> obtain m where m: "m \<in> R" "\<And>y. y \<in> R \<Longrightarrow> rank m \<le> rank y"
    using ex_has_least_nat[of "\<lambda>x. x \<in> R" _ rank] by auto
  with cyclic.hyps(2) obtain p where "p \<in> R" "m \<in> set (succs p)" by blast
  with m cyclic.prems(1) have False by (metis leD)
  then show ?case ..
next
  case (round xs R ps)
  show ?case
  proof (cases i)
    case 0
    with round.prems round.hyps(1) show ?thesis by auto
  next
    case (Suc k)
    show ?thesis
    proof (cases "p \<in> set xs")
      case True
      with Suc show ?thesis by (intro exI[of _ 0]) simp
    next
      case False
      with round.prems Suc have "\<exists>j<k. p \<in> set (ps ! j)" by (intro round.IH) auto
      then obtain j where "j < k" "p \<in> set (ps ! j)" by blast
      with Suc show ?thesis by (intro exI[of _ "Suc j"]) simp
    qed
  qed
qed

text \<open>Every phase is as early as it can be: what is in it is preceded by something in the phase before.\<close>

lemma layered_earliest:
  "layered succs R ps \<Longrightarrow> Suc i < length ps \<Longrightarrow> x \<in> set (ps ! Suc i) \<Longrightarrow>
   \<exists>p\<in>set (ps ! i) \<union> set (ps ! Suc i). x \<in> set (succs p)"
proof (induction arbitrary: i rule: layered.induct)
  case (round xs R ps)
  show ?case
  proof (cases i)
    case 0
    with round.prems have x: "0 < length ps" "x \<in> set (ps ! 0)" by auto
    then have "x \<in> R - set xs" using layered_set[OF round.hyps(4)] by force
    with round.hyps(1) obtain p where p: "p \<in> R" "x \<in> set (succs p)" by auto
    show ?thesis
    proof (cases "p \<in> set xs")
      case True
      with 0 p show ?thesis by auto
    next
      case False
      with p have "p \<in> R - set xs" by simp
      from layered_order[OF round.hyps(4) x this p(2)] have "p \<in> set (ps ! 0)" by simp
      moreover have "(xs # ps) ! Suc i = ps ! 0" using 0 by simp
      ultimately show ?thesis using p(2) by (metis UnI2)
    qed
  next
    case (Suc k)
    with round.prems have "\<exists>p\<in>set (ps ! k) \<union> set (ps ! Suc k). x \<in> set (succs p)"
      by (intro round.IH) auto
    with Suc show ?thesis by simp
  qed
qed simp_all

subsection \<open>The loop refines \<open>layered\<close>\<close>

definition indeg :: "(ident \<Rightarrow> ident list) \<Rightarrow> ident set \<Rightarrow> ident \<Rightarrow> nat" where
  "indeg succs R x = (\<Sum>p\<in>R. count_list (succs p) x)"

lemma indeg_0_iff: "finite R \<Longrightarrow> indeg succs R x = 0 \<longleftrightarrow> (\<forall>p\<in>R. x \<notin> set (succs p))"
  by (simp add: indeg_def count_list_0_iff)

lemma indeg_remove:
  "finite R \<Longrightarrow> S \<subseteq> R \<Longrightarrow> int (indeg succs (R - S) x) = int (indeg succs R x) - int (indeg succs S x)"
  unfolding indeg_def using sum.subset_diff[of S R "\<lambda>p. count_list (succs p) x"] by simp

text \<open>
  The invariant of the loop: \<open>inDegree\<close> counts the edges from remaining identifiers, and what
  follows a remaining identifier remains. The second part is why \<open>inDegree[dependent]--\<close> never
  puts a deleted key back.
\<close>

definition degree_inv :: "(ident \<Rightarrow> ident list) \<Rightarrow> degree_map \<Rightarrow> bool" where
  "degree_inv succs m \<longleftrightarrow> distinct (keys m)
     \<and> (\<forall>x\<in>set (keys m). get_or 0 m x = int (indeg succs (set (keys m)) x))
     \<and> (\<forall>p\<in>set (keys m). set (succs p) \<subseteq> set (keys m))"

lemma fold_decrement:
  "set xs \<subseteq> set (keys m) \<Longrightarrow>
   keys (fold (\<lambda>d m. put d (get_or 0 m d - 1) m) xs m) = keys m \<and>
   get_or 0 (fold (\<lambda>d m. put d (get_or 0 m d - 1) m) xs m) x = get_or 0 m x - int (count_list xs x)"
proof (induction xs arbitrary: m)
  case (Cons d xs)
  let ?m = "put d (get_or 0 m d - 1) m"
  from Cons.prems have "keys ?m = keys m" by (simp add: keys_put)
  with Cons.IH[of ?m] Cons.prems show ?case by simp
qed simp

lemma get_or_del: "get_or z (del k m) x = (if x = k then z else get_or z m x)"
  by (simp add: get_or_def)

lemma take_ready_spec:
  assumes "set (get_or [] dependents i) \<subseteq> set (keys m) - {i}"
  shows "keys (take_ready dependents i m) = removeAll i (keys m)"
    and "x \<noteq> i \<Longrightarrow> get_or 0 (take_ready dependents i m) x
           = get_or 0 m x - int (count_list (get_or [] dependents i) x)"
  using fold_decrement[of "get_or [] dependents i" "del i m" x] assms
  by (auto simp: take_ready_def keys_del get_or_del)

lemma fold_take_ready:
  assumes "distinct rs" and "\<forall>p\<in>set rs. set (get_or [] dependents p) \<subseteq> set (keys m) - set rs"
  shows "keys (fold (take_ready dependents) rs m) = filter (\<lambda>k. k \<notin> set rs) (keys m) \<and>
    (x \<notin> set rs \<longrightarrow> get_or 0 (fold (take_ready dependents) rs m) x
       = get_or 0 m x - int (indeg (get_or [] dependents) (set rs) x))"
  using assms
proof (induction rs arbitrary: m)
  case Nil
  then show ?case by (simp add: indeg_def)
next
  case (Cons i rs)
  let ?m = "take_ready dependents i m"
  from Cons.prems have sub: "set (get_or [] dependents i) \<subseteq> set (keys m) - {i}" by auto
  have keys: "keys ?m = removeAll i (keys m)" by (rule take_ready_spec(1)[OF sub])
  with Cons.prems have "\<forall>p\<in>set rs. set (get_or [] dependents p) \<subseteq> set (keys ?m) - set rs" by auto
  with Cons.IH[of ?m] Cons.prems(1) have
    "keys (fold (take_ready dependents) rs ?m) = filter (\<lambda>k. k \<notin> set rs) (keys ?m)"
    "x \<notin> set rs \<Longrightarrow> get_or 0 (fold (take_ready dependents) rs ?m) x
       = get_or 0 ?m x - int (indeg (get_or [] dependents) (set rs) x)" by auto
  with keys take_ready_spec(2)[OF sub, of x] Cons.prems(1) show ?case
    by (auto simp: removeAll_filter_not_eq indeg_def intro!: filter_cong)
qed

lemma topo_round:
  assumes inv: "degree_inv succs m" and succs: "succs = get_or [] dependents"
    and ready: "set ready = {i \<in> set (keys m). get_or 0 m i = 0}" "distinct ready"
  shows "set ready = {x \<in> set (keys m). \<forall>p\<in>set (keys m). x \<notin> set (succs p)}"
    and "degree_inv succs (fold (take_ready dependents) ready m)"
    and "set (keys (fold (take_ready dependents) ready m)) = set (keys m) - set ready"
proof -
  let ?R = "set (keys m)" and ?m = "fold (take_ready dependents) ready m"
  from inv ready(1) have "set ready = {x \<in> ?R. indeg succs ?R x = 0}"
    by (auto simp: degree_inv_def)
  then show free: "set ready = {x \<in> ?R. \<forall>p\<in>?R. x \<notin> set (succs p)}"
    by (simp only: indeg_0_iff[OF finite_set])
  have closed: "set (succs p) \<subseteq> ?R - set ready" if "p \<in> ?R" for p
    using inv free that by (auto simp: degree_inv_def)
  then have "\<forall>p\<in>set ready. set (get_or [] dependents p) \<subseteq> ?R - set ready"
    using free succs by auto
  note step = fold_take_ready[OF ready(2) this]
  then show k: "set (keys ?m) = ?R - set ready" by auto
  have "get_or 0 ?m x = int (indeg succs (set (keys ?m)) x)" if "x \<in> ?R - set ready" for x
    using step[of x] that inv indeg_remove[of ?R "set ready" succs x] free succs k
    by (auto simp: degree_inv_def)
  moreover have "distinct (keys ?m)" using step inv by (simp add: degree_inv_def)
  ultimately show "degree_inv succs ?m"
    using closed k by (auto simp: degree_inv_def)
qed

lemma topo_loop_layered:
  assumes "degree_inv (get_or [] dependents) m" and "go_order ord"
  shows "\<exists>ps. topo_loop ord n eventSet dependents m phases
                = Some (phases @ map (events_of eventSet) ps)
            \<and> layered (get_or [] dependents) (set (keys m)) ps"
  using assms(1)
proof (induction "length m" arbitrary: m n phases rule: less_induct)
  case less
  let ?R = "set (keys m)" and ?succs = "get_or [] dependents"
  define ready where "ready = ready_ids (ord (2 * n) (keys m)) m"
  have ready: "set ready = {i \<in> ?R. get_or 0 m i = 0}" "distinct ready"
    using less.prems go_order_set[OF assms(2)] go_order_distinct[OF assms(2)]
    by (auto simp: ready_def ready_ids_def degree_inv_def)
  note round = topo_round[OF less.prems refl ready]
  consider "m = []" | "m \<noteq> []" "ready = []" | "ready \<noteq> []" by blast
  then show ?case
  proof cases
    case 1
    then show ?thesis by (auto simp: topo_loop.simps intro!: exI[of _ "[]"] layered.finished)
  next
    case 2
    let ?xs = "ord (2 * n + 1) (keys m)"
    have "layered ?succs ?R [?xs]"
    proof (rule layered.cyclic)
      show "\<forall>x\<in>?R. \<exists>p\<in>?R. x \<in> set (?succs p)" using round(1) 2 by auto
      show "distinct ?xs" using go_order_distinct[OF assms(2)] less.prems by (simp add: degree_inv_def)
    qed (use 2 in \<open>simp_all add: go_order_set[OF assms(2)]\<close>)
    with 2 show ?thesis
      by (intro exI[of _ "[?xs]"]) (simp add: topo_loop.simps ready_def[symmetric])
  next
    case 3
    let ?m = "fold (take_ready dependents) ready m"
    have "m \<noteq> []" using 3 ready(1) by auto
    have "set (keys ?m) \<subset> ?R" using round(1,3) 3 by (auto simp: set_empty[symmetric] simp del: set_empty)
    then have "card (set (keys ?m)) < card ?R" by (simp add: psubset_card_mono)
    moreover have "length m = card ?R" "length ?m = card (set (keys ?m))"
      using less.prems round(2) by (metis degree_inv_def distinct_card length_map)+
    ultimately have "length ?m < length m" by simp
    from less.hyps[OF this round(2), of "n + 1" "phases @ [events_of eventSet ready]"] obtain ps where
      ps: "topo_loop ord (n + 1) eventSet dependents ?m (phases @ [events_of eventSet ready])
             = Some ((phases @ [events_of eventSet ready]) @ map (events_of eventSet) ps)"
      "layered ?succs (set (keys ?m)) ps" by blast
    have "layered ?succs ?R (ready # ps)"
      using round(1) 3 ready(2) ps(2)[unfolded round(3)] by (rule layered.round)
    moreover have "topo_loop ord n eventSet dependents m phases
        = Some (phases @ map (events_of eventSet) (ready # ps))"
      using \<open>m \<noteq> []\<close> 3 ps(1) by (subst topo_loop.simps) (simp add: ready_def[symmetric] Let_def)
    ultimately show ?thesis by blast
  qed
qed

subsection \<open>The maps before the loop\<close>

abbreviation event_ids :: "('q, 's, 'o, 'r) methods \<Rightarrow> 'o list \<Rightarrow> 'r event list \<Rightarrow> ident set" where
  "event_ids vt h events \<equiv> event_id vt h ` set events"

text \<open>
  \<open>precedes reverse vt h events p x\<close>: both are identifiers of events, and the event of the one
  depends on the other; \<open>reverse\<close> turns the edge round.
\<close>

definition precedes :: "bool \<Rightarrow> ('q, 's, 'o, 'r) methods \<Rightarrow> 'o list \<Rightarrow> 'r event list \<Rightarrow> ident \<Rightarrow> ident
    \<Rightarrow> bool" where
  "precedes reverse vt h events p x \<longleftrightarrow> (\<exists>e\<in>set events. \<exists>d\<in>set (event_deps vt h e).
     d \<in> event_ids vt h events \<and>
     (if reverse then p = event_id vt h e \<and> x = d else p = d \<and> x = event_id vt h e))"

definition edges_of :: "bool \<Rightarrow> ('q, 's, 'o, 'r) methods \<Rightarrow> 'o list \<Rightarrow> 'r event list
    \<Rightarrow> (ident \<times> ident) list" where
  "edges_of reverse vt h events = concat (map (\<lambda>e.
     map (\<lambda>d. if reverse then (event_id vt h e, d) else (d, event_id vt h e))
       (filter (\<lambda>d. d \<in> event_ids vt h events) (event_deps vt h e))) events)"

lemma set_edges_of: "(p, x) \<in> set (edges_of reverse vt h events) \<longleftrightarrow> precedes reverse vt h events p x"
  by (auto simp: edges_of_def precedes_def split: if_splits)

lemma precedes_ids:
  "precedes reverse vt h events p x \<Longrightarrow> p \<in> event_ids vt h events \<and> x \<in> event_ids vt h events"
  by (auto simp: precedes_def split: if_splits)

lemma fold_put_keys:
  "set (keys (fold (\<lambda>e m. put (f e) (g e) m) es m)) = set (keys m) \<union> f ` set es"
  by (induction es arbitrary: m) auto

lemma fold_put_distinct:
  "distinct (keys m) \<Longrightarrow> distinct (keys (fold (\<lambda>e m. put (f e) (g e) m) es m))"
  by (induction es arbitrary: m) auto

lemma fold_put_get:
  "map_of (fold (\<lambda>e m. put (f e) (g e) m) es m) k = Some v \<Longrightarrow>
   map_of m k = Some v \<or> (\<exists>e\<in>set es. f e = k \<and> g e = v)"
  by (induction es arbitrary: m) (fastforce split: if_splits)+

lemma keys_event_set: "set (keys (event_set vt h events)) = event_ids vt h events"
  by (simp add: event_set_def fold_put_keys del: set_map)

lemma has_key_event_set:
  "map_of (event_set vt h events) i = None \<longleftrightarrow> i \<notin> event_ids vt h events"
  by (simp add: map_of_None_keys keys_event_set del: set_map)

lemma event_set_get:
  "map_of (event_set vt h events) i = Some e \<Longrightarrow> e \<in> set events \<and> event_id vt h e = i"
  unfolding event_set_def by (drule fold_put_get) auto

lemma event_set_the:
  assumes "i \<in> event_ids vt h events"
  shows "the (map_of (event_set vt h events) i) \<in> set events"
    and "event_id vt h (the (map_of (event_set vt h events) i)) = i"
  using assms event_set_get[of vt h events i] keys_lookup[of i "event_set vt h events"]
    keys_event_set[of vt h events] by auto

lemma zero_degrees_spec:
  "set (keys (zero_degrees vt h events)) = event_ids vt h events"
  "distinct (keys (zero_degrees vt h events))"
  "get_or 0 (zero_degrees vt h events) x = 0"
proof -
  show "set (keys (zero_degrees vt h events)) = event_ids vt h events"
    by (simp add: zero_degrees_def fold_put_keys del: set_map)
  show "distinct (keys (zero_degrees vt h events))"
    unfolding zero_degrees_def by (rule fold_put_distinct) simp
  show "get_or 0 (zero_degrees vt h events) x = 0"
    using fold_put_get[of "event_id vt h" "\<lambda>_. 0" events "[]" x]
    by (auto simp: zero_degrees_def get_or_def split: option.splits)
qed

lemma build_maps_edges:
  "build_maps reverse vt h events
     = fold add_edge (edges_of reverse vt h events) (zero_degrees vt h events, [])"
proof -
  have "add_event reverse vt h (event_set vt h events) e maps = fold add_edge
      (map (\<lambda>d. if reverse then (event_id vt h e, d) else (d, event_id vt h e))
        (filter (\<lambda>d. d \<in> event_ids vt h events) (event_deps vt h e))) maps" for e maps
  proof -
    have "fold (\<lambda>dep maps. if has_key (event_set vt h events) dep
            then add_edge (if reverse then (event_id vt h e, dep) else (dep, event_id vt h e)) maps
            else maps) ds maps
        = fold add_edge (map (\<lambda>d. if reverse then (event_id vt h e, d) else (d, event_id vt h e))
            (filter (\<lambda>d. d \<in> event_ids vt h events) ds)) maps" for ds
      by (induction ds arbitrary: maps) (simp_all add: has_key_event_set del: not_None_eq)
    then show ?thesis by (simp add: add_event_def)
  qed
  then show ?thesis
    unfolding build_maps_def edges_of_def fold_concat_map by (rule fold_pointwise)
qed

lemma fold_add_edge:
  assumes "set (map snd es) \<subseteq> set (keys (fst maps))"
  shows "keys (fst (fold add_edge es maps)) = keys (fst maps) \<and>
    get_or 0 (fst (fold add_edge es maps)) x = get_or 0 (fst maps) x + int (count_list (map snd es) x) \<and>
    get_or [] (snd (fold add_edge es maps)) p
      = get_or [] (snd maps) p @ map snd (filter (\<lambda>e. fst e = p) es)"
  using assms
proof (induction es arbitrary: maps)
  case (Cons e es)
  let ?maps = "add_edge e maps"
  have "keys (fst ?maps) = keys (fst maps)"
    "get_or 0 (fst ?maps) x = get_or 0 (fst maps) x + (if snd e = x then 1 else 0)"
    "get_or [] (snd ?maps) p = get_or [] (snd maps) p @ (if fst e = p then [snd e] else [])"
    using Cons.prems by (force simp: add_edge_def keys_put split: prod.splits)+
  with Cons.IH[of ?maps] Cons.prems show ?case by simp
qed simp

lemma count_by_source:
  "finite R \<Longrightarrow> set (map fst es) \<subseteq> R \<Longrightarrow>
   (\<Sum>p\<in>R. count_list (map snd (filter (\<lambda>e. fst e = p) es)) x) = count_list (map snd es) x"
proof (induction es)
  case (Cons e es)
  have "(\<Sum>p\<in>R. count_list (map snd (filter (\<lambda>e. fst e = p) (e # es))) x)
      = (\<Sum>p\<in>R. count_list (map snd (filter (\<lambda>e. fst e = p) es)) x
                + (if p = fst e then (if snd e = x then 1 else 0) else 0))"
    by (intro sum.cong) auto
  also have "\<dots> = count_list (map snd es) x + (if snd e = x then 1 else 0)"
    using Cons by (simp add: sum.distrib sum.delta)
  finally show ?case by simp
qed simp

lemma build_maps_spec:
  fixes reverse vt h events
  defines "inDegree \<equiv> fst (build_maps reverse vt h events)"
    and "succs \<equiv> get_or [] (snd (build_maps reverse vt h events))"
  shows "set (keys inDegree) = event_ids vt h events"
    and "x \<in> set (succs p) \<longleftrightarrow> precedes reverse vt h events p x"
    and "degree_inv succs inDegree"
proof -
  let ?es = "edges_of reverse vt h events" and ?ids = "event_ids vt h events"
  have edges: "set (map snd ?es) \<subseteq> ?ids" "set (map fst ?es) \<subseteq> ?ids"
    using set_edges_of[of _ _ reverse vt h events] precedes_ids[of reverse vt h events] by force+
  then have "set (map snd ?es) \<subseteq> set (keys (fst (zero_degrees vt h events, [])))"
    by (simp add: zero_degrees_spec(1) del: set_map)
  note maps = fold_add_edge[OF this, folded build_maps_edges, folded inDegree_def succs_def]
  then have keys: "keys inDegree = keys (zero_degrees vt h events)" by simp
  then show k: "set (keys inDegree) = ?ids" by (simp only: zero_degrees_spec(1))
  have succs_eq: "succs p = map snd (filter (\<lambda>e. fst e = p) ?es)" for p
    using maps by simp
  show mem: "x \<in> set (succs p) \<longleftrightarrow> precedes reverse vt h events p x" for x p
    using set_edges_of[of p x reverse vt h events] by (force simp: succs_eq)
  have "indeg succs ?ids x = count_list (map snd ?es) x" for x
    unfolding indeg_def succs_eq using count_by_source[OF _ edges(2)] by simp
  moreover have "get_or 0 inDegree x = int (count_list (map snd ?es) x)" for x
    using maps by (simp add: zero_degrees_spec(3))
  ultimately show "degree_inv succs inDegree"
    unfolding degree_inv_def k using keys zero_degrees_spec(2)[of vt h events] mem
      precedes_ids[of reverse vt h events] by auto
qed

subsection \<open>What \<open>topoSort\<close> returns\<close>

lemma topo_sort_layered:
  assumes "go_order ord"
  obtains ps succs where
    "topo_sort ord vt h events reverse = Some (map (events_of (event_set vt h events)) ps)"
    "layered succs (event_ids vt h events) ps"
    "\<And>p x. x \<in> set (succs p) \<longleftrightarrow> precedes reverse vt h events p x"
    "map (map (event_id vt h)) (map (events_of (event_set vt h events)) ps) = ps"
proof -
  let ?maps = "build_maps reverse vt h events"
  obtain ps where ps: "topo_loop ord 0 (event_set vt h events) (snd ?maps) (fst ?maps) []
      = Some (map (events_of (event_set vt h events)) ps)"
    "layered (get_or [] (snd ?maps)) (event_ids vt h events) ps"
    using topo_loop_layered[OF build_maps_spec(3)[of reverse vt h events] assms, where n = 0 and eventSet = "event_set vt h events" and phases = "[]"]
    by (auto simp: build_maps_spec(1) simp del: set_map)
  have "event_id vt h (the (map_of (event_set vt h events) i)) = i" if "xs \<in> set ps" "i \<in> set xs" for xs i
    using event_set_the(2)[of i vt h events] layered_set[OF ps(2)] that by force
  then have "map (map (event_id vt h)) (map (events_of (event_set vt h events)) ps) = ps"
    by (auto intro!: map_idI)
  moreover have "topo_sort ord vt h events reverse = Some (map (events_of (event_set vt h events)) ps)"
    using ps(1) by (simp add: topo_sort_def case_prod_beta)
  ultimately show ?thesis
    using that[OF _ ps(2) build_maps_spec(2)] by blast
qed

lemma topo_sort_returns: "go_order ord \<Longrightarrow> \<exists>phases. topo_sort ord vt h events reverse = Some phases"
  by (rule topo_sort_layered[of ord vt h events reverse]) blast+

text \<open>The phases of a given result, as identifiers, are layered.\<close>

lemma topo_sort_SomeE:
  assumes "go_order ord" and "topo_sort ord vt h events reverse = Some phases"
  obtains succs where "layered succs (event_ids vt h events) (map (map (event_id vt h)) phases)"
    "\<And>p x. x \<in> set (succs p) \<longleftrightarrow> precedes reverse vt h events p x"
    "\<And>phase e. phase \<in> set phases \<Longrightarrow> e \<in> set phase \<Longrightarrow> e \<in> set events"
proof (rule topo_sort_layered[OF assms(1), of vt h events reverse])
  fix ps and succs :: "ident \<Rightarrow> ident list"
  assume ps: "topo_sort ord vt h events reverse = Some (map (events_of (event_set vt h events)) ps)"
    "layered succs (event_ids vt h events) ps"
    "\<And>p x. x \<in> set (succs p) \<longleftrightarrow> precedes reverse vt h events p x"
    "map (map (event_id vt h)) (map (events_of (event_set vt h events)) ps) = ps"
  with assms(2) have phases: "phases = map (events_of (event_set vt h events)) ps" by simp
  have "e \<in> set events" if "phase \<in> set phases" "e \<in> set phase" for phase e
  proof -
    from that phases obtain xs i where xs: "xs \<in> set ps" "i \<in> set xs"
      and e: "e = the (map_of (event_set vt h events) i)" by auto
    from xs have "i \<in> event_ids vt h events" using layered_set[OF ps(2)] by auto
    then show ?thesis unfolding e by (rule event_set_the(1))
  qed
  have "layered succs (event_ids vt h events) (map (map (event_id vt h)) phases)"
    unfolding phases ps(4) by (rule ps(2))
  then show thesis using ps(3) \<open>\<And>phase e. phase \<in> set phases \<Longrightarrow> e \<in> set phase \<Longrightarrow> e \<in> set events\<close>
    by (rule that)
qed

lemma topo_sort_nonempty:
  assumes "go_order ord" and "topo_sort ord vt h events reverse = Some phases"
  shows "[] \<notin> set phases"
proof (rule topo_sort_SomeE[OF assms])
  fix succs
  assume lay: "layered succs (event_ids vt h events) (map (map (event_id vt h)) phases)"
  show "[] \<notin> set phases"
    using layered_nonempty[OF lay, of "[]"] by (metis image_eqI list.set_map list.simps(8))
qed

lemma topo_sort_ids:
  assumes "go_order ord" and "topo_sort ord vt h events reverse = Some phases"
  shows "distinct (map (event_id vt h) (concat phases))"
    and "event_ids vt h (concat phases) = event_ids vt h events"
    and "set (concat phases) \<subseteq> set events"
proof -
  obtain succs where lay: "layered succs (event_ids vt h events) (map (map (event_id vt h)) phases)"
    and "\<And>p x. x \<in> set (succs p) \<longleftrightarrow> precedes reverse vt h events p x"
    and sub: "\<And>phase e. phase \<in> set phases \<Longrightarrow> e \<in> set phase \<Longrightarrow> e \<in> set events"
    by (rule topo_sort_SomeE[OF assms]) (rule that; assumption)
  show "distinct (map (event_id vt h) (concat phases))"
    using layered_distinct[OF lay] by (simp add: map_concat)
  show "event_ids vt h (concat phases) = event_ids vt h events"
    using layered_set[OF lay] by (simp add: image_UN)
  show "set (concat phases) \<subseteq> set events" using sub by auto
qed

text \<open>When no two events have the same identifier, none is lost.\<close>

lemma topo_sort_mset:
  assumes "go_order ord" and "topo_sort ord vt h events reverse = Some phases"
    and "distinct (map (event_id vt h) events)"
  shows "mset (concat phases) = mset events"
proof -
  note ids = topo_sort_ids[OF assms(1,2)]
  have "set (concat phases) = set events"
  proof
    show "set events \<subseteq> set (concat phases)"
    proof
      fix e
      assume e: "e \<in> set events"
      with ids(2) obtain e' where e': "e' \<in> set (concat phases)" "event_id vt h e' = event_id vt h e"
        by (metis (no_types, lifting) imageE image_eqI)
      with ids(3) e assms(3) have "e' = e" by (auto simp: distinct_map dest: inj_onD)
      with e' show "e \<in> set (concat phases)" by simp
    qed
  qed (rule ids(3))
  moreover have "distinct events" "distinct (concat phases)"
    using assms(3) ids(1) by (simp_all add: distinct_map)
  ultimately show ?thesis by (metis set_eq_iff_mset_eq_distinct)
qed

lemma topo_sort_precedes:
  assumes "go_order ord" and "topo_sort ord vt h events reverse = Some phases"
    and "i < length phases" and "e \<in> set (phases ! i)"
    and "precedes reverse vt h events p (event_id vt h e)"
  shows "(\<exists>j<i. p \<in> event_ids vt h (phases ! j))
       \<or> (Suc i = length phases \<and> p \<in> event_ids vt h (phases ! i))"
proof -
  obtain succs where lay: "layered succs (event_ids vt h events) (map (map (event_id vt h)) phases)"
    and succs: "\<And>p x. x \<in> set (succs p) \<longleftrightarrow> precedes reverse vt h events p x"
    and "\<And>phase e. phase \<in> set phases \<Longrightarrow> e \<in> set phase \<Longrightarrow> e \<in> set events"
    by (rule topo_sort_SomeE[OF assms(1,2)]) (rule that; assumption)
  have "p \<in> event_ids vt h events" using precedes_ids[OF assms(5)] by simp
  then show ?thesis
    using layered_order[OF lay, of i "event_id vt h e" p] assms(3-5) succs by fastforce
qed

lemma topo_sort_precedes_acyclic:
  assumes "go_order ord" and "topo_sort ord vt h events reverse = Some phases"
    and rank: "\<And>p x. precedes reverse vt h events p x \<Longrightarrow> rank p < (rank x :: nat)"
    and "i < length phases" and "e \<in> set (phases ! i)"
    and "precedes reverse vt h events p (event_id vt h e)"
  shows "\<exists>j<i. p \<in> event_ids vt h (phases ! j)"
proof -
  obtain succs where lay: "layered succs (event_ids vt h events) (map (map (event_id vt h)) phases)"
    and succs: "\<And>p x. x \<in> set (succs p) \<longleftrightarrow> precedes reverse vt h events p x"
    and "\<And>phase e. phase \<in> set phases \<Longrightarrow> e \<in> set phase \<Longrightarrow> e \<in> set events"
    by (rule topo_sort_SomeE[OF assms(1,2)]) (rule that; assumption)
  have "p \<in> event_ids vt h events" using precedes_ids[OF assms(6)] by simp
  then show ?thesis
    using layered_order_acyclic[OF lay, of rank i "event_id vt h e" p] assms(4-6) succs rank by fastforce
qed

lemma topo_sort_earliest_phase:
  assumes "go_order ord" and "topo_sort ord vt h events reverse = Some phases"
    and "Suc i < length phases" and "e \<in> set (phases ! Suc i)"
  shows "\<exists>e'\<in>set (phases ! i) \<union> set (phases ! Suc i).
           precedes reverse vt h events (event_id vt h e') (event_id vt h e)"
proof -
  obtain succs where lay: "layered succs (event_ids vt h events) (map (map (event_id vt h)) phases)"
    and succs: "\<And>p x. x \<in> set (succs p) \<longleftrightarrow> precedes reverse vt h events p x"
    and "\<And>phase e. phase \<in> set phases \<Longrightarrow> e \<in> set phase \<Longrightarrow> e \<in> set events"
    by (rule topo_sort_SomeE[OF assms(1,2)]) (rule that; assumption)
  from layered_earliest[OF lay, of i "event_id vt h e"] assms(3,4) succs show ?thesis by fastforce
qed

end
