(* ===== verification/Plan.thy ===== *)
theory Plan
  imports Topo_Sort
begin

text \<open>
  \<open>Plan\<close> of \<open>internal/resource/plan.go\<close>: the difference between the actual and the desired
  resources as phases of events. \<open>plan_one\<close> is the body of the second loop, \<open>plan\<close> the function;
  \<open>plan_deletes\<close>, \<open>plan_updates\<close> and \<open>plan_creates\<close> name what the loops collect
  (\<open>plan_sections\<close>), and the properties are stated about the phases that \<open>plan\<close> returns.
\<close>

subsection \<open>The code\<close>

type_synonym 'r resource_map = "(ident, 'r) gomap"

abbreviation mk_event :: "action \<Rightarrow> 'r \<Rightarrow> 'r event" where
  "mk_event a r \<equiv> \<lparr>Action = a, Resource = r\<rparr>"

abbreviation at_key :: "'r resource_map \<Rightarrow> ident \<Rightarrow> 'r" where
  "at_key m i \<equiv> the (map_of m i)"

definition plan_one :: "('q, 's, 'o, 'r) methods \<Rightarrow> 'o list \<Rightarrow> 'r resource_map \<Rightarrow> 'r resource_map \<Rightarrow> ident
    \<Rightarrow> 'r event list \<times> 'r event list \<times> 'r event list \<Rightarrow> 'r event list \<times> 'r event list \<times> 'r event list" where
  "plan_one vt h actual desired i acc = (case acc of (deletes, updates, creates) \<Rightarrow>
     let r = at_key desired i in
     if has_key actual i then
       let s = m_Status vt h r in
       if Exists s \<and> NeedsRecreate s
       then (deletes @ [mk_event ActionDelete r], updates, creates @ [mk_event ActionCreate r])
       else if Exists s \<and> NeedsUpdate s
       then (deletes, updates @ [mk_event ActionUpdate r], creates)
       else (deletes, updates, creates)
     else (deletes, updates, creates @ [mk_event ActionCreate r]))"

text \<open>
  \<open>Plan\<close> ranges over \<open>actual\<close> in the order \<open>ord 0\<close>, over \<open>desired\<close> in \<open>ord 1\<close>, and
  its three calls of \<open>topoSort\<close> take their orders from what is left of \<open>ord\<close>.
\<close>

definition plan :: "ident order \<Rightarrow> ('q, 's, 'o, 'r) methods \<Rightarrow> 'o list \<Rightarrow> 'r resource_map \<Rightarrow> 'r resource_map
    \<Rightarrow> 'r event list list option" where
  "plan ord vt h actual desired =
     (let orphans = map (\<lambda>i. mk_event ActionDelete (at_key actual i))
                      (filter (\<lambda>i. \<not> has_key desired i) (ord 0 (keys actual)))
      in case fold (plan_one vt h actual desired) (ord 1 (keys desired)) (orphans, [], []) of
           (deletes, updates, creates) \<Rightarrow> do {
             deletePhases \<leftarrow> (if deletes = [] then Some []
                               else topo_sort (\<lambda>n. ord (3 * n + 2)) vt h deletes True);
             updatePhases \<leftarrow> (if updates = [] then Some []
                               else topo_sort (\<lambda>n. ord (3 * n + 3)) vt h updates False);
             createPhases \<leftarrow> (if creates = [] then Some []
                               else topo_sort (\<lambda>n. ord (3 * n + 4)) vt h creates False);
             Some (deletePhases @ updatePhases @ createPhases)
           })"

subsection \<open>What the loops collect\<close>

definition needs_recreate :: "('q, 's, 'o, 'r) methods \<Rightarrow> 'o list \<Rightarrow> 'r resource_map \<Rightarrow> 'r resource_map \<Rightarrow> ident \<Rightarrow> bool"
  where "needs_recreate vt h actual desired i \<longleftrightarrow> has_key actual i
     \<and> Exists (m_Status vt h (at_key desired i)) \<and> NeedsRecreate (m_Status vt h (at_key desired i))"

definition needs_update :: "('q, 's, 'o, 'r) methods \<Rightarrow> 'o list \<Rightarrow> 'r resource_map \<Rightarrow> 'r resource_map \<Rightarrow> ident \<Rightarrow> bool"
  where "needs_update vt h actual desired i \<longleftrightarrow> has_key actual i
     \<and> Exists (m_Status vt h (at_key desired i)) \<and> \<not> NeedsRecreate (m_Status vt h (at_key desired i))
     \<and> NeedsUpdate (m_Status vt h (at_key desired i))"

definition plan_deletes :: "ident order \<Rightarrow> ('q, 's, 'o, 'r) methods \<Rightarrow> 'o list \<Rightarrow> 'r resource_map
    \<Rightarrow> 'r resource_map \<Rightarrow> 'r event list" where
  "plan_deletes ord vt h actual desired =
     map (\<lambda>i. mk_event ActionDelete (at_key actual i))
       (filter (\<lambda>i. \<not> has_key desired i) (ord 0 (keys actual)))
     @ map (\<lambda>i. mk_event ActionDelete (at_key desired i))
         (filter (needs_recreate vt h actual desired) (ord 1 (keys desired)))"

definition plan_updates :: "ident order \<Rightarrow> ('q, 's, 'o, 'r) methods \<Rightarrow> 'o list \<Rightarrow> 'r resource_map
    \<Rightarrow> 'r resource_map \<Rightarrow> 'r event list" where
  "plan_updates ord vt h actual desired =
     map (\<lambda>i. mk_event ActionUpdate (at_key desired i))
       (filter (needs_update vt h actual desired) (ord 1 (keys desired)))"

definition plan_creates :: "ident order \<Rightarrow> ('q, 's, 'o, 'r) methods \<Rightarrow> 'o list \<Rightarrow> 'r resource_map
    \<Rightarrow> 'r resource_map \<Rightarrow> 'r event list" where
  "plan_creates ord vt h actual desired =
     map (\<lambda>i. mk_event ActionCreate (at_key desired i))
       (filter (\<lambda>i. \<not> has_key actual i \<or> needs_recreate vt h actual desired i) (ord 1 (keys desired)))"

lemma fold_plan_one:
  "fold (plan_one vt h actual desired) is (deletes, updates, creates) =
     (deletes @ map (\<lambda>i. mk_event ActionDelete (at_key desired i))
                  (filter (needs_recreate vt h actual desired) is),
      updates @ map (\<lambda>i. mk_event ActionUpdate (at_key desired i))
                  (filter (needs_update vt h actual desired) is),
      creates @ map (\<lambda>i. mk_event ActionCreate (at_key desired i))
                  (filter (\<lambda>i. \<not> has_key actual i \<or> needs_recreate vt h actual desired i) is))"
  by (induction "is" arbitrary: deletes updates creates)
    (auto simp: plan_one_def needs_recreate_def needs_update_def Let_def)

lemma topo_sort_Nil: "topo_sort ord vt h [] reverse = Some []"
  by (simp add: topo_sort_def build_maps_def zero_degrees_def topo_loop.simps)

text \<open>The phases are the three sorted lists, one after the other; \<open>plan\<close> always returns them.\<close>

lemma plan_sections:
  assumes "go_order ord"
  obtains ds us cs where "plan ord vt h actual desired = Some (ds @ us @ cs)"
    "topo_sort (\<lambda>n. ord (3 * n + 2)) vt h (plan_deletes ord vt h actual desired) True = Some ds"
    "topo_sort (\<lambda>n. ord (3 * n + 3)) vt h (plan_updates ord vt h actual desired) False = Some us"
    "topo_sort (\<lambda>n. ord (3 * n + 4)) vt h (plan_creates ord vt h actual desired) False = Some cs"
proof -
  let ?sort = "\<lambda>k. topo_sort (\<lambda>n. ord (3 * n + k)) vt h"
  have total: "\<exists>ps. ?sort k es b = Some ps" for k es b
    by (rule topo_sort_returns[OF go_order_shift[OF assms]])
  obtain ds where ds: "?sort 2 (plan_deletes ord vt h actual desired) True = Some ds" using total by blast
  obtain us where us: "?sort 3 (plan_updates ord vt h actual desired) False = Some us" using total by blast
  obtain cs where cs: "?sort 4 (plan_creates ord vt h actual desired) False = Some cs" using total by blast
  have guard: "(if es = [] then Some [] else ?sort k es b) = ?sort k es b" for k es b
    by (simp add: topo_sort_Nil)
  have "plan ord vt h actual desired = Some (ds @ us @ cs)"
    using ds us cs unfolding plan_deletes_def plan_updates_def plan_creates_def
    by (simp add: plan_def Let_def fold_plan_one guard)
  with ds us cs that show ?thesis by blast
qed

definition well_keyed :: "('q, 's, 'o, 'r) methods \<Rightarrow> 'o list \<Rightarrow> 'r resource_map \<Rightarrow> bool" where
  "well_keyed vt h m \<longleftrightarrow> distinct (keys m) \<and> (\<forall>(i, r)\<in>set m. m_Identifier vt h r = i)"

lemma well_keyed_at: "well_keyed vt h m \<Longrightarrow> i \<in> fst ` set m \<Longrightarrow> m_Identifier vt h (at_key m i) = i"
  using map_of_SomeD keys_lookup[of i m] by (fastforce simp: well_keyed_def)

text \<open>Which actions \<open>Plan\<close> is to take for an identifier.\<close>

fun planned :: "('q, 's, 'o, 'r) methods \<Rightarrow> 'o list \<Rightarrow> 'r resource_map \<Rightarrow> 'r resource_map \<Rightarrow> action \<Rightarrow> ident
    \<Rightarrow> bool" where
  "planned vt h actual desired ActionDelete i \<longleftrightarrow> has_key actual i \<and>
     (has_key desired i \<longrightarrow> needs_recreate vt h actual desired i)"
| "planned vt h actual desired ActionUpdate i \<longleftrightarrow> has_key desired i \<and> needs_update vt h actual desired i"
| "planned vt h actual desired ActionCreate i \<longleftrightarrow> has_key desired i \<and>
     (has_key actual i \<longrightarrow> needs_recreate vt h actual desired i)"
| "planned vt h actual desired (ActionOther n) i \<longleftrightarrow> False"

text \<open>
  What the loops call for, by the identifiers of the resources. A key and the identifier of the
  resource behind it may differ in \<open>actual\<close> (\<open>discoverOrphanNodes\<close> keys one node by every survivor),
  so a delete is due for an identifier if some key asks for it.
\<close>

fun due :: "('q, 's, 'o, 'r) methods \<Rightarrow> 'o list \<Rightarrow> 'r resource_map \<Rightarrow> 'r resource_map \<Rightarrow> action \<Rightarrow> ident
    \<Rightarrow> bool" where
  "due vt h actual desired ActionDelete x \<longleftrightarrow>
     (\<exists>i\<in>set (keys actual). \<not> has_key desired i \<and> m_Identifier vt h (at_key actual i) = x) \<or>
     (\<exists>i\<in>set (keys desired). needs_recreate vt h actual desired i \<and> m_Identifier vt h (at_key desired i) = x)"
| "due vt h actual desired ActionUpdate x \<longleftrightarrow>
     (\<exists>i\<in>set (keys desired). needs_update vt h actual desired i \<and> m_Identifier vt h (at_key desired i) = x)"
| "due vt h actual desired ActionCreate x \<longleftrightarrow>
     (\<exists>i\<in>set (keys desired). (\<not> has_key actual i \<or> needs_recreate vt h actual desired i)
        \<and> m_Identifier vt h (at_key desired i) = x)"
| "due vt h actual desired (ActionOther n) x \<longleftrightarrow> False"

lemma has_key_keys: "has_key m i \<longleftrightarrow> i \<in> set (keys m)"
  by (auto simp: has_key_iff map_of_None_keys dest: map_of_in_keys)

text \<open>For maps keyed by identifier, as \<open>ComputeDesired\<close> builds them, it is the action of the key itself.\<close>

lemma due_planned:
  assumes "well_keyed vt h desired" and "a = ActionDelete \<Longrightarrow> well_keyed vt h actual"
  shows "due vt h actual desired a x \<longleftrightarrow> planned vt h actual desired a x"
proof -
  have key: "(\<exists>i\<in>set (keys m). P i \<and> m_Identifier vt h (at_key m i) = x) \<longleftrightarrow> x \<in> set (keys m) \<and> P x"
    if "well_keyed vt h m" for m P
    using well_keyed_at[OF that] by auto
  show ?thesis
  proof (cases a)
    case ActionDelete
    show ?thesis unfolding ActionDelete due.simps planned.simps key[OF assms(1)] key[OF assms(2)[OF ActionDelete]] has_key_keys
      needs_recreate_def by blast
  next
    case ActionUpdate
    show ?thesis unfolding ActionUpdate due.simps planned.simps key[OF assms(1)] has_key_keys ..
  next
    case ActionCreate
    show ?thesis unfolding ActionCreate due.simps planned.simps key[OF assms(1)] has_key_keys by blast
  qed simp
qed

lemma plan_lists_due:
  assumes "go_order ord"
  shows "event_ids vt h (plan_deletes ord vt h actual desired) = {x. due vt h actual desired ActionDelete x}"
    and "event_ids vt h (plan_updates ord vt h actual desired) = {x. due vt h actual desired ActionUpdate x}"
    and "event_ids vt h (plan_creates ord vt h actual desired) = {x. due vt h actual desired ActionCreate x}"
proof -
  have image: "event_ids vt h (map (\<lambda>i. mk_event a (at_key m i)) (filter P (ord n (keys m)))) =
      {x. \<exists>i\<in>set (keys m). P i \<and> m_Identifier vt h (at_key m i) = x}" for a m P n
    unfolding set_map set_filter go_order_set[OF assms] image_image event.simps by blast
  show "event_ids vt h (plan_deletes ord vt h actual desired) = {x. due vt h actual desired ActionDelete x}"
    unfolding plan_deletes_def set_append image_Un image due.simps by blast
  show "event_ids vt h (plan_updates ord vt h actual desired) = {x. due vt h actual desired ActionUpdate x}"
    unfolding plan_updates_def image due.simps by blast
  show "event_ids vt h (plan_creates ord vt h actual desired) = {x. due vt h actual desired ActionCreate x}"
    unfolding plan_creates_def image due.simps by blast
qed

lemma ids_of_map:
  "well_keyed vt h m \<Longrightarrow> set is \<subseteq> set (keys m) \<Longrightarrow>
   map (event_id vt h) (map (\<lambda>i. mk_event a (at_key m i)) is) = is"
  by (simp add: comp_def, rule map_idI, rule well_keyed_at) (auto dest: subsetD)

lemma plan_lists_ids:
  assumes "go_order ord" and d: "well_keyed vt h desired"
  shows "well_keyed vt h actual \<Longrightarrow> map (event_id vt h) (plan_deletes ord vt h actual desired) =
           filter (\<lambda>i. \<not> has_key desired i) (ord 0 (keys actual)) @
           filter (needs_recreate vt h actual desired) (ord 1 (keys desired))"
    and "map (event_id vt h) (plan_updates ord vt h actual desired) =
           filter (needs_update vt h actual desired) (ord 1 (keys desired))"
    and "map (event_id vt h) (plan_creates ord vt h actual desired) =
           filter (\<lambda>i. \<not> has_key actual i \<or> needs_recreate vt h actual desired i) (ord 1 (keys desired))"
proof -
  have sub: "set (filter P (ord n (keys m))) \<subseteq> set (keys m)" for P n and m :: "'d resource_map"
    using go_order_set[OF assms(1), of n "keys m"] by auto
  note ids = ids_of_map[OF d sub]
  show "map (event_id vt h) (plan_deletes ord vt h actual desired) =
      filter (\<lambda>i. \<not> has_key desired i) (ord 0 (keys actual)) @
      filter (needs_recreate vt h actual desired) (ord 1 (keys desired))" if a: "well_keyed vt h actual"
    unfolding plan_deletes_def map_append ids ids_of_map[OF a sub] ..
  show "map (event_id vt h) (plan_updates ord vt h actual desired) =
      filter (needs_update vt h actual desired) (ord 1 (keys desired))"
    unfolding plan_updates_def ids ..
  show "map (event_id vt h) (plan_creates ord vt h actual desired) =
      filter (\<lambda>i. \<not> has_key actual i \<or> needs_recreate vt h actual desired i) (ord 1 (keys desired))"
    unfolding plan_creates_def ids ..
qed

text \<open>Updates and creates concern the keys of \<open>desired\<close> only; deletes need \<open>actual\<close> well keyed, too.\<close>

lemma plan_lists_desired:
  assumes "go_order ord" and "well_keyed vt h desired"
  shows "distinct (map (event_id vt h) (plan_updates ord vt h actual desired))"
    and "distinct (map (event_id vt h) (plan_creates ord vt h actual desired))"
    and "event_ids vt h (plan_updates ord vt h actual desired) = {i. planned vt h actual desired ActionUpdate i}"
    and "event_ids vt h (plan_creates ord vt h actual desired) = {i. planned vt h actual desired ActionCreate i}"
proof -
  note ids = plan_lists_ids(2,3)[OF assms]
  have dist: "distinct (ord n (keys desired))" for n
    using assms go_order_distinct[OF assms(1)] by (simp add: well_keyed_def)
  have keys: "set (ord n (keys desired)) = set (keys desired)" for n
    by (rule go_order_set[OF assms(1)])
  have image: "event_ids vt h es = set (map (event_id vt h) es)" for es by simp
  show "distinct (map (event_id vt h) (plan_updates ord vt h actual desired))"
    "distinct (map (event_id vt h) (plan_creates ord vt h actual desired))"
    unfolding ids using dist by simp_all
  show "event_ids vt h (plan_updates ord vt h actual desired) = {i. planned vt h actual desired ActionUpdate i}"
    "event_ids vt h (plan_creates ord vt h actual desired) = {i. planned vt h actual desired ActionCreate i}"
    unfolding image ids using keys
    by (auto simp: has_key_iff map_of_None_keys needs_recreate_def needs_update_def dest: map_of_in_keys)
qed

lemma plan_lists_deletes:
  assumes "go_order ord" and "well_keyed vt h actual" and "well_keyed vt h desired"
  shows "distinct (map (event_id vt h) (plan_deletes ord vt h actual desired))"
    and "event_ids vt h (plan_deletes ord vt h actual desired) = {i. planned vt h actual desired ActionDelete i}"
proof -
  note ids = plan_lists_ids(1)[OF assms(1,3,2)]
  have keys: "set (ord n (keys m)) = set (keys m)" for n and m :: "'d resource_map"
    by (rule go_order_set[OF assms(1)])
  have dist: "distinct (ord n (keys m))" if "well_keyed vt h m" for n and m :: "'d resource_map"
    using that go_order_distinct[OF assms(1)] by (simp add: well_keyed_def)
  have image: "event_ids vt h es = set (map (event_id vt h) es)" for es by simp
  show "distinct (map (event_id vt h) (plan_deletes ord vt h actual desired))"
    unfolding ids using dist assms keys by (auto simp: has_key_iff map_of_None_keys)
  show "event_ids vt h (plan_deletes ord vt h actual desired) = {i. planned vt h actual desired ActionDelete i}"
    unfolding image ids using keys
    by (auto simp: has_key_iff map_of_None_keys needs_recreate_def needs_update_def dest: map_of_in_keys)
qed

lemma plan_lists_action:
  "e \<in> set (plan_deletes ord vt h actual desired) \<Longrightarrow> Action e = ActionDelete"
  "e \<in> set (plan_updates ord vt h actual desired) \<Longrightarrow> Action e = ActionUpdate"
  "e \<in> set (plan_creates ord vt h actual desired) \<Longrightarrow> Action e = ActionCreate"
  by (auto simp: plan_deletes_def plan_updates_def plan_creates_def)

lemma count_one_action:
  assumes "\<forall>e\<in>set es. Action e = b" and "distinct (map (event_id vt h) es)"
  shows "length (filter (\<lambda>e. Action e = a \<and> event_id vt h e = i) es)
       = (if a = b \<and> i \<in> event_ids vt h es then 1 else 0)"
  using assms by (induction es) (auto simp: filter_empty_conv)

lemma filter_length_mset: "mset xs = mset ys \<Longrightarrow> length (filter P xs) = length (filter P ys)"
  by (metis mset_filter size_mset)

lemma plan_counts_desired:
  assumes "go_order ord" and "well_keyed vt h desired"
    and "plan ord vt h actual desired = Some phases" and "a \<noteq> ActionDelete"
  shows "length (filter (\<lambda>e. Action e = a \<and> event_id vt h e = i) (concat phases))
       = (if planned vt h actual desired a i then 1 else 0)"
proof -
  obtain ds us cs where p: "plan ord vt h actual desired = Some (ds @ us @ cs)"
    and s: "topo_sort (\<lambda>n. ord (3 * n + 2)) vt h (plan_deletes ord vt h actual desired) True = Some ds"
    "topo_sort (\<lambda>n. ord (3 * n + 3)) vt h (plan_updates ord vt h actual desired) False = Some us"
    "topo_sort (\<lambda>n. ord (3 * n + 4)) vt h (plan_creates ord vt h actual desired) False = Some cs"
    by (rule plan_sections[OF assms(1)]) (rule that; assumption)
  note ids = plan_lists_desired[OF assms(1,2)] and shift = go_order_shift[OF assms(1)]
  note sorted = topo_sort_mset[OF shift s(2) ids(1)] topo_sort_mset[OF shift s(3) ids(2)]
  let ?P = "\<lambda>e. Action e = a \<and> event_id vt h e = i"
  have "filter ?P (concat ds) = []"
    using topo_sort_ids(3)[OF shift s(1)] plan_lists_action(1)[of _ ord vt h actual desired] assms(4)
    by (fastforce simp: filter_empty_conv)
  then have "length (filter ?P (concat phases))
      = length (filter ?P (plan_updates ord vt h actual desired))
      + length (filter ?P (plan_creates ord vt h actual desired))"
    using p assms(3) sorted[THEN filter_length_mset] by simp
  also have "\<dots> = (if planned vt h actual desired a i then 1 else 0)"
    using count_one_action[OF _ ids(1), where b = ActionUpdate and a = a and i = i]
      count_one_action[OF _ ids(2), where b = ActionCreate and a = a and i = i]
      plan_lists_action[of _ ord vt h actual desired] assms(4)
    unfolding ids(3,4) by (cases a) simp_all
  finally show ?thesis .
qed

lemma plan_counts_deletes:
  assumes "go_order ord" and "well_keyed vt h actual" and "well_keyed vt h desired"
    and "plan ord vt h actual desired = Some phases"
  shows "length (filter (\<lambda>e. Action e = ActionDelete \<and> event_id vt h e = i) (concat phases))
       = (if planned vt h actual desired ActionDelete i then 1 else 0)"
proof -
  obtain ds us cs where p: "plan ord vt h actual desired = Some (ds @ us @ cs)"
    and s: "topo_sort (\<lambda>n. ord (3 * n + 2)) vt h (plan_deletes ord vt h actual desired) True = Some ds"
    "topo_sort (\<lambda>n. ord (3 * n + 3)) vt h (plan_updates ord vt h actual desired) False = Some us"
    "topo_sort (\<lambda>n. ord (3 * n + 4)) vt h (plan_creates ord vt h actual desired) False = Some cs"
    by (rule plan_sections[OF assms(1)]) (rule that; assumption)
  note ids = plan_lists_deletes[OF assms(1-3)] and shift = go_order_shift[OF assms(1)]
  let ?P = "\<lambda>e. Action e = ActionDelete \<and> event_id vt h e = i"
  have "filter ?P (concat us) = []" "filter ?P (concat cs) = []"
    using topo_sort_ids(3)[OF shift s(2)] topo_sort_ids(3)[OF shift s(3)] plan_lists_action(2,3)[of _ ord vt h actual desired]
    by (fastforce simp: filter_empty_conv)+
  then have "length (filter ?P (concat phases)) = length (filter ?P (plan_deletes ord vt h actual desired))"
    using p assms(4) topo_sort_mset[OF shift s(1) ids(1), THEN filter_length_mset] by simp
  then show ?thesis
    using count_one_action[OF _ ids(1), where b = ActionDelete and a = ActionDelete and i = i] plan_lists_action(1)[of _ ord vt h actual desired]
    unfolding ids(2) by simp
qed

lemma plan_counts:
  assumes "go_order ord" and "well_keyed vt h actual" and "well_keyed vt h desired"
    and "plan ord vt h actual desired = Some phases"
  shows "length (filter (\<lambda>e. Action e = a \<and> event_id vt h e = i) (concat phases))
       = (if planned vt h actual desired a i then 1 else 0)"
  using plan_counts_deletes[OF assms] plan_counts_desired[OF assms(1,3,4)] by (cases "a = ActionDelete") simp_all

lemma plan_phase_sections:
  assumes "go_order ord" and "plan ord vt h actual desired = Some phases"
  obtains ds us cs where "phases = ds @ us @ cs"
    "topo_sort (\<lambda>n. ord (3 * n + 2)) vt h (plan_deletes ord vt h actual desired) True = Some ds"
    "topo_sort (\<lambda>n. ord (3 * n + 3)) vt h (plan_updates ord vt h actual desired) False = Some us"
    "topo_sort (\<lambda>n. ord (3 * n + 4)) vt h (plan_creates ord vt h actual desired) False = Some cs"
    "\<And>e. e \<in> set (concat ds) \<Longrightarrow> Action e = ActionDelete"
    "\<And>e. e \<in> set (concat us) \<Longrightarrow> Action e = ActionUpdate"
    "\<And>e. e \<in> set (concat cs) \<Longrightarrow> Action e = ActionCreate"
proof -
  note shift = go_order_shift[OF assms(1)]
  show ?thesis
  proof (rule plan_sections[OF assms(1), of vt h actual desired])
    fix ds us cs
    assume p: "plan ord vt h actual desired = Some (ds @ us @ cs)"
      and s: "topo_sort (\<lambda>n. ord (3 * n + 2)) vt h (plan_deletes ord vt h actual desired) True = Some ds"
      "topo_sort (\<lambda>n. ord (3 * n + 3)) vt h (plan_updates ord vt h actual desired) False = Some us"
      "topo_sort (\<lambda>n. ord (3 * n + 4)) vt h (plan_creates ord vt h actual desired) False = Some cs"
    from p assms(2) have "phases = ds @ us @ cs" by simp
    then show thesis
      by (rule that[OF _ s])
        (use topo_sort_ids(3)[OF shift s(1)] topo_sort_ids(3)[OF shift s(2)] topo_sort_ids(3)[OF shift s(3)]
          plan_lists_action[of _ ord vt h actual desired] in blast)+
  qed
qed

lemma sorted_count:
  assumes "go_order ord" and "topo_sort ord vt h es reverse = Some phases"
    and "\<And>e. e \<in> set (concat phases) \<Longrightarrow> Action e = b"
  shows "length (filter (\<lambda>e. Action e = a \<and> event_id vt h e = i) (concat phases))
       = (if a = b \<and> i \<in> event_ids vt h es then 1 else 0)"
  using count_one_action[of "concat phases" b vt h a i] assms(3) topo_sort_ids(1,2)[OF assms(1,2)] by simp

text \<open>However the maps are keyed, the plan has what is due, each identifier once in an action.\<close>

lemma plan_counts_due:
  assumes "go_order ord" and "plan ord vt h actual desired = Some phases"
  shows "length (filter (\<lambda>e. Action e = a \<and> event_id vt h e = i) (concat phases))
       = (if due vt h actual desired a i then 1 else 0)"
proof (rule plan_phase_sections[OF assms])
  fix ds us cs
  note shift = go_order_shift[OF assms(1)]
  assume ph: "phases = ds @ us @ cs"
    and s: "topo_sort (\<lambda>n. ord (3 * n + 2)) vt h (plan_deletes ord vt h actual desired) True = Some ds"
      "topo_sort (\<lambda>n. ord (3 * n + 3)) vt h (plan_updates ord vt h actual desired) False = Some us"
      "topo_sort (\<lambda>n. ord (3 * n + 4)) vt h (plan_creates ord vt h actual desired) False = Some cs"
    and acts: "\<And>e. e \<in> set (concat ds) \<Longrightarrow> Action e = ActionDelete"
      "\<And>e. e \<in> set (concat us) \<Longrightarrow> Action e = ActionUpdate"
      "\<And>e. e \<in> set (concat cs) \<Longrightarrow> Action e = ActionCreate"
  have d: "length (filter (\<lambda>e. Action e = a \<and> event_id vt h e = i) (concat ds))
      = (if a = ActionDelete \<and> due vt h actual desired ActionDelete i then 1 else 0)"
    using sorted_count[OF shift s(1) acts(1), of a i] unfolding plan_lists_due[OF assms(1)] mem_Collect_eq .
  have u: "length (filter (\<lambda>e. Action e = a \<and> event_id vt h e = i) (concat us))
      = (if a = ActionUpdate \<and> due vt h actual desired ActionUpdate i then 1 else 0)"
    using sorted_count[OF shift s(2) acts(2), of a i] unfolding plan_lists_due[OF assms(1)] mem_Collect_eq .
  have c: "length (filter (\<lambda>e. Action e = a \<and> event_id vt h e = i) (concat cs))
      = (if a = ActionCreate \<and> due vt h actual desired ActionCreate i then 1 else 0)"
    using sorted_count[OF shift s(3) acts(3), of a i] unfolding plan_lists_due[OF assms(1)] mem_Collect_eq .
  show ?thesis
    unfolding ph concat_append filter_append length_append d u c
    by (cases a) (simp_all del: due.simps add: due.simps(4))
qed

text \<open>Every event carries a resource of the maps: an update or a create one that is desired.\<close>

lemma plan_event_resource:
  assumes "go_order ord" and "plan ord vt h actual desired = Some phases" and "e \<in> set (concat phases)"
  shows "Resource e \<in> snd ` set desired \<or> Action e = ActionDelete \<and> Resource e \<in> snd ` set actual"
proof (rule plan_phase_sections[OF assms(1,2)])
  fix ds us cs
  note shift = go_order_shift[OF assms(1)]
  assume ph: "phases = ds @ us @ cs"
    and "topo_sort (\<lambda>n. ord (3 * n + 2)) vt h (plan_deletes ord vt h actual desired) True = Some ds"
    and "topo_sort (\<lambda>n. ord (3 * n + 3)) vt h (plan_updates ord vt h actual desired) False = Some us"
    and "topo_sort (\<lambda>n. ord (3 * n + 4)) vt h (plan_creates ord vt h actual desired) False = Some cs"
  note ids = topo_sort_ids(3)[OF shift this(2)] topo_sort_ids(3)[OF shift this(3)] topo_sort_ids(3)[OF shift this(4)]
  have at: "(i, r) \<in> set m \<Longrightarrow> at_key m i \<in> snd ` set m" for m i r
    using keys_lookup[of i m] by (force dest: map_of_SomeD)
  have "e \<in> set (plan_deletes ord vt h actual desired) \<or> e \<in> set (plan_updates ord vt h actual desired)
      \<or> e \<in> set (plan_creates ord vt h actual desired)"
    using assms(3) ids unfolding ph by auto
  then show ?thesis
    unfolding plan_deletes_def plan_updates_def plan_creates_def set_append set_map set_filter go_order_set[OF assms(1)]
    by (auto intro: at simp del: set_map)
qed

lemma plan_nonempty_phases:
  assumes "go_order ord" and "plan ord vt h actual desired = Some phases"
  shows "[] \<notin> set phases"
proof (rule plan_phase_sections[OF assms])
  fix ds us cs
  note shift = go_order_shift[OF assms(1)]
  assume "phases = ds @ us @ cs"
    and "topo_sort (\<lambda>n. ord (3 * n + 2)) vt h (plan_deletes ord vt h actual desired) True = Some ds"
    and "topo_sort (\<lambda>n. ord (3 * n + 3)) vt h (plan_updates ord vt h actual desired) False = Some us"
    and "topo_sort (\<lambda>n. ord (3 * n + 4)) vt h (plan_creates ord vt h actual desired) False = Some cs"
  from this(1) topo_sort_nonempty[OF shift this(2)] topo_sort_nonempty[OF shift this(3)]
    topo_sort_nonempty[OF shift this(4)]
  show ?thesis by simp
qed

lemma nth_append3:
  assumes "i < length (xs @ ys @ zs)"
  shows "(i < length xs \<and> (xs @ ys @ zs) ! i = xs ! i)
    \<or> (length xs \<le> i \<and> i - length xs < length ys \<and> (xs @ ys @ zs) ! i = ys ! (i - length xs))
    \<or> (length xs + length ys \<le> i \<and> i - length xs - length ys < length zs
         \<and> (xs @ ys @ zs) ! i = zs ! (i - length xs - length ys))"
  using assms by (auto simp: nth_append)

text \<open>
  The events of one action stand in one section of the phases; \<open>in_section\<close> moves between a phase
  of the plan and the phase of its section.
\<close>

lemma in_section:
  assumes "i < length (ds @ us @ cs)" and "e \<in> set ((ds @ us @ cs) ! i)"
    and "\<And>e. e \<in> set (concat ds) \<Longrightarrow> Action e = ActionDelete"
    and "\<And>e. e \<in> set (concat us) \<Longrightarrow> Action e = ActionUpdate"
    and "\<And>e. e \<in> set (concat cs) \<Longrightarrow> Action e = ActionCreate"
  shows "(Action e = ActionDelete \<and> i < length ds \<and> e \<in> set (ds ! i))
    \<or> (Action e = ActionUpdate \<and> length ds \<le> i \<and> i < length ds + length us \<and> e \<in> set (us ! (i - length ds)))
    \<or> (Action e = ActionCreate \<and> length ds + length us \<le> i \<and> i - length ds - length us < length cs
         \<and> e \<in> set (cs ! (i - length ds - length us)))"
  using nth_append3[OF assms(1)]
proof (elim disjE conjE)
  assume "i < length ds" "(ds @ us @ cs) ! i = ds ! i"
  with assms(2,3) in_concat_nth[of i ds e] show ?thesis by simp
next
  assume "length ds \<le> i" "i - length ds < length us" "(ds @ us @ cs) ! i = us ! (i - length ds)"
  with assms(2,4) in_concat_nth[of "i - length ds" us e] show ?thesis by simp
next
  assume "length ds + length us \<le> i" "i - length ds - length us < length cs"
    "(ds @ us @ cs) ! i = cs ! (i - length ds - length us)"
  with assms(2,5) in_concat_nth[of "i - length ds - length us" cs e] show ?thesis by simp
qed

lemma section_nth:
  "j < length cs \<Longrightarrow> (ds @ us @ cs) ! (length ds + length us + j) = cs ! j"
  by (simp add: nth_append)

lemma precedes_plan_creates:
  assumes "go_order ord" and "well_keyed vt h desired"
    and "precedes False vt h (plan_creates ord vt h actual desired) p x"
  shows "\<exists>r. (x, r) \<in> set desired \<and> p \<in> set (m_Dependencies vt h r) \<and> has_key desired p"
proof -
  from assms(3) obtain e where e: "e \<in> set (plan_creates ord vt h actual desired)"
    "p \<in> set (event_deps vt h e)" "p \<in> event_ids vt h (plan_creates ord vt h actual desired)"
    "x = event_id vt h e"
    by (auto simp: precedes_def)
  then obtain i where i: "i \<in> set (keys desired)" "e = mk_event ActionCreate (at_key desired i)"
    using go_order_set[OF assms(1), of 1 "keys desired"] by (auto simp: plan_creates_def)
  have "(i, at_key desired i) \<in> set desired" using i(1) keys_lookup[of i desired] by (auto dest: map_of_SomeD)
  moreover have "x = i" using e(4) i well_keyed_at[OF assms(2)] by simp
  moreover have "has_key desired p"
    using e(3) unfolding plan_lists_desired(4)[OF assms(1,2)] by simp
  ultimately show ?thesis using e(2) i(2) by auto
qed

lemma precedes_plan_deletes:
  assumes "go_order ord" and "precedes True vt h (plan_deletes ord vt h actual desired) x p"
  shows "\<exists>r\<in>snd ` set actual \<union> snd ` set desired. m_Identifier vt h r = x
    \<and> p \<in> set (m_Dependencies vt h r) \<and> due vt h actual desired ActionDelete p"
proof -
  from assms(2) obtain e where e: "e \<in> set (plan_deletes ord vt h actual desired)"
    "p \<in> set (event_deps vt h e)" "p \<in> event_ids vt h (plan_deletes ord vt h actual desired)"
    "x = event_id vt h e"
    by (auto simp: precedes_def)
  then obtain i m where i: "m = actual \<or> m = desired" "i \<in> set (keys m)"
    "e = mk_event ActionDelete (at_key m i)"
    using go_order_set[OF assms(1), of 0 "keys actual"] go_order_set[OF assms(1), of 1 "keys desired"]
    by (auto simp: plan_deletes_def)
  have "(i, at_key m i) \<in> set m" using i(2) keys_lookup[of i m] by (auto dest: map_of_SomeD)
  with i(1) have "at_key m i \<in> snd ` set actual \<union> snd ` set desired" by force
  moreover have "due vt h actual desired ActionDelete p"
    using e(3) unfolding plan_lists_due(1)[OF assms(1)] by simp
  ultimately show ?thesis using e(2,4) i(3) by auto
qed

lemma creates_in_order:
  assumes "go_order ord" and "well_keyed vt h desired"
    and "plan ord vt h actual desired = Some phases"
    and "\<And>x r d. (x, r) \<in> set desired \<Longrightarrow> d \<in> set (m_Dependencies vt h r) \<Longrightarrow> has_key desired d \<Longrightarrow>
           rank d < (rank x :: nat)"
    and "i < length phases" and "e \<in> set (phases ! i)" and "Action e = ActionCreate"
    and "d \<in> set (event_deps vt h e)" and "planned vt h actual desired ActionCreate d"
  shows "\<exists>j<i. \<exists>e'\<in>set (phases ! j). Action e' = ActionCreate \<and> event_id vt h e' = d"
proof (rule plan_phase_sections[OF assms(1,3)])
  fix ds us cs
  assume ph: "phases = ds @ us @ cs"
    and cs: "topo_sort (\<lambda>n. ord (3 * n + 4)) vt h (plan_creates ord vt h actual desired) False = Some cs"
    and acts: "\<And>e. e \<in> set (concat ds) \<Longrightarrow> Action e = ActionDelete"
      "\<And>e. e \<in> set (concat us) \<Longrightarrow> Action e = ActionUpdate"
      "\<And>e. e \<in> set (concat cs) \<Longrightarrow> Action e = ActionCreate"
  note shift = go_order_shift[OF assms(1)]
  define k where "k = i - length ds - length us"
  from in_section[OF assms(5,6)[unfolded ph] acts] assms(7)
  have k: "k < length cs" "e \<in> set (cs ! k)" "i = length ds + length us + k"
    by (auto simp: k_def)
  from in_concat_nth[OF k(1,2)] topo_sort_ids(3)[OF shift cs]
  have e: "e \<in> set (plan_creates ord vt h actual desired)" by blast
  have "d \<in> event_ids vt h (plan_creates ord vt h actual desired)"
    unfolding plan_lists_desired(4)[OF assms(1,2)] using assms(9) by simp
  with e assms(8) have prec: "precedes False vt h (plan_creates ord vt h actual desired) d (event_id vt h e)"
    unfolding precedes_def by auto
  have rank: "rank p < rank x" if "precedes False vt h (plan_creates ord vt h actual desired) p x" for p x
    using precedes_plan_creates[OF assms(1,2) that] assms(4) by blast
  from topo_sort_precedes_acyclic[OF shift cs, of rank, OF rank k(1,2) prec]
  obtain j e' where j: "j < k" "e' \<in> set (cs ! j)" "event_id vt h e' = d" by auto
  have "length ds + length us + j < i" and "e' \<in> set (phases ! (length ds + length us + j))"
    using j k section_nth[of j cs ds us] unfolding ph by auto
  moreover have "Action e' = ActionCreate" using acts(3)[OF in_concat_nth[of j cs e']] j k(1) by simp
  ultimately show ?thesis using j(3) by blast
qed

text \<open>
  Nor does a create stand later than need be: not later, counting from the first phase of the creates,
  than the rank of what it creates.
\<close>

lemma creates_within_rank:
  assumes "go_order ord" and "well_keyed vt h desired"
    and "plan ord vt h actual desired = Some phases"
    and "\<And>x r d. (x, r) \<in> set desired \<Longrightarrow> d \<in> set (m_Dependencies vt h r) \<Longrightarrow> has_key desired d \<Longrightarrow>
           rank d < (rank x :: nat)"
  obtains base where "\<And>i e. i < length phases \<Longrightarrow> e \<in> set (phases ! i) \<Longrightarrow> Action e = ActionCreate \<Longrightarrow>
    base \<le> i \<and> i \<le> base + rank (event_id vt h e)"
proof (rule plan_phase_sections[OF assms(1,3)])
  fix ds us cs
  assume ph: "phases = ds @ us @ cs"
    and cs: "topo_sort (\<lambda>n. ord (3 * n + 4)) vt h (plan_creates ord vt h actual desired) False = Some cs"
    and acts: "\<And>e. e \<in> set (concat ds) \<Longrightarrow> Action e = ActionDelete"
      "\<And>e. e \<in> set (concat us) \<Longrightarrow> Action e = ActionUpdate"
      "\<And>e. e \<in> set (concat cs) \<Longrightarrow> Action e = ActionCreate"
  have rank: "rank p < rank x" if "precedes False vt h (plan_creates ord vt h actual desired) p x" for p x
    using precedes_plan_creates[OF assms(1,2) that] assms(4) by blast
  note earliest = topo_sort_earliest_phase[OF go_order_shift[OF assms(1)] cs]
  have within: "k \<le> rank (event_id vt h e)" if "k < length cs" "e \<in> set (cs ! k)" for k e
    using that
  proof (induction "rank (event_id vt h e)" arbitrary: k e rule: less_induct)
    case less
    show ?case
    proof (cases k)
      case (Suc j)
      with earliest less.prems obtain e' where e': "e' \<in> set (cs ! j) \<union> set (cs ! k)"
        "precedes False vt h (plan_creates ord vt h actual desired) (event_id vt h e') (event_id vt h e)"
        by blast
      note r = rank[OF e'(2)]
      from e'(1) show ?thesis
      proof
        assume "e' \<in> set (cs ! j)"
        with less.hyps[OF r, of j] less.prems(1) Suc r show ?thesis by simp
      next
        assume "e' \<in> set (cs ! k)"
        with less.hyps[OF r less.prems(1)] r show ?thesis by simp
      qed
    qed simp
  qed
  show thesis
  proof (rule that[of "length ds + length us"])
    fix i e
    assume i: "i < length phases" "e \<in> set (phases ! i)" "Action e = ActionCreate"
    from in_section[OF i(1,2)[unfolded ph] acts] i(3)
    have k: "length ds + length us \<le> i" "i - length ds - length us < length cs"
      "e \<in> set (cs ! (i - length ds - length us))" by auto
    with within[OF k(2,3)] show "length ds + length us \<le> i \<and> i \<le> length ds + length us + rank (event_id vt h e)"
      by simp
  qed
qed

text \<open>A chain of resources to create, each of which depends on the one before, stands in phases in that order.\<close>

definition created_in :: "('q, 's, 'o, 'r) methods \<Rightarrow> 'o list \<Rightarrow> 'r event list list \<Rightarrow> nat \<Rightarrow> ident \<Rightarrow> bool" where
  "created_in vt h phases i x \<longleftrightarrow> i < length phases \<and>
     list_ex (\<lambda>e. Action e = ActionCreate \<and> event_id vt h e = x) (phases ! i)"

lemma created_in_counted:
  "created_in vt h phases i x \<Longrightarrow>
   0 < length (filter (\<lambda>e. Action e = ActionCreate \<and> event_id vt h e = x) (concat phases))"
  by (auto simp: created_in_def list_ex_iff filter_empty_conv)

lemma created_at_key:
  assumes "go_order ord" and "well_keyed vt h desired"
    and "plan ord vt h actual desired = Some phases" and "e \<in> set (concat phases)" and "Action e = ActionCreate"
  shows "map_of desired (event_id vt h e) = Some (Resource e)"
proof (rule plan_phase_sections[OF assms(1,3)])
  fix ds us cs
  assume "phases = ds @ us @ cs"
    and s: "topo_sort (\<lambda>n. ord (3 * n + 4)) vt h (plan_creates ord vt h actual desired) False = Some cs"
    and "\<And>e. e \<in> set (concat ds) \<Longrightarrow> Action e = ActionDelete"
      "\<And>e. e \<in> set (concat us) \<Longrightarrow> Action e = ActionUpdate"
  with assms(4,5) have "e \<in> set (concat cs)" by fastforce
  with topo_sort_ids(3)[OF go_order_shift[OF assms(1)] s] have "e \<in> set (plan_creates ord vt h actual desired)" by blast
  then obtain i where i: "i \<in> set (keys desired)" "e = mk_event ActionCreate (at_key desired i)"
    using go_order_set[OF assms(1), of 1 "keys desired"] by (auto simp: plan_creates_def)
  then show ?thesis using well_keyed_at[OF assms(2), of i] keys_lookup[of i desired] by auto
qed

lemma planned_created:
  assumes "go_order ord" and "well_keyed vt h desired"
    and "plan ord vt h actual desired = Some phases" and "planned vt h actual desired ActionCreate x"
  shows "\<exists>i. created_in vt h phases i x"
proof -
  have "filter (\<lambda>e. Action e = ActionCreate \<and> event_id vt h e = x) (concat phases) \<noteq> []"
    using plan_counts_desired[OF assms(1-3), of ActionCreate x] assms(4) by auto
  then obtain e where "e \<in> set (concat phases)" "Action e = ActionCreate \<and> event_id vt h e = x"
    by (auto simp: filter_empty_conv)
  then show ?thesis by (auto simp: created_in_def list_ex_iff in_set_conv_nth[of _ phases]) blast
qed

lemma two_in_filter:
  assumes "e \<in> set (phases ! j)" and "e' \<in> set (phases ! k)" and "j < k" and "k < length phases" and "P e" and "P e'"
  shows "2 \<le> length (filter P (concat phases))"
proof -
  have "concat phases = concat (take k phases) @ concat (drop k phases)"
    by (metis append_take_drop_id concat_append)
  moreover have "e \<in> set (concat (take k phases))" "e' \<in> set (concat (drop k phases))"
    using in_concat_nth[of j "take k phases" e] in_concat_nth[of 0 "drop k phases" e'] assms(1-4) by simp_all
  moreover have "1 \<le> length (filter P xs)" if "x \<in> set xs" "P x" for x xs
    using that by (induction xs) auto
  ultimately show ?thesis using assms(5,6) by (metis add_mono filter_append length_append one_add_one)
qed

lemma created_in_unique:
  assumes "go_order ord" and "well_keyed vt h desired" and "plan ord vt h actual desired = Some phases"
    and "created_in vt h phases i x" and "created_in vt h phases j x"
  shows "i = j"
proof (rule ccontr)
  let ?P = "\<lambda>e. Action e = ActionCreate \<and> event_id vt h e = x"
  have less: False if "created_in vt h phases i x" "created_in vt h phases j x" "i < j" for i j
  proof -
    from that obtain e e' where e: "e \<in> set (phases ! i)" "?P e" "e' \<in> set (phases ! j)" "?P e'" "j < length phases"
      by (auto simp: created_in_def list_ex_iff)
    from two_in_filter[where P = ?P, OF e(1,3) that(3) e(5) e(2,4)] plan_counts_desired[OF assms(1-3), of ActionCreate x]
    show False by (simp split: if_splits)
  qed
  assume "i \<noteq> j"
  with less[OF assms(4,5)] less[OF assms(5,4)] show False by linarith
qed

lemma chain_in_order:
  assumes plan: "go_order ord" "well_keyed vt h desired"
      "plan ord vt h actual desired = Some phases"
    and rank: "\<And>x r d. (x, r) \<in> set desired \<Longrightarrow> d \<in> set (m_Dependencies vt h r) \<Longrightarrow> has_key desired d \<Longrightarrow>
           rank d < (rank x :: nat)"
    and chain: "successively (\<lambda>x y. \<forall>r. map_of desired y = Some r \<longrightarrow> x \<in> set (m_Dependencies vt h r)) (xs @ [y])"
    and planned: "\<forall>x\<in>set xs. planned vt h actual desired ActionCreate x"
    and last: "created_in vt h phases i y"
  shows "\<exists>is. sorted_wrt (<) (is @ [i]) \<and> list_all2 (created_in vt h phases) is xs"
  using chain planned last
proof (induction xs arbitrary: y i rule: rev_induct)
  case (snoc x zs)
  from snoc.prems(3) obtain e where e: "i < length phases" "e \<in> set (phases ! i)" "Action e = ActionCreate"
    "event_id vt h e = y" by (auto simp: created_in_def list_ex_iff)
  from created_at_key[OF plan in_concat_nth[OF e(1,2)] e(3)] e(4)
  have "map_of desired y = Some (Resource e)" by simp
  with snoc.prems(1) have dep: "x \<in> set (event_deps vt h e)" by (auto simp: successively_append_iff)
  have x: "planned vt h actual desired ActionCreate x" using snoc.prems(2) by simp
  have "\<exists>j<i. \<exists>e'\<in>set (phases ! j). Action e' = ActionCreate \<and> event_id vt h e' = x"
    by (rule creates_in_order[where rank = rank, OF plan _ e(1-3) dep x]) (rule rank)
  then obtain j e' where j: "j < i" "e' \<in> set (phases ! j)" "Action e' = ActionCreate" "event_id vt h e' = x" by blast
  then have "created_in vt h phases j x" using e(1) by (auto simp: created_in_def list_ex_iff)
  have front: "successively (\<lambda>x y. \<forall>r. map_of desired y = Some r \<longrightarrow> x \<in> set (m_Dependencies vt h r)) (zs @ [x])"
    using snoc.prems(1) unfolding successively_append_iff[of _ "zs @ [x]"] by blast
  have "\<forall>x\<in>set zs. planned vt h actual desired ActionCreate x" using snoc.prems(2) by simp
  from snoc.IH[OF front this \<open>created_in vt h phases j x\<close>]
  obtain ks where "sorted_wrt (<) (ks @ [j])" "list_all2 (created_in vt h phases) ks zs" by blast
  then show ?case
    using j(1) \<open>created_in vt h phases j x\<close>
    by (intro exI[of _ "ks @ [j]"]) (auto simp: sorted_wrt_append list_all2_appendI)
qed simp

text \<open>Without a rank: what is depended on stands earlier, or with its dependent in the last phase.\<close>

lemma creates_precede:
  assumes plan: "go_order ord" "well_keyed vt h desired"
      "plan ord vt h actual desired = Some phases"
    and "i < length phases" and "e \<in> set (phases ! i)" and "Action e = ActionCreate"
    and "d \<in> set (event_deps vt h e)" and "planned vt h actual desired ActionCreate d"
  shows "(\<exists>j<i. created_in vt h phases j d) \<or> Suc i = length phases"
proof (rule plan_phase_sections[OF plan(1,3)])
  fix ds us cs
  assume ph: "phases = ds @ us @ cs"
    and cs: "topo_sort (\<lambda>n. ord (3 * n + 4)) vt h (plan_creates ord vt h actual desired) False = Some cs"
    and acts: "\<And>e. e \<in> set (concat ds) \<Longrightarrow> Action e = ActionDelete"
      "\<And>e. e \<in> set (concat us) \<Longrightarrow> Action e = ActionUpdate"
      "\<And>e. e \<in> set (concat cs) \<Longrightarrow> Action e = ActionCreate"
  note shift = go_order_shift[OF plan(1)]
  define k where "k = i - length ds - length us"
  from in_section[OF assms(4,5)[unfolded ph] acts] assms(6)
  have k: "k < length cs" "e \<in> set (cs ! k)" "i = length ds + length us + k"
    by (auto simp: k_def)
  from in_concat_nth[OF k(1,2)] topo_sort_ids(3)[OF shift cs]
  have e: "e \<in> set (plan_creates ord vt h actual desired)" by blast
  have "d \<in> event_ids vt h (plan_creates ord vt h actual desired)"
    unfolding plan_lists_desired(4)[OF plan(1,2)] using assms(8) by simp
  with e assms(7) have prec: "precedes False vt h (plan_creates ord vt h actual desired) d (event_id vt h e)"
    unfolding precedes_def by auto
  from topo_sort_precedes[OF shift cs k(1,2) prec] show ?thesis
  proof
    assume "\<exists>j<k. d \<in> event_ids vt h (cs ! j)"
    then obtain j e' where j: "j < k" "e' \<in> set (cs ! j)" "event_id vt h e' = d" by auto
    have "e' \<in> set (phases ! (length ds + length us + j))" using j k section_nth[of j cs ds us] unfolding ph by simp
    moreover have "Action e' = ActionCreate" using acts(3)[OF in_concat_nth[of j cs e']] j k(1) by simp
    ultimately have "created_in vt h phases (length ds + length us + j) d"
      using j k(1) unfolding created_in_def list_ex_iff ph by auto
    with j(1) k(3) show ?thesis by (intro disjI1 exI[of _ "length ds + length us + j"]) simp
  next
    assume "Suc k = length cs \<and> d \<in> event_ids vt h (cs ! k)"
    then show ?thesis using k(3) ph by simp
  qed
qed

text \<open>So creates that depend on one another in a circle all stand in the last phase.\<close>

lemma circular_creates_last:
  assumes plan: "go_order ord" "well_keyed vt h desired"
      "plan ord vt h actual desired = Some phases"
    and circle: "\<And>y. y \<in> C \<Longrightarrow> planned vt h actual desired ActionCreate y \<and>
          (\<exists>x\<in>C. \<forall>r. map_of desired y = Some r \<longrightarrow> x \<in> set (m_Dependencies vt h r))"
    and "y \<in> C" and "created_in vt h phases i y"
  shows "Suc i = length phases"
  using assms(5,6)
proof (induction i arbitrary: y rule: less_induct)
  case (less i)
  from less.prems(2) obtain e where e: "i < length phases" "e \<in> set (phases ! i)" "Action e = ActionCreate"
    "event_id vt h e = y" by (auto simp: created_in_def list_ex_iff)
  from created_at_key[OF plan in_concat_nth[OF e(1,2)] e(3)] e(4)
  have "map_of desired y = Some (Resource e)" by simp
  with circle[OF less.prems(1)] obtain x where x: "x \<in> C" "x \<in> set (event_deps vt h e)" by blast
  with circle have "planned vt h actual desired ActionCreate x" by blast
  from creates_precede[OF plan e(1-3) x(2) this] show ?case
  proof
    assume "\<exists>j<i. created_in vt h phases j x"
    then obtain j where "j < i" "created_in vt h phases j x" by blast
    with less.IH x(1) e(1) show ?thesis by fastforce
  qed
qed

subsection \<open>Properties\<close>

text \<open>A resource of the kind the unit tests use: fixed identifier, dependencies and status.\<close>

type_synonym mock = "ident \<times> ident list \<times> status"

definition mock_methods :: "(unit, unit, unit, mock) methods" where
  "mock_methods = \<lparr>m_Identifier = (\<lambda>h r. fst r), m_Dependencies = (\<lambda>h r. fst (snd r)),
     m_Refresh = (\<lambda>r. Return None), m_Status = (\<lambda>h r. snd (snd r)), m_Create = (\<lambda>r. Return None),
     m_Update = (\<lambda>r. Return None), m_Delete = (\<lambda>r. Return None)\<rparr>"

abbreviation healthy :: status where
  "healthy \<equiv> zero_status\<lparr>Exists := True\<rparr>"

definition sample_map :: "status \<Rightarrow> mock resource_map" where
  "sample_map s =
     [(mk_id ''node'' ''n1'', (mk_id ''node'' ''n1'', [mk_id ''user'' ''n1''], s)),
      (mk_id ''user'' ''n1'', (mk_id ''user'' ''n1'', [], s))]"

definition sample_phase :: "action \<Rightarrow> string \<Rightarrow> status \<Rightarrow> mock event list" where
  "sample_phase a t s =
     [mk_event a (mk_id t ''n1'', if t = ''node'' then [mk_id ''user'' ''n1''] else [], s)]"

lemma sample_plans:
  "plan (\<lambda>n ks. ks) mock_methods [] [] (sample_map zero_status)
     = Some [sample_phase ActionCreate ''user'' zero_status, sample_phase ActionCreate ''node'' zero_status]"
  "plan (\<lambda>n ks. ks) mock_methods [] (sample_map healthy) []
     = Some [sample_phase ActionDelete ''node'' healthy, sample_phase ActionDelete ''user'' healthy]"
  by code_simp+

lemma sample_keyed: "well_keyed mock_methods [] (sample_map s)" "well_keyed mock_methods [] []"
  by (simp_all add: well_keyed_def sample_map_def mock_methods_def)

text \<open>
  Claim C1: \<open>Plan\<close> always returns, whatever the maps and however Go ranges over them, and takes
  for every identifier exactly the actions that the comparison of the two maps calls for (\<open>due\<close>), each
  once: a delete if some key of \<open>actual\<close> that is not desired, or some desired key that needs recreation,
  has a resource of this identifier; an update if a desired resource of this identifier exists and needs
  one; a create if one is missing or needs recreation. Nothing is assumed of the keys: where two keys
  have one identifier, there is still one event. The resources of updates and creates are desired ones,
  those of deletes stand in one of the maps.
\<close>

theorem plan_exact:
  assumes "go_order ord"
  shows "\<exists>phases. plan ord vt h actual desired = Some phases \<and>
    (\<forall>a x. length (filter (\<lambda>e. Action e = a \<and> event_id vt h e = x) (concat phases))
         = (if due vt h actual desired a x then 1 else 0)) \<and>
    (\<forall>e\<in>set (concat phases). Resource e \<in> snd ` set desired \<or>
         Action e = ActionDelete \<and> Resource e \<in> snd ` set actual)"
proof (rule plan_sections[OF assms(1), of vt h actual desired])
  fix ds us cs
  assume "plan ord vt h actual desired = Some (ds @ us @ cs)"
  with plan_counts_due[OF assms this] plan_event_resource[OF assms this] show ?thesis by blast
qed

text \<open>The orphan \<open>n3\<close> under the keys of two survivors, and a user to be created.\<close>

definition keyed_twice :: "mock resource_map" where
  "keyed_twice =
     [(mk_id ''node'' ''n3@n1'', (mk_id ''node'' ''n3'', [], healthy)),
      (mk_id ''node'' ''n3@n2'', (mk_id ''node'' ''n3'', [], healthy))]"

theorem plan_exact_witness:
  "\<exists>phases. plan (\<lambda>n ks. ks) mock_methods [] keyed_twice (sample_map zero_status) = Some phases \<and>
     length (filter (\<lambda>e. Action e = ActionDelete \<and> event_id mock_methods [] e = mk_id ''node'' ''n3'') (concat phases)) = 1 \<and>
     length (filter (\<lambda>e. Action e = ActionCreate \<and> event_id mock_methods [] e = mk_id ''user'' ''n1'') (concat phases)) = 1"
proof -
  have due: "due mock_methods [] keyed_twice (sample_map zero_status) ActionDelete (mk_id ''node'' ''n3'') = True"
    "due mock_methods [] keyed_twice (sample_map zero_status) ActionCreate (mk_id ''user'' ''n1'') = True"
    by code_simp+
  obtain phases where p: "plan (\<lambda>n ks. ks) mock_methods [] keyed_twice (sample_map zero_status) = Some phases"
    and counts: "\<forall>a x. length (filter (\<lambda>e. Action e = a \<and> event_id mock_methods [] e = x) (concat phases))
         = (if due mock_methods [] keyed_twice (sample_map zero_status) a x then 1 else 0)"
    using plan_exact[OF go_order_id, of mock_methods "[]" keyed_twice "sample_map zero_status"] by blast
  show ?thesis
    using counts[rule_format, of ActionDelete, unfolded due(1)] counts[rule_format, of ActionCreate, unfolded due(2)]
    by (intro exI[of _ phases] conjI p) (simp_all only: counts[rule_format] due if_True)
qed

text \<open>
  Claim C13: creates respect dependencies. If the dependencies among the desired resources have no
  cycle (some rank grows along them), a create stands in a later phase than the create of
  everything it depends on that is created too.
\<close>

theorem plan_create_order:
  assumes "go_order ord" and "well_keyed vt h desired"
    and "plan ord vt h actual desired = Some phases"
    and "\<And>x r d. (x, r) \<in> set desired \<Longrightarrow> d \<in> set (m_Dependencies vt h r) \<Longrightarrow> has_key desired d \<Longrightarrow>
           rank d < (rank x :: nat)"
    and "i < length phases" and "e \<in> set (phases ! i)" and "Action e = ActionCreate"
    and "d \<in> set (event_deps vt h e)" and "planned vt h actual desired ActionCreate d"
  shows "\<exists>j<i. \<exists>e'\<in>set (phases ! j). Action e' = ActionCreate \<and> event_id vt h e' = d"
  by (rule creates_in_order[OF assms])

theorem plan_create_order_witness:
  "\<exists>j<1. \<exists>e'\<in>set ([sample_phase ActionCreate ''user'' zero_status, sample_phase ActionCreate ''node'' zero_status] ! j).
     Action e' = ActionCreate \<and> event_id mock_methods [] e' = mk_id ''user'' ''n1''"
proof (rule plan_create_order[where rank = "\<lambda>x. if Type x = ''user'' then 0 else 1" and i = 1
      and e = "hd (sample_phase ActionCreate ''node'' zero_status)",
      OF go_order_id sample_keyed(1) sample_plans(1)])
  show "planned mock_methods [] [] (sample_map zero_status) ActionCreate (mk_id ''user'' ''n1'')" by code_simp
qed (auto simp: sample_map_def mock_methods_def sample_phase_def split: if_splits)

text \<open>
  Claim C22: deletes go the other way. Assume that the dependencies among the resources to delete have
  no cycle: some rank of the identifiers grows from every deleted identifier to the identifiers of the
  resources, in either map, that depend on it. Then whatever is deleted stands in a later phase than the
  delete of every identifier whose deleted resource depends on it. Nothing is assumed of the keys of the maps.
\<close>

theorem plan_delete_order:
  assumes "go_order ord" and "plan ord vt h actual desired = Some phases"
    and "\<And>r d. r \<in> snd ` set actual \<union> snd ` set desired \<Longrightarrow> d \<in> set (m_Dependencies vt h r) \<Longrightarrow>
           due vt h actual desired ActionDelete d \<Longrightarrow> rank d < (rank (m_Identifier vt h r) :: nat)"
    and "i < length phases" and "e \<in> set (phases ! i)" and "Action e = ActionDelete"
    and "e' \<in> set (concat phases)" and "Action e' = ActionDelete"
    and "event_id vt h e \<in> set (event_deps vt h e')"
  shows "\<exists>j<i. \<exists>e''\<in>set (phases ! j). Action e'' = ActionDelete \<and> event_id vt h e'' = event_id vt h e'"
proof (rule plan_phase_sections[OF assms(1,2)])
  fix ds us cs
  assume ph: "phases = ds @ us @ cs"
    and ds: "topo_sort (\<lambda>n. ord (3 * n + 2)) vt h (plan_deletes ord vt h actual desired) True = Some ds"
    and acts: "\<And>e. e \<in> set (concat ds) \<Longrightarrow> Action e = ActionDelete"
      "\<And>e. e \<in> set (concat us) \<Longrightarrow> Action e = ActionUpdate"
      "\<And>e. e \<in> set (concat cs) \<Longrightarrow> Action e = ActionCreate"
  note shift = go_order_shift[OF assms(1)]
  from in_section[OF assms(4,5)[unfolded ph] acts] assms(6)
  have i: "i < length ds" "e \<in> set (ds ! i)" by auto
  have e': "e' \<in> set (concat ds)"
    using assms(7,8) acts(2)[of e'] acts(3)[of e'] unfolding ph by auto
  from in_concat_nth[OF i] topo_sort_ids(3)[OF shift ds] e'
  have mem: "e \<in> set (plan_deletes ord vt h actual desired)" "e' \<in> set (plan_deletes ord vt h actual desired)"
    by blast+
  then have prec: "precedes True vt h (plan_deletes ord vt h actual desired) (event_id vt h e') (event_id vt h e)"
    unfolding precedes_def using assms(9) by auto
  let ?top = "Max (rank ` event_ids vt h (plan_deletes ord vt h actual desired))"
  have rank: "?top - rank p < ?top - rank x"
    if "precedes True vt h (plan_deletes ord vt h actual desired) p x" for p x
  proof -
    have "rank x < rank p" using precedes_plan_deletes[OF assms(1) that] assms(3) by blast
    moreover have "rank p \<le> ?top" using precedes_ids[OF that] by (intro Max_ge) auto
    ultimately show ?thesis by simp
  qed
  from topo_sort_precedes_acyclic[OF shift ds, of "\<lambda>x. ?top - rank x", OF rank i prec]
  obtain j e'' where j: "j < i" "e'' \<in> set (ds ! j)" "event_id vt h e'' = event_id vt h e'" by auto
  then have "e'' \<in> set (phases ! j)" "Action e'' = ActionDelete"
    using i(1) acts(1)[OF in_concat_nth[of j ds e'']] unfolding ph by (auto simp: nth_append)
  with j show ?thesis by blast
qed

theorem plan_delete_order_witness:
  "\<exists>j<1. \<exists>e''\<in>set ([sample_phase ActionDelete ''node'' healthy, sample_phase ActionDelete ''user'' healthy] ! j).
     Action e'' = ActionDelete \<and>
     event_id mock_methods [] e'' = event_id mock_methods [] (hd (sample_phase ActionDelete ''node'' healthy))"
proof (rule plan_delete_order[where rank = "\<lambda>x. if Type x = ''user'' then 0 else 1" and i = 1
      and e = "hd (sample_phase ActionDelete ''user'' healthy)",
      OF go_order_id sample_plans(2)])
qed (auto simp: sample_map_def mock_methods_def sample_phase_def split: if_splits)

fun action_rank :: "action \<Rightarrow> nat" where
  "action_rank ActionDelete = 0"
| "action_rank ActionUpdate = 1"
| "action_rank ActionCreate = 2"
| "action_rank (ActionOther n) = 3"

text \<open>
  The plan deletes first, then updates, then creates: no phase holds events of two actions, and an
  event of an earlier kind stands in an earlier phase.
\<close>

lemma actions_in_order:
  assumes "go_order ord" and "plan ord vt h actual desired = Some phases"
    and "i < length phases" and "j < length phases" and "e \<in> set (phases ! i)" and "e' \<in> set (phases ! j)"
  shows "(action_rank (Action e) < action_rank (Action e') \<longrightarrow> i < j)
       \<and> (i = j \<longrightarrow> Action e = Action e')"
proof (rule plan_phase_sections[OF assms(1,2)])
  fix ds us cs
  assume ph: "phases = ds @ us @ cs"
    and acts: "\<And>e. e \<in> set (concat ds) \<Longrightarrow> Action e = ActionDelete"
      "\<And>e. e \<in> set (concat us) \<Longrightarrow> Action e = ActionUpdate"
      "\<And>e. e \<in> set (concat cs) \<Longrightarrow> Action e = ActionCreate"
  from in_section[OF assms(3,5)[unfolded ph] acts] in_section[OF assms(4,6)[unfolded ph] acts] show ?thesis
    by auto
qed

text \<open>
  The plan is empty exactly when nothing is planned, that is when desired and actual
  agree on every identifier and no resource asks for an update or a recreation; a second run on an
  unchanged and healthy system does nothing.
\<close>

lemma plan_empty_iff:
  assumes "go_order ord" and "well_keyed vt h actual" and "well_keyed vt h desired"
  shows "plan ord vt h actual desired = Some [] \<longleftrightarrow>
    set (keys actual) = set (keys desired) \<and>
    (\<forall>(x, r)\<in>set desired. \<not> (Exists (m_Status vt h r) \<and>
        (NeedsRecreate (m_Status vt h r) \<or> NeedsUpdate (m_Status vt h r))))"
proof -
  obtain phases where p: "plan ord vt h actual desired = Some phases"
    by (rule plan_sections[OF assms(1)]) (rule that; assumption)
  note counts = plan_counts[OF assms p]
  have "phases = [] \<longleftrightarrow> concat phases = []"
    using plan_nonempty_phases[OF assms(1) p] by (cases phases) auto
  also have "\<dots> \<longleftrightarrow> (\<forall>a i. \<not> planned vt h actual desired a i)"
  proof
    assume "\<forall>a i. \<not> planned vt h actual desired a i"
    then have "filter (\<lambda>e. Action e = a \<and> event_id vt h e = i) (concat phases) = []" for a i
      using counts[of a i] by simp
    then show "concat phases = []" unfolding filter_empty_conv by (metis list.set_intros(1) neq_Nil_conv)
  qed (use counts in \<open>metis filter.simps(1) list.size(3) zero_neq_one\<close>)
  also have "\<dots> \<longleftrightarrow> set (keys actual) = set (keys desired) \<and>
    (\<forall>i\<in>set (keys desired). \<not> needs_recreate vt h actual desired i \<and> \<not> needs_update vt h actual desired i)"
    (is "?none \<longleftrightarrow> ?same")
  proof
    assume none: ?none
    have "set (keys actual) = set (keys desired)"
      using none[rule_format, of ActionDelete] none[rule_format, of ActionCreate]
      by (auto simp only: planned.simps has_key_iff set_eq_iff)
    then show ?same
      using none[rule_format, of ActionDelete] none[rule_format, of ActionUpdate]
      by (auto simp only: planned.simps has_key_iff)
  next
    assume same: ?same
    show ?none
    proof (intro allI)
      fix a i
      show "\<not> planned vt h actual desired a i"
        using same by (cases a) (auto simp only: planned.simps has_key_iff)
    qed
  qed
  also have "\<dots> \<longleftrightarrow> set (keys actual) = set (keys desired) \<and>
    (\<forall>(x, r)\<in>set desired. \<not> (Exists (m_Status vt h r) \<and>
        (NeedsRecreate (m_Status vt h r) \<or> NeedsUpdate (m_Status vt h r))))"
  proof (rule conj_cong[OF refl])
    assume same: "set (keys actual) = set (keys desired)"
    let ?bad = "\<lambda>r. Exists (m_Status vt h r) \<and> (NeedsRecreate (m_Status vt h r) \<or> NeedsUpdate (m_Status vt h r))"
    have "(needs_recreate vt h actual desired i \<or> needs_update vt h actual desired i) \<longleftrightarrow> ?bad (at_key desired i)"
      if "i \<in> set (keys desired)" for i
      using that same by (auto simp only: needs_recreate_def needs_update_def has_key_iff)
    then have "(\<forall>i\<in>set (keys desired). \<not> needs_recreate vt h actual desired i \<and> \<not> needs_update vt h actual desired i)
        \<longleftrightarrow> (\<forall>i\<in>set (keys desired). \<not> ?bad (at_key desired i))" by blast
    also have "\<dots> \<longleftrightarrow> (\<forall>p\<in>set desired. \<not> ?bad (at_key desired (fst p)))" by simp
    also have "\<dots> \<longleftrightarrow> (\<forall>(x, r)\<in>set desired. \<not> ?bad r)"
      using assms(3) by (intro ball_cong) (auto simp: well_keyed_def)
    finally show "(\<forall>i\<in>set (keys desired). \<not> needs_recreate vt h actual desired i \<and> \<not> needs_update vt h actual desired i)
        \<longleftrightarrow> (\<forall>(x, r)\<in>set desired. \<not> ?bad r)" .
  qed
  finally show ?thesis using p by simp
qed

lemma plan_empty_iff_witness:
  "plan (\<lambda>n ks. ks) mock_methods [] (sample_map healthy) (sample_map healthy) = Some []"
proof -
  have "set (keys (sample_map healthy)) = set (keys (sample_map healthy)) \<and>
    (\<forall>(x, r)\<in>set (sample_map healthy). \<not> (Exists (m_Status mock_methods [] r) \<and>
        (NeedsRecreate (m_Status mock_methods [] r) \<or> NeedsUpdate (m_Status mock_methods [] r))))"
    by (simp add: sample_map_def mock_methods_def)
  then show ?thesis
    using plan_empty_iff[OF go_order_id sample_keyed(1) sample_keyed(1)] by blast
qed

text \<open>
  Claim C26: \<open>topoSort\<close>, with or without cycles, returns; it emits one event for every identifier
  among the events; what must come before an event stands in an earlier phase, or else both stand
  in the last phase, the one emitted for a cycle; and no event but those of the first phase could
  stand earlier: something in the phase before it, or in a cyclic last phase with it, must precede it.
\<close>

theorem topo_sort_correct:
  assumes "go_order ord"
  shows "\<exists>phases. topo_sort ord vt h events reverse = Some phases
    \<and> distinct (map (event_id vt h) (concat phases))
    \<and> event_ids vt h (concat phases) = event_ids vt h events
    \<and> (\<forall>i<length phases. \<forall>e\<in>set (phases ! i). \<forall>p. precedes reverse vt h events p (event_id vt h e) \<longrightarrow>
         (\<exists>j<i. p \<in> event_ids vt h (phases ! j)) \<or> (Suc i = length phases \<and> p \<in> event_ids vt h (phases ! i)))
    \<and> (\<forall>i. Suc i < length phases \<longrightarrow> (\<forall>e\<in>set (phases ! Suc i). \<exists>e'\<in>set (phases ! i) \<union> set (phases ! Suc i).
         precedes reverse vt h events (event_id vt h e') (event_id vt h e)))"
proof -
  obtain phases where p: "topo_sort ord vt h events reverse = Some phases"
    using topo_sort_returns[OF assms] by blast
  show ?thesis
    using p topo_sort_ids[OF assms p] topo_sort_precedes[OF assms p] topo_sort_earliest_phase[OF assms p]
    by (intro exI[of _ phases]) blast
qed

text \<open>Two resources that depend on each other, and one that depends on neither.\<close>

definition sample_cycle :: "mock event list" where
  "sample_cycle = [mk_event ActionCreate (mk_id ''a'' ''x'', [mk_id ''b'' ''x''], zero_status),
     mk_event ActionCreate (mk_id ''b'' ''x'', [mk_id ''a'' ''x''], zero_status),
     mk_event ActionCreate (mk_id ''c'' ''x'', [], zero_status)]"

theorem topo_sort_correct_witness:
  "\<exists>phases. topo_sort (\<lambda>n ks. ks) mock_methods [] sample_cycle False = Some phases \<and>
     distinct (map (event_id mock_methods []) (concat phases)) \<and>
     event_ids mock_methods [] (concat phases) = event_ids mock_methods [] sample_cycle"
  using topo_sort_correct[OF go_order_id, of mock_methods "[]" sample_cycle False] by blast

end
