(* ===== verification/Executor.thy ===== *)
theory Executor
  imports Resource_Model
begin

text \<open>
  \<open>Execute\<close> of \<open>internal/resource/executor.go\<close>: the phases run one after the other, the events
  of a phase at the same time, each in a goroutine of an \<open>errgroup\<close>. The goroutines of a phase
  are a list of programs; a step runs one call, one read or one write of one of them, so every
  interleaving is a sequence of steps (\<open>exec_step\<close>). Every statement about \<open>Execute\<close> is one about
  \<open>exec_step\<close>.
\<close>

subsection \<open>One event\<close>

text \<open>
  The body of \<open>g.Go\<close>. \<open>event_text\<close> is the \<open>"%s/%s"\<close> of the messages.
\<close>

definition event_text :: "ident \<Rightarrow> string" where
  "event_text x = Type x @ ''/'' @ ID x"

definition wrap_result :: "string \<Rightarrow> goerror option \<Rightarrow> goerror option" where
  "wrap_result msg res = map_option (Wrapf msg) res"

definition event_body :: "('q, 's, 'o, 'r) methods \<Rightarrow> 'o list \<Rightarrow> 'r event \<Rightarrow> ('q, 's, 'o) operation" where
  "event_body vt h e = (let x = event_id vt h e in case Action e of
       ActionCreate \<Rightarrow> bind (m_Create vt (Resource e)) (\<lambda>res. Return (wrap_result (''create '' @ event_text x) res))
     | ActionUpdate \<Rightarrow> bind (m_Update vt (Resource e)) (\<lambda>res. Return (wrap_result (''update '' @ event_text x) res))
     | ActionDelete \<Rightarrow> bind (m_Delete vt (Resource e)) (\<lambda>res. Return (wrap_result (''delete '' @ event_text x) res))
     | ActionOther n \<Rightarrow> Return (Some (Errorf (''unsupported action '' @ show_int n @ '' for '' @ event_text x))))"

subsection \<open>The goroutines of a phase\<close>

text \<open>
  \<open>g_threads\<close> has one program per event, None once it has returned; \<open>g_err\<close> is the error the
  group keeps, the first one returned. When it is set the context of the group is cancelled, which
  is what the environment is told with each call.
\<close>

record ('q, 's, 'o, 'w) group =
  g_threads :: "('q, 's, 'o) operation option list"
  g_err :: "goerror option"
  g_heap :: "'o list"
  g_world :: 'w

definition spawn :: "('q, 's, 'o, 'r) methods \<Rightarrow> 'r event list \<Rightarrow> 'o list \<Rightarrow> 'w \<Rightarrow> ('q, 's, 'o, 'w) group" where
  "spawn vt phase h w =
     \<lparr>g_threads = map (\<lambda>e. Some (event_body vt h e)) phase, g_err = None, g_heap = h, g_world = w\<rparr>"

definition first_error :: "goerror option \<Rightarrow> goerror option \<Rightarrow> goerror option" where
  "first_error old new = (case old of Some e \<Rightarrow> Some e | None \<Rightarrow> new)"

text \<open>One step of goroutine \<open>i\<close>; None where it cannot move.\<close>

definition thread_step :: "('w, 'q, 's) env \<Rightarrow> nat \<Rightarrow> ('q, 's, 'o, 'w) group \<Rightarrow> ('q, 's, 'o, 'w) group option" where
  "thread_step env i g =
     (if i < length (g_threads g) then
        (case g_threads g ! i of
           None \<Rightarrow> None
         | Some (Return res) \<Rightarrow>
             Some (g\<lparr>g_threads := (g_threads g)[i := None], g_err := first_error (g_err g) res\<rparr>)
         | Some Panic \<Rightarrow> None
         | Some Spin \<Rightarrow> None
         | Some (Call q k) \<Rightarrow>
             (case env (g_err g \<noteq> None) q (g_world g) of (s, w) \<Rightarrow>
                Some (g\<lparr>g_threads := (g_threads g)[i := Some (k s)], g_world := w\<rparr>))
         | Some (Load r k) \<Rightarrow>
             Some (g\<lparr>g_threads := (g_threads g)[i :=
               Some (if r < length (g_heap g) then k (g_heap g ! r) else Panic)]\<rparr>)
         | Some (Store r f p) \<Rightarrow>
             (if r < length (g_heap g)
              then Some (g\<lparr>g_threads := (g_threads g)[i := Some p], g_heap := (g_heap g)[r := f (g_heap g ! r)]\<rparr>)
              else Some (g\<lparr>g_threads := (g_threads g)[i := Some Panic]\<rparr>)))
      else None)"

definition all_returned :: "('q, 's, 'o, 'w) group \<Rightarrow> bool" where
  "all_returned g \<longleftrightarrow> (\<forall>t\<in>set (g_threads g). t = None)"

subsection \<open>The phases\<close>

text \<open>
  The state of \<open>Execute\<close>: the index of the phase that runs, its events, the phases to come, the
  goroutines, and a record of the goroutines that have returned (phase, event, what it returned),
  which the code keeps only as log lines. A panic in a goroutine ends the process.
\<close>

type_synonym 'r exec_log = "(nat \<times> 'r event \<times> goerror option) list"

datatype ('q, 's, 'o, 'w, 'r) exec_state =
    Executing nat "'r event list" "'r event list list" "('q, 's, 'o, 'w) group" "'r exec_log"
  | Finished "goerror option" "'o list" 'w "'r exec_log"
  | Crashed

definition exec_start :: "('q, 's, 'o, 'r) methods \<Rightarrow> 'r event list list \<Rightarrow> 'o list \<Rightarrow> 'w
    \<Rightarrow> ('q, 's, 'o, 'w, 'r) exec_state" where
  "exec_start vt phases h w = (case phases of
       [] \<Rightarrow> Finished None h w []
     | phase # rest \<Rightarrow> Executing 0 phase rest (spawn vt phase h w) [])"

definition log_return :: "nat \<Rightarrow> 'r event list \<Rightarrow> nat \<Rightarrow> ('q, 's, 'o, 'w) group \<Rightarrow> 'r exec_log \<Rightarrow> 'r exec_log" where
  "log_return n phase i g log = (case g_threads g ! i of
       Some (Return res) \<Rightarrow> log @ [(n, phase ! i, res)]
     | _ \<Rightarrow> log)"

definition phase_error :: "nat \<Rightarrow> goerror \<Rightarrow> goerror" where
  "phase_error n e = Wrapf (''phase '' @ show_nat n) e"

inductive exec_step :: "('q, 's, 'o, 'r) methods \<Rightarrow> ('w, 'q, 's) env
    \<Rightarrow> ('q, 's, 'o, 'w, 'r) exec_state \<Rightarrow> ('q, 's, 'o, 'w, 'r) exec_state \<Rightarrow> bool" for vt env where
  goroutine: "thread_step env i g = Some g' \<Longrightarrow>
    exec_step vt env (Executing n phase rest g log) (Executing n phase rest g' (log_return n phase i g log))"
| panic: "Some Panic \<in> set (g_threads g) \<Longrightarrow> exec_step vt env (Executing n phase rest g log) Crashed"
| next_phase: "all_returned g \<Longrightarrow> g_err g = None \<Longrightarrow>
    exec_step vt env (Executing n phase (phase' # rest) g log)
      (Executing (Suc n) phase' rest (spawn vt phase' (g_heap g) (g_world g)) log)"
| all_done: "all_returned g \<Longrightarrow> g_err g = None \<Longrightarrow>
    exec_step vt env (Executing n phase [] g log) (Finished None (g_heap g) (g_world g) log)"
| failed: "all_returned g \<Longrightarrow> g_err g = Some e \<Longrightarrow>
    exec_step vt env (Executing n phase rest g log)
      (Finished (Some (phase_error n e)) (g_heap g) (g_world g) log)"

inductive_cases exec_step_ExecutingE: "exec_step vt env (Executing n phase rest g log) s'"
inductive_cases exec_step_FinishedE [elim!]: "exec_step vt env (Finished err h w log) s'"
inductive_cases exec_step_CrashedE [elim!]: "exec_step vt env Crashed s'"

inductive exec_reaches :: "('q, 's, 'o, 'r) methods \<Rightarrow> ('w, 'q, 's) env
    \<Rightarrow> ('q, 's, 'o, 'w, 'r) exec_state \<Rightarrow> ('q, 's, 'o, 'w, 'r) exec_state \<Rightarrow> bool" for vt env where
  here: "exec_reaches vt env s s"
| more: "exec_reaches vt env s t \<Longrightarrow> exec_step vt env t u \<Longrightarrow> exec_reaches vt env s u"

subsection \<open>The invariant of an execution\<close>

text \<open>The events that have returned in phase \<open>m\<close>, in the order they returned.\<close>

definition returned_in :: "'r exec_log \<Rightarrow> nat \<Rightarrow> 'r event list" where
  "returned_in log m = map (\<lambda>x. fst (snd x)) (filter (\<lambda>x. fst x = m) log)"

lemma returned_in_Nil [simp]: "returned_in [] m = []"
  by (simp add: returned_in_def)

lemma returned_in_snoc [simp]:
  "returned_in (log @ [(n, e, res)]) m = returned_in log m @ (if n = m then [e] else [])"
  by (simp add: returned_in_def)

lemma in_returned_in: "e \<in> set (returned_in log m) \<longleftrightarrow> (\<exists>res. (m, e, res) \<in> set log)"
  by (force simp: returned_in_def)

text \<open>The events of the current phase whose goroutine has ended.\<close>

definition ended :: "'r event list \<Rightarrow> ('q, 's, 'o) operation option list \<Rightarrow> 'r event list" where
  "ended phase ts = map fst (filter (\<lambda>x. snd x = None) (zip phase ts))"

lemma ended_all: "length ts = length phase \<Longrightarrow> \<forall>t\<in>set ts. t = None \<Longrightarrow> ended phase ts = phase"
  by (induction phase ts rule: list_induct2') (auto simp: ended_def)

lemma ended_none: "\<forall>t\<in>set ts. t \<noteq> None \<Longrightarrow> ended phase ts = []"
  by (auto simp: ended_def filter_empty_conv dest: set_zip_rightD)

lemma ended_same: "length ts = length phase \<Longrightarrow> i < length ts \<Longrightarrow> ts ! i \<noteq> None \<Longrightarrow> t \<noteq> None \<Longrightarrow>
    ended phase (ts[i := t]) = ended phase ts"
proof (induction phase arbitrary: ts i)
  case (Cons e phase)
  then show ?case by (cases ts; cases i) (auto simp: ended_def)
qed (simp add: ended_def)

lemma ended_one: "length ts = length phase \<Longrightarrow> i < length ts \<Longrightarrow> ts ! i \<noteq> None \<Longrightarrow>
    mset (ended phase (ts[i := None])) = mset (ended phase ts) + {#phase ! i#}"
proof (induction phase arbitrary: ts i)
  case (Cons e phase)
  then show ?case by (cases ts; cases i) (auto simp: ended_def)
qed simp

definition quiet :: "'r exec_log \<Rightarrow> nat \<Rightarrow> bool" where
  "quiet log n \<longleftrightarrow> (\<forall>m e res. (m, e, res) \<in> set log \<longrightarrow> m < n \<longrightarrow> res = None)"

definition complete_to :: "'r event list list \<Rightarrow> 'r exec_log \<Rightarrow> nat \<Rightarrow> bool" where
  "complete_to phases log n \<longleftrightarrow> (\<forall>m<n. mset (returned_in log m) = mset (phases ! m))
     \<and> (\<forall>m e res. (m, e, res) \<in> set log \<longrightarrow> m \<le> n)"

text \<open>
  While phase \<open>n\<close> runs, every earlier phase is complete and without error, and the group's error
  tells whether a goroutine of phase \<open>n\<close> has returned one.
\<close>

fun exec_inv :: "'r event list list \<Rightarrow> ('q, 's, 'o, 'w, 'r) exec_state \<Rightarrow> bool" where
  "exec_inv phases (Executing n phase rest g log) \<longleftrightarrow>
     n < length phases \<and> phase = phases ! n \<and> rest = drop (Suc n) phases \<and>
     length (g_threads g) = length phase \<and> quiet log n \<and> complete_to phases log n \<and>
     mset (returned_in log n) = mset (ended phase (g_threads g)) \<and>
     (g_err g = None \<longleftrightarrow> quiet log (Suc n)) \<and>
     (\<forall>e. g_err g = Some e \<longrightarrow> (\<exists>ev. (n, ev, Some e) \<in> set log))"
| "exec_inv phases (Finished None h w log) \<longleftrightarrow>
     (\<forall>m<length phases. mset (returned_in log m) = mset (phases ! m)) \<and>
     (\<forall>m e res. (m, e, res) \<in> set log \<longrightarrow> m < length phases \<and> res = None)"
| "exec_inv phases (Finished (Some err) h w log) \<longleftrightarrow>
     (\<exists>n<length phases. \<exists>ev e. err = phase_error n e \<and> (n, ev, Some e) \<in> set log \<and>
        quiet log n \<and> complete_to phases log (Suc n) \<and>
        (\<forall>m e res. (m, e, res) \<in> set log \<longrightarrow> m \<le> n))"
| "exec_inv phases Crashed \<longleftrightarrow> True"

lemma length_spawn [simp]: "length (g_threads (spawn vt phase h w)) = length phase"
  by (simp add: spawn_def)

lemma spawn_running: "\<forall>t\<in>set (g_threads (spawn vt phase h w)). t \<noteq> None"
  by (auto simp: spawn_def)

lemma exec_inv_start: "exec_inv phases (exec_start vt phases h w)"
  using ended_none[OF spawn_running]
  by (cases phases) (auto simp: exec_start_def quiet_def complete_to_def spawn_def)

text \<open>A step of a goroutine either ends it, or leaves the log and the group's error alone.\<close>

lemma thread_step_cases:
  assumes "thread_step env i g = Some g'"
  obtains (ended) res where "i < length (g_threads g)" "g_threads g ! i = Some (Return res)"
      "g' = g\<lparr>g_threads := (g_threads g)[i := None], g_err := first_error (g_err g) res\<rparr>"
  | (moved) p p' where "i < length (g_threads g)" "g_threads g ! i = Some p" "\<And>res. p \<noteq> Return res"
      "g_threads g' = (g_threads g)[i := Some p']" "g_err g' = g_err g"
  using assms
  by (auto simp: thread_step_def split: if_splits option.splits prog.splits prod.splits)

lemma log_return_moved:
  "g_threads g ! i = Some p \<Longrightarrow> (\<And>res. p \<noteq> Return res) \<Longrightarrow> log_return n phase i g log = log"
  by (cases p) (auto simp: log_return_def)

lemma exec_inv_step:
  assumes "exec_step vt env s t" and "exec_inv phases s"
  shows "exec_inv phases t"
  using assms
proof (induction rule: exec_step.induct)
  case (goroutine i g g' n phase rest log)
  from goroutine(1) show ?case
  proof (cases rule: thread_step_cases)
    case (ended res)
    let ?log = "log @ [(n, phase ! i, res)]"
    have inv: "n < length phases" "phase = phases ! n" "rest = drop (Suc n) phases"
      "length (g_threads g) = length phase" "quiet log n" "complete_to phases log n"
      "mset (returned_in log n) = mset (ended phase (g_threads g))"
      "g_err g = None \<longleftrightarrow> quiet log (Suc n)" "\<And>e. g_err g = Some e \<Longrightarrow> \<exists>ev. (n, ev, Some e) \<in> set log"
      using goroutine(2) by auto
    have "mset (returned_in ?log n) = mset (Executor.ended phase ((g_threads g)[i := None]))"
      using ended_one[of "g_threads g" phase i] inv(4,7) ended(1,2) by simp
    moreover have "quiet ?log n" using inv(5) by (auto simp: quiet_def)
    moreover have "complete_to phases ?log n" using inv(6) by (auto simp: complete_to_def)
    moreover have "first_error (g_err g) res = None \<longleftrightarrow> quiet ?log (Suc n)"
      using inv(8) by (auto simp: quiet_def first_error_def split: option.splits)
    moreover have "\<exists>ev. (n, ev, Some e) \<in> set ?log" if "first_error (g_err g) res = Some e" for e
      using that inv(9) by (auto simp: first_error_def split: option.splits)
    ultimately show ?thesis
      using inv(1-4) ended by (simp add: log_return_def)
  next
    case (moved p p')
    have "ended phase ((g_threads g)[i := Some p']) = ended phase (g_threads g)"
      using moved(1,2) goroutine(2) by (intro ended_same) auto
    with moved goroutine(2) show ?thesis
      by (auto simp: log_return_moved[OF moved(2,3)])
  qed
next
  case (next_phase g n phase phase' rest log)
  from next_phase(3) have rest: "phase' # rest = drop (Suc n) phases" by simp
  then have n: "Suc n < length phases" by (metis drop_eq_Nil list.discI not_le_imp_less)
  with rest have *: "phase' = phases ! Suc n" "rest = drop (Suc (Suc n)) phases"
    by (simp_all add: Cons_nth_drop_Suc[symmetric])
  from next_phase have ret: "mset (returned_in log n) = mset (phases ! n)"
    using ended_all[of "g_threads g" phase] by (simp add: all_returned_def)
  from next_phase(3) have upto: "complete_to phases log n" by simp
  then have "\<forall>x\<in>set log. fst x \<noteq> Suc n" by (auto simp: complete_to_def) (metis Suc_n_not_le_n)
  with upto have later: "returned_in log (Suc n) = []" "complete_to phases log n"
    by (simp_all add: returned_in_def filter_empty_conv)
  with ret have "complete_to phases log (Suc n)"
    unfolding complete_to_def by (metis le_SucI less_Suc_eq)
  moreover have "quiet log (Suc n)" using next_phase(2,3) by simp
  moreover from this later(2) have "quiet log (Suc (Suc n))"
    by (auto simp: quiet_def complete_to_def) (metis less_Suc_eq_le)
  ultimately show ?case
    using n * later(1) ended_none[OF spawn_running] by (simp add: spawn_def)
next
  case (all_done g n phase log)
  then have n: "n < length phases" "drop (Suc n) phases = []" by auto
  then have len: "length phases = Suc n" by simp
  from all_done have "mset (returned_in log n) = mset (phases ! n)"
    using ended_all[of "g_threads g" phase] by (simp add: all_returned_def)
  moreover have upto: "complete_to phases log n" "quiet log (Suc n)" using all_done by auto
  have "m < Suc n \<and> res = None" if "(m, e, res) \<in> set log" for m e res
  proof -
    from that upto(1) have "m < Suc n" by (auto simp: complete_to_def less_Suc_eq_le)
    with that upto(2) show ?thesis by (auto simp: quiet_def)
  qed
  ultimately show ?case
    using upto(1) len by (auto simp: complete_to_def less_Suc_eq)
next
  case (failed g e n phase rest log)
  from failed have "mset (returned_in log n) = mset (phases ! n)"
    using ended_all[of "g_threads g" phase] by (simp add: all_returned_def)
  moreover have upto: "complete_to phases log n" "n < length phases" "quiet log n" using failed by auto
  ultimately have "complete_to phases log (Suc n)"
    unfolding complete_to_def by (metis le_SucI less_Suc_eq)
  moreover obtain ev where "(n, ev, Some e) \<in> set log" using failed by auto
  moreover have "\<forall>m e res. (m, e, res) \<in> set log \<longrightarrow> m \<le> n" using upto(1) by (simp add: complete_to_def)
  ultimately show ?case using upto unfolding exec_inv.simps by blast
qed simp

lemma exec_reaches_inv:
  "exec_reaches vt env s t \<Longrightarrow> exec_inv phases s \<Longrightarrow> exec_inv phases t"
  by (induction rule: exec_reaches.induct) (auto intro: exec_inv_step)

text \<open>The log is in the order of the phases.\<close>

fun log_of :: "('q, 's, 'o, 'w, 'r) exec_state \<Rightarrow> 'r exec_log" where
  "log_of (Executing n phase rest g log) = log"
| "log_of (Finished err h w log) = log"
| "log_of Crashed = []"

lemma log_sorted_step:
  assumes "exec_step vt env s t" and "exec_inv phases s" and "sorted (map fst (log_of s))"
  shows "sorted (map fst (log_of t))"
  using assms
proof (induction rule: exec_step.induct)
  case (goroutine i g g' n phase rest log)
  then have "\<forall>m e res. (m, e, res) \<in> set log \<longrightarrow> m \<le> n" by (simp add: complete_to_def)
  then have "\<forall>x\<in>set log. fst x \<le> n" by (metis prod_cases3 fst_conv)
  with goroutine show ?case
    by (auto simp: log_return_def sorted_append split: option.split prog.split)
qed simp_all

lemma log_sorted:
  "exec_reaches vt env s t \<Longrightarrow> exec_inv phases s \<Longrightarrow> sorted (map fst (log_of s)) \<Longrightarrow> sorted (map fst (log_of t))"
proof (induction rule: exec_reaches.induct)
  case (more s t u)
  then show ?case using log_sorted_step exec_reaches_inv by blast
qed

subsection \<open>Termination\<close>

text \<open>
  A step takes a goroutine to a part of its program, or ends it; moving to the next phase uses one
  up. So no schedule runs for ever.
\<close>

definition part_of :: "(('q, 's, 'o, 'a) prog \<times> ('q, 's, 'o, 'a) prog) set" where
  "part_of = {(p', p). (\<exists>q k s. p = Call q k \<and> p' = k s) \<or> (\<exists>r k x. p = Load r k \<and> (p' = k x \<or> p' = Panic))
     \<or> (\<exists>r f p''. p = Store r f p'' \<and> (p' = p'' \<or> p' = Panic))}"

lemma part_of_acc: "p \<in> Wellfounded.acc part_of"
proof (induction p rule: prog_induct)
  case Panic
  show ?case by (rule accI) (simp add: part_of_def)
next
  case (Load r k)
  have "Panic \<in> Wellfounded.acc part_of" by (rule accI) (simp add: part_of_def)
  with Load show ?case by - (rule accI, auto simp: part_of_def)
next
  case (Store r f p)
  have "Panic \<in> Wellfounded.acc part_of" by (rule accI) (simp add: part_of_def)
  with Store show ?case by - (rule accI, auto simp: part_of_def)
qed (rule accI, auto simp: part_of_def)+

lemma wf_part_of: "wf part_of"
  by (simp add: part_of_acc wf_iff_acc)

definition live :: "('q, 's, 'o) operation option list \<Rightarrow> ('q, 's, 'o) operation multiset" where
  "live ts = mset (map the (filter (\<lambda>t. t \<noteq> None) ts))"

lemma live_at: "i < length ts \<Longrightarrow> ts ! i = Some p \<Longrightarrow>
    \<exists>M. live ts = add_mset p M \<and> live (ts[i := None]) = M \<and> (\<forall>p'. live (ts[i := Some p']) = add_mset p' M)"
proof (induction ts arbitrary: i)
  case (Cons t ts)
  show ?case
  proof (cases i)
    case 0
    with Cons.prems show ?thesis by (auto simp: live_def)
  next
    case (Suc k)
    with Cons.prems Cons.IH[of k] obtain M where
      "live ts = add_mset p M" "live (ts[k := None]) = M" "\<forall>p'. live (ts[k := Some p']) = add_mset p' M"
      by auto
    with Suc show ?thesis by (cases t) (auto simp: live_def)
  qed
qed simp

lemma thread_step_live:
  assumes "thread_step env i g = Some g'"
  shows "(live (g_threads g'), live (g_threads g)) \<in> mult1 part_of"
proof -
  from assms obtain p where i: "i < length (g_threads g)" "g_threads g ! i = Some p"
    by (auto simp: thread_step_def split: if_splits option.splits)
  from live_at[OF this] obtain M where M: "live (g_threads g) = add_mset p M"
    "live ((g_threads g)[i := None]) = M" "\<And>p'. live ((g_threads g)[i := Some p']) = add_mset p' M" by blast
  have next_part: ?thesis if "live (g_threads g') = add_mset p' M" "(p', p) \<in> part_of" for p'
    unfolding mult1_def using that M(1) by (intro CollectI case_prodI exI[of _ p] exI[of _ M] exI[of _ "{#p'#}"]) simp
  show ?thesis
  proof (cases p)
    case (Return res)
    with assms i M have "live (g_threads g') = M" by (auto simp: thread_step_def)
    with M(1) show ?thesis
      unfolding mult1_def by (intro CollectI case_prodI exI[of _ p] exI[of _ M] exI[of _ "{#}"]) simp
  next
    case (Call q k)
    obtain s w where "env (g_err g \<noteq> None) q (g_world g) = (s, w)" by fastforce
    with Call assms i M(3)[of "k s"] show ?thesis
      by (intro next_part[of "k s"]) (auto simp: thread_step_def part_of_def)
  next
    case (Load r k)
    with assms i M(3) show ?thesis
      by (intro next_part[of "if r < length (g_heap g) then k (g_heap g ! r) else Panic"])
        (auto simp: thread_step_def part_of_def)
  next
    case (Store r f p'')
    with assms i M(3) show ?thesis
      by (intro next_part[of "if r < length (g_heap g) then p'' else Panic"])
        (auto simp: thread_step_def part_of_def split: if_splits)
  qed (use assms i in \<open>auto simp: thread_step_def\<close>)
qed

fun exec_measure :: "('q, 's, 'o, 'w, 'r) exec_state \<Rightarrow> nat \<times> ('q, 's, 'o) operation multiset" where
  "exec_measure (Executing n phase rest g log) = (Suc (length rest), live (g_threads g))"
| "exec_measure (Finished err h w log) = (0, {#})"
| "exec_measure Crashed = (0, {#})"

lemma exec_step_decreases:
  "exec_step vt env s t \<Longrightarrow> (exec_measure t, exec_measure s) \<in> less_than <*lex*> mult1 part_of"
  by (induction rule: exec_step.induct) (auto dest: thread_step_live)

lemma exec_wf: "wfp (\<lambda>t s. exec_step vt env s t)"
proof -
  have "wf (inv_image (less_than <*lex*> mult1 part_of) exec_measure)"
    by (intro wf_inv_image wf_lex_prod wf_less_than wf_mult1 wf_part_of)
  then have "wf {(t, s). exec_step vt env s t}"
    by (rule wf_subset) (auto dest: exec_step_decreases)
  then show ?thesis by (simp add: wfp_def)
qed

text \<open>A state that cannot move is a final one, or has a goroutine in a loop that does not return.\<close>

definition exec_final :: "('q, 's, 'o, 'w, 'r) exec_state \<Rightarrow> bool" where
  "exec_final s \<longleftrightarrow> (case s of
       Finished err h w log \<Rightarrow> True
     | Crashed \<Rightarrow> True
     | Executing n phase rest g log \<Rightarrow> Some Spin \<in> set (g_threads g))"

lemma thread_step_enabled:
  assumes "i < length (g_threads g)" and "g_threads g ! i = Some p" and "p \<noteq> Panic" and "p \<noteq> Spin"
  shows "\<exists>g'. thread_step env i g = Some g'"
  using assms by (cases p) (auto simp: thread_step_def split: prod.splits)

lemma exec_progress: "exec_final s \<or> (\<exists>t. exec_step vt env s t)"
proof (cases s)
  case (Executing n phase rest g log)
  consider "Some Spin \<in> set (g_threads g)" | "Some Panic \<in> set (g_threads g)"
    | p where "Some p \<in> set (g_threads g)" "p \<noteq> Panic" "p \<noteq> Spin" | "all_returned g"
    unfolding all_returned_def by (metis not_None_eq)
  then show ?thesis
  proof cases
    case 1
    with Executing show ?thesis by (simp add: exec_final_def)
  next
    case 2
    with Executing show ?thesis by (auto intro: exec_step.panic)
  next
    case 3
    then obtain i where "i < length (g_threads g)" "g_threads g ! i = Some p"
      by (auto simp: in_set_conv_nth)
    from thread_step_enabled[OF this 3(2,3), of env] Executing show ?thesis
      by (auto intro: exec_step.goroutine)
  next
    case 4
    then show ?thesis
      unfolding Executing by (cases rest; cases "g_err g") (auto intro: exec_step.intros)
  qed
qed (simp_all add: exec_final_def)

lemma exec_reaches_trans: "exec_reaches vt env t u \<Longrightarrow> exec_reaches vt env s t \<Longrightarrow> exec_reaches vt env s u"
  by (induction rule: exec_reaches.induct) (auto intro: exec_reaches.more)

lemma exec_reaches_final: "\<exists>t. exec_reaches vt env s t \<and> exec_final t"
proof (induction s rule: wfp_induct[OF exec_wf[of vt env]])
  case (1 s)
  show ?case
  proof (cases "exec_final s")
    case True
    then show ?thesis using exec_reaches.here by blast
  next
    case False
    with exec_progress obtain u where u: "exec_step vt env s u" by blast
    with 1 obtain t where t: "exec_reaches vt env u t" "exec_final t" by blast
    have "exec_reaches vt env s u" using u exec_reaches.here exec_reaches.more by blast
    with t exec_reaches_trans show ?thesis by blast
  qed
qed

subsection \<open>One of the executions, computed\<close>

text \<open>
  Not a model of the code, which has no such schedule: a function that computes where one
  interleaving ends, in which every goroutine of a phase runs to its end before the next one starts
  (the group's context is cancelled for those that start after an error; None where a goroutine does
  not return). \<open>execute_seq_reaches\<close> shows that it is an interleaving; it serves only to exhibit
  executions of concrete programs.
\<close>

fun run_phase :: "('q, 's, 'o, 'r) methods \<Rightarrow> ('w, 'q, 's) env \<Rightarrow> 'o list \<Rightarrow> 'r event list \<Rightarrow> goerror option
    \<Rightarrow> 'o list \<Rightarrow> 'w \<Rightarrow> (goerror option \<times> 'o list \<times> 'w) option" where
  "run_phase vt env h0 [] err h w = Some (err, h, w)"
| "run_phase vt env h0 (e # es) err h w =
     (case run env (err \<noteq> None) (event_body vt h0 e) h w of
        (Returned res, h', w') \<Rightarrow> run_phase vt env h0 es (first_error err res) h' w'
      | _ \<Rightarrow> None)"

fun execute_seq :: "('q, 's, 'o, 'r) methods \<Rightarrow> ('w, 'q, 's) env \<Rightarrow> nat \<Rightarrow> 'r event list list \<Rightarrow> 'o list \<Rightarrow> 'w
    \<Rightarrow> (goerror option \<times> 'o list \<times> 'w) option" where
  "execute_seq vt env n [] h w = Some (None, h, w)"
| "execute_seq vt env n (phase # rest) h w =
     (case run_phase vt env h phase None h w of
        None \<Rightarrow> None
      | Some (Some e, h', w') \<Rightarrow> Some (Some (phase_error n e), h', w')
      | Some (None, h', w') \<Rightarrow> execute_seq vt env (Suc n) rest h' w')"

lemma exec_one: "exec_step vt env s t \<Longrightarrow> exec_reaches vt env s t"
  by (rule exec_reaches.more[OF exec_reaches.here])

lemma exec_cons: "exec_step vt env s t \<Longrightarrow> exec_reaches vt env t u \<Longrightarrow> exec_reaches vt env s u"
  using exec_one exec_reaches_trans by blast

text \<open>Running one goroutine to its end, the others standing still.\<close>

lemma run_goroutine:
  assumes "run env (err \<noteq> None) p h w = (Returned res, h', w')" and "i < length ts"
  shows "exec_reaches vt env
    (Executing n phase rest \<lparr>g_threads = ts[i := Some p], g_err = err, g_heap = h, g_world = w\<rparr> log)
    (Executing n phase rest
       \<lparr>g_threads = ts[i := None], g_err = first_error err res, g_heap = h', g_world = w'\<rparr>
       (log @ [(n, phase ! i, res)]))"
  using assms(1)
proof (induction p arbitrary: h w rule: prog_induct)
  case (Return a)
  let ?g = "\<lparr>g_threads = ts[i := Some (Return a)], g_err = err, g_heap = h, g_world = w\<rparr>"
  have "thread_step env i ?g = Some (?g\<lparr>g_threads := ts[i := None], g_err := first_error err a\<rparr>)"
    using assms(2) by (simp add: thread_step_def)
  from exec_step.goroutine[OF this, of vt n phase rest log] Return assms(2) show ?case
    by (auto simp: log_return_def intro: exec_one)
next
  case (Call q k)
  obtain s w1 where e: "env (err \<noteq> None) q w = (s, w1)" by fastforce
  let ?g = "\<lparr>g_threads = ts[i := Some (Call q k)], g_err = err, g_heap = h, g_world = w\<rparr>"
  have "thread_step env i ?g = Some (?g\<lparr>g_threads := ts[i := Some (k s)], g_world := w1\<rparr>)"
    using assms(2) e by (simp add: thread_step_def)
  from exec_step.goroutine[OF this, of vt n phase rest log] assms(2) Call.IH[of s h w1] Call.prems e
  show ?case by (auto simp: log_return_def intro: exec_cons)
next
  case (Load r k)
  let ?g = "\<lparr>g_threads = ts[i := Some (Load r k)], g_err = err, g_heap = h, g_world = w\<rparr>"
  from Load.prems have r: "r < length h" by (auto split: if_splits)
  have "thread_step env i ?g = Some (?g\<lparr>g_threads := ts[i := Some (k (h ! r))]\<rparr>)"
    using assms(2) r by (simp add: thread_step_def)
  from exec_step.goroutine[OF this, of vt n phase rest log] assms(2) Load.IH[of "h ! r" h w] Load.prems r
  show ?case by (auto simp: log_return_def intro: exec_cons)
next
  case (Store r f p)
  let ?g = "\<lparr>g_threads = ts[i := Some (Store r f p)], g_err = err, g_heap = h, g_world = w\<rparr>"
  from Store.prems have r: "r < length h" by (auto split: if_splits)
  have "thread_step env i ?g = Some (?g\<lparr>g_threads := ts[i := Some p], g_heap := h[r := f (h ! r)]\<rparr>)"
    using assms(2) r by (simp add: thread_step_def)
  from exec_step.goroutine[OF this, of vt n phase rest log] assms(2) Store.IH[of "h[r := f (h ! r)]" w] Store.prems r
  show ?case by (auto simp: log_return_def intro: exec_cons)
qed simp_all

lemma run_phase_reaches:
  "run_phase vt env h0 es err h w = Some (err', h', w') \<Longrightarrow>
   \<exists>log'. exec_reaches vt env
     (Executing n (pre @ es) rest \<lparr>g_threads = replicate (length pre) None @ map (\<lambda>e. Some (event_body vt h0 e)) es,
        g_err = err, g_heap = h, g_world = w\<rparr> log)
     (Executing n (pre @ es) rest \<lparr>g_threads = replicate (length pre + length es) None,
        g_err = err', g_heap = h', g_world = w'\<rparr> log')"
proof (induction es arbitrary: pre err h w log)
  case Nil
  then show ?case using exec_reaches.here by fastforce
next
  case (Cons e es)
  then obtain res h1 w1 where r: "run env (err \<noteq> None) (event_body vt h0 e) h w = (Returned res, h1, w1)"
    "run_phase vt env h0 es (first_error err res) h1 w1 = Some (err', h', w')"
    by (auto split: prod.splits outcome.splits)
  let ?ts = "replicate (length pre) None @ map (\<lambda>e. Some (event_body vt h0 e)) (e # es)"
  have ts: "?ts[length pre := Some (event_body vt h0 e)] = ?ts"
    "?ts[length pre := None] = replicate (length (pre @ [e])) None @ map (\<lambda>e. Some (event_body vt h0 e)) es"
    by (simp_all add: list_update_append replicate_append_same)
  note one = run_goroutine[OF r(1), of "length pre" ?ts vt n "pre @ e # es" rest log, unfolded ts]
  from Cons.IH[OF r(2), of "pre @ [e]" "log @ [(n, (pre @ e # es) ! length pre, res)]"] obtain log' where
    "exec_reaches vt env
      (Executing n (pre @ e # es) rest \<lparr>g_threads = replicate (length (pre @ [e])) None @ map (\<lambda>e. Some (event_body vt h0 e)) es,
         g_err = first_error err res, g_heap = h1, g_world = w1\<rparr> (log @ [(n, (pre @ e # es) ! length pre, res)]))
      (Executing n (pre @ e # es) rest \<lparr>g_threads = replicate (length pre + length (e # es)) None,
         g_err = err', g_heap = h', g_world = w'\<rparr> log')"
    by auto
  from exec_reaches_trans[OF this one] show ?case by auto
qed

lemma run_phase_spawned:
  assumes "run_phase vt env h phase None h w = Some (err', h', w')"
  obtains log' where "exec_reaches vt env (Executing n phase rest (spawn vt phase h w) log)
    (Executing n phase rest \<lparr>g_threads = replicate (length phase) None,
        g_err = err', g_heap = h', g_world = w'\<rparr> log')"
  using run_phase_reaches[OF assms, of n "[]" rest log] by (auto simp: spawn_def)

lemma execute_seq_reaches:
  "execute_seq vt env n (phase # rest) h w = Some (err, h', w') \<Longrightarrow>
   \<exists>log'. exec_reaches vt env (Executing n phase rest (spawn vt phase h w) log) (Finished err h' w' log')"
proof (induction rest arbitrary: phase n h w log)
  case Nil
  then obtain e h1 w1 where r: "run_phase vt env h phase None h w = Some (e, h1, w1)"
    by (auto split: option.splits)
  from run_phase_spawned[OF r] obtain log1 where log1:
    "exec_reaches vt env (Executing n phase [] (spawn vt phase h w) log)
       (Executing n phase [] \<lparr>g_threads = replicate (length phase) None, g_err = e, g_heap = h1, g_world = w1\<rparr> log1)" .
  let ?g = "\<lparr>g_threads = replicate (length phase) None, g_err = e, g_heap = h1, g_world = w1\<rparr>"
  have "exec_step vt env (Executing n phase [] ?g log1) (Finished err h' w' log1)"
  proof (cases e)
    case None
    with Nil r exec_step.all_done[of ?g vt env n phase log1] show ?thesis by (simp add: all_returned_def)
  next
    case (Some e')
    with Nil r exec_step.failed[of ?g e' vt env n phase "[]" log1] show ?thesis by (simp add: all_returned_def)
  qed
  with log1 show ?case using exec_reaches.more by blast
next
  case (Cons phase' rest)
  then obtain e h1 w1 where r: "run_phase vt env h phase None h w = Some (e, h1, w1)"
    by (auto split: option.splits)
  let ?s = "\<lambda>log. Executing n phase (phase' # rest)
    \<lparr>g_threads = replicate (length phase) None, g_err = e, g_heap = h1, g_world = w1\<rparr> log"
  from run_phase_spawned[OF r] obtain log1 where log1:
    "exec_reaches vt env (Executing n phase (phase' # rest) (spawn vt phase h w) log) (?s log1)" .
  have "\<exists>log'. exec_reaches vt env (?s log1) (Finished err h' w' log')"
  proof (cases e)
    case None
    have "exec_step vt env (?s log1) (Executing (Suc n) phase' rest (spawn vt phase' h1 w1) log1)"
      using exec_step.next_phase[of "\<lparr>g_threads = replicate (length phase) None, g_err = e, g_heap = h1, g_world = w1\<rparr>"
          vt env n phase phase' rest log1] None by (simp add: all_returned_def)
    moreover have "execute_seq vt env (Suc n) (phase' # rest) h1 w1 = Some (err, h', w')"
      using Cons.prems r None by simp
    ultimately show ?thesis using Cons.IH exec_cons by blast
  next
    case (Some e')
    then show ?thesis
      using Cons.prems r exec_step.failed[of "\<lparr>g_threads = replicate (length phase) None, g_err = e, g_heap = h1, g_world = w1\<rparr>"
          e' vt env n phase "phase' # rest" log1]
      by (auto simp: all_returned_def intro: exec_one)
  qed
  with log1 exec_reaches_trans show ?case by blast
qed

subsection \<open>Properties\<close>

lemma exec_inv_reached:
  "exec_reaches vt env (exec_start vt phases h w) s \<Longrightarrow> exec_inv phases s"
  by (rule exec_reaches_inv[OF _ exec_inv_start])

lemma returned_upto: "\<forall>m<n. mset (returned_in log m) = mset (phases ! m) \<Longrightarrow> n \<le> length phases \<Longrightarrow>
    map (\<lambda>m. mset (returned_in log m)) [0..<n] = map mset (take n phases)"
  by (rule nth_equalityI) auto

text \<open>A resource whose methods do nothing, or fail.\<close>

definition dummy_methods :: "(unit, unit, unit, ident) methods" where
  "dummy_methods = \<lparr>m_Identifier = (\<lambda>h r. r), m_Dependencies = (\<lambda>h r. []), m_Refresh = (\<lambda>r. Return None),
     m_Status = (\<lambda>h r. zero_status), m_Create = (\<lambda>r. Return None), m_Update = (\<lambda>r. Return None),
     m_Delete = (\<lambda>r. Return (Some (ErrOther ''busy'')))\<rparr>"

abbreviation dummy_phases :: "ident event list list" where
  "dummy_phases \<equiv> [[\<lparr>Action = ActionDelete, Resource = mk_id ''t'' ''a''\<rparr>],
                   [\<lparr>Action = ActionCreate, Resource = mk_id ''t'' ''b''\<rparr>]]"

abbreviation dummy_error :: goerror where
  "dummy_error \<equiv> Wrapf ''delete t/a'' (ErrOther ''busy'')"

lemma dummy_run: "exec_reaches dummy_methods (\<lambda>c q w. ((), w)) (exec_start dummy_methods dummy_phases [] ())
   (Finished (Some (phase_error 0 dummy_error)) [] () [(0, hd (hd dummy_phases), Some dummy_error)])"
proof -
  let ?env = "\<lambda>(c::bool) (q::unit) (w::unit). ((), w)"
  let ?g = "spawn dummy_methods (hd dummy_phases) [] ()"
  let ?g' = "?g\<lparr>g_threads := [None], g_err := Some dummy_error\<rparr>"
  have s: "exec_step dummy_methods ?env (Executing 0 (hd dummy_phases) (tl dummy_phases) ?g [])
      (Executing 0 (hd dummy_phases) (tl dummy_phases) ?g' [(0, hd (hd dummy_phases), Some dummy_error)])"
    using exec_step.goroutine[of ?env 0 ?g ?g' dummy_methods 0 "hd dummy_phases" "tl dummy_phases" "[]"]
    by (simp add: thread_step_def spawn_def event_body_def dummy_methods_def wrap_result_def event_text_def
        first_error_def log_return_def Let_def)
  show ?thesis
    using exec_cons[OF s exec_one[OF exec_step.failed[of ?g' dummy_error]]]
    by (simp add: all_returned_def exec_start_def spawn_def)
qed

lemma dummy_barrier: "exec_reaches dummy_methods (\<lambda>c q w. ((), w)) (exec_start dummy_methods (rev dummy_phases) [] ())
   (Executing 1 (hd dummy_phases) [] (spawn dummy_methods (hd dummy_phases) [] ())
      [(0, hd (hd (rev dummy_phases)), None)])"
proof -
  let ?env = "\<lambda>(c::bool) (q::unit) (w::unit). ((), w)"
  let ?ph = "hd (rev dummy_phases)"
  let ?g = "spawn dummy_methods ?ph [] ()"
  let ?g' = "?g\<lparr>g_threads := [None]\<rparr>"
  have s: "exec_step dummy_methods ?env (Executing 0 ?ph [hd dummy_phases] ?g [])
      (Executing 0 ?ph [hd dummy_phases] ?g' [(0, hd ?ph, None)])"
    using exec_step.goroutine[of ?env 0 ?g ?g' dummy_methods 0 ?ph "[hd dummy_phases]" "[]"]
    by (simp add: thread_step_def spawn_def event_body_def dummy_methods_def wrap_result_def event_text_def
        first_error_def log_return_def Let_def)
  show ?thesis
    using exec_cons[OF s exec_one[OF exec_step.next_phase[of ?g']]]
    by (simp add: all_returned_def exec_start_def spawn_def)
qed

text \<open>
  Claim C10: The phases are barriers. In every interleaving, when a goroutine of phase \<open>n\<close> runs,
  every goroutine of every earlier phase has returned, each exactly once and without an error, and
  no goroutine of a later phase has started.
\<close>

theorem execute_barrier:
  assumes "exec_reaches vt env (exec_start vt phases h w) (Executing n phase rest g log)"
  shows "n < length phases \<and> phase = phases ! n \<and> rest = drop (Suc n) phases
    \<and> map (\<lambda>m. mset (returned_in log m)) [0..<n] = map mset (take n phases)
    \<and> list_all (\<lambda>(m, e, res). m = n \<or> m < n \<and> res = None) log"
proof -
  from exec_inv_reached[OF assms] have inv: "n < length phases" "phase = phases ! n" "rest = drop (Suc n) phases"
    "quiet log n" "complete_to phases log n" by auto
  then have "\<forall>m e res. (m, e, res) \<in> set log \<longrightarrow> m = n \<or> m < n \<and> res = None"
    by (auto simp: quiet_def complete_to_def) (metis order_le_imp_less_or_eq)+
  with inv returned_upto[of n log phases] show ?thesis
    by (auto simp: complete_to_def list_all_iff)
qed

theorem execute_barrier_witness:
  "let log = [(0, hd (hd (rev dummy_phases)), None)] in
   1 < length (rev dummy_phases) \<and> hd dummy_phases = rev dummy_phases ! 1 \<and> [] = drop (Suc 1) (rev dummy_phases)
    \<and> map (\<lambda>m. mset (returned_in log m)) [0..<1] = map mset (take 1 (rev dummy_phases))
    \<and> list_all (\<lambda>(m, e, res). m = 1 \<or> m < 1 \<and> res = None) log"
  unfolding Let_def by (rule execute_barrier[OF dummy_barrier])

text \<open>
  Claim C23: What \<open>Execute\<close> returns. \<open>nil\<close> means that every event of every phase ran to its end
  exactly once and returned \<open>nil\<close>. An error is the error of a goroutine of one phase, with the
  phase's index in front; every event of that phase and of those before has returned, and nothing of
  a later phase was started.
\<close>

theorem execute_result:
  assumes "exec_reaches vt env (exec_start vt phases h w) (Finished err h' w' log)"
  shows "case err of
      None \<Rightarrow> map (\<lambda>m. mset (returned_in log m)) [0..<length phases] = map mset phases
        \<and> list_all (\<lambda>(m, e, res). res = None) log
    | Some err \<Rightarrow> \<exists>n ev e. n < length phases \<and> err = phase_error n e \<and> (n, ev, Some e) \<in> set log
        \<and> map (\<lambda>m. mset (returned_in log m)) [0..<Suc n] = map mset (take (Suc n) phases)
        \<and> list_all (\<lambda>(m, e, res). m = n \<or> m < n \<and> res = None) log"
proof (cases err)
  case None
  with exec_inv_reached[OF assms] have "\<forall>m<length phases. mset (returned_in log m) = mset (phases ! m)"
    "\<forall>m e res. (m, e, res) \<in> set log \<longrightarrow> res = None" by auto
  with None returned_upto[of "length phases" log phases] show ?thesis by (auto simp: list_all_iff)
next
  case (Some e')
  with exec_inv_reached[OF assms] obtain n ev e where n: "n < length phases" "e' = phase_error n e"
    "(n, ev, Some e) \<in> set log" "quiet log n" "complete_to phases log (Suc n)"
    "\<forall>m e res. (m, e, res) \<in> set log \<longrightarrow> m \<le> n" by auto
  then have "\<forall>m e res. (m, e, res) \<in> set log \<longrightarrow> m = n \<or> m < n \<and> res = None"
    unfolding quiet_def by (metis order_le_imp_less_or_eq)
  then have "list_all (\<lambda>(m, e, res). m = n \<or> m < n \<and> res = None) log" by (auto simp: list_all_iff)
  moreover have "map (\<lambda>m. mset (returned_in log m)) [0..<Suc n] = map mset (take (Suc n) phases)"
    using n(1,5) by (intro returned_upto) (auto simp: complete_to_def)
  ultimately show ?thesis using n(1-3) Some by auto
qed

theorem execute_result_witness:
  "let log = [(0, hd (hd dummy_phases), Some dummy_error)] in
   \<exists>n ev e. n < length dummy_phases \<and> phase_error 0 dummy_error = phase_error n e \<and> (n, ev, Some e) \<in> set log
        \<and> map (\<lambda>m. mset (returned_in log m)) [0..<Suc n] = map mset (take (Suc n) dummy_phases)
        \<and> list_all (\<lambda>(m, e, res). m = n \<or> m < n \<and> res = None) log"
  using execute_result[OF dummy_run] by simp

end
