(* ===== verification/Resource_Laws.thy ===== *)
theory Resource_Laws
  imports Plan Executor
begin

text \<open>
  What \<open>Plan\<close> and \<open>Execute\<close> rely on about the resources they are given, as a locale: the methods
  may change the objects, but never what \<open>Identifier\<close> and \<open>Dependencies\<close> read of them, and each
  method writes only its own object and reads only that and the objects it points to. The locale's
  lemmas follow: identifiers mean the same during the whole execution, and the goroutines of a phase
  whose resources do not point to one another have no data race.
\<close>

subsection \<open>Reads of a program\<close>

text \<open>
  The objects a program may read, if every object it finds at \<open>r\<close> satisfies \<open>I r\<close>.
\<close>

primrec reads_only :: "(ref \<Rightarrow> 'o \<Rightarrow> bool) \<Rightarrow> ref set \<Rightarrow> ('q, 's, 'o, 'a) prog \<Rightarrow> bool" where
  "reads_only I R (Return a) \<longleftrightarrow> True"
| "reads_only I R Panic \<longleftrightarrow> True"
| "reads_only I R Spin \<longleftrightarrow> True"
| "reads_only I R (Call q k) \<longleftrightarrow> (\<forall>s. reads_only I R (k s))"
| "reads_only I R (Load r k) \<longleftrightarrow> r \<in> R \<and> (\<forall>x. I r x \<longrightarrow> reads_only I R (k x))"
| "reads_only I R (Store r f p) \<longleftrightarrow> reads_only I R p"

lemma reads_only_bind:
  "reads_only I R p \<Longrightarrow> (\<And>a. reads_only I R (f a)) \<Longrightarrow> reads_only I R (Effects.bind p f)"
  by (induction p rule: prog_induct) auto

text \<open>Two goroutines that are about to race.\<close>

definition races :: "('q, 's, 'o, 'w) group \<Rightarrow> bool" where
  "races g \<longleftrightarrow> (\<exists>i j r f p. i < length (g_threads g) \<and> j < length (g_threads g) \<and> i \<noteq> j \<and>
     g_threads g ! i = Some (Store r f p) \<and>
     ((\<exists>k. g_threads g ! j = Some (Load r k)) \<or> (\<exists>f' p'. g_threads g ! j = Some (Store r f' p'))))"

subsection \<open>The laws\<close>

locale resource_methods =
  fixes vt :: "('q, 's, 'o, 'r) methods"
    and keep :: "'o \<Rightarrow> 'o \<Rightarrow> bool"
    and address :: "'r \<Rightarrow> ref"
    and peeks :: "'o list \<Rightarrow> 'r \<Rightarrow> ref set"
  assumes keep_refl: "reflp keep" and keep_trans: "transp keep"
    and ident_keep: "list_all2 keep h h' \<Longrightarrow> m_Identifier vt h' r = m_Identifier vt h r"
    and deps_keep: "list_all2 keep h h' \<Longrightarrow> m_Dependencies vt h' r = m_Dependencies vt h r"
    and methods_keep: "op \<in> {m_Refresh vt r, m_Create vt r, m_Update vt r, m_Delete vt r} \<Longrightarrow> stores_keep keep op"
    and methods_write: "op \<in> {m_Refresh vt r, m_Create vt r, m_Update vt r, m_Delete vt r} \<Longrightarrow> writes_only {address r} op"
    and methods_read: "op \<in> {m_Create vt r, m_Update vt r, m_Delete vt r} \<Longrightarrow>
        reads_only (\<lambda>i x. i < length h \<longrightarrow> keep (h ! i) x) (insert (address r) (peeks h r)) op"
begin

lemma heap_refl: "list_all2 keep h h"
  using keep_refl by (simp add: list_all2_refl reflp_def)

lemma heap_trans: "list_all2 keep h h' \<Longrightarrow> list_all2 keep h' h'' \<Longrightarrow> list_all2 keep h h''"
  using list.rel_transp[OF keep_trans] by (rule transpD)

lemma well_keyed_keep: "list_all2 keep h h' \<Longrightarrow> well_keyed vt h' m \<longleftrightarrow> well_keyed vt h m"
  by (simp add: well_keyed_def ident_keep)

lemma run_keep:
  assumes "op \<in> {m_Refresh vt r, m_Create vt r, m_Update vt r, m_Delete vt r}"
    and "run env c op h w = (x, h', w')"
  shows "list_all2 keep h h'"
  by (rule run_stores_keep[OF assms(2) methods_keep[OF assms(1)] keep_refl keep_trans])

text \<open>A goroutine's program: what it may write, what it may read, and that it keeps the identities.\<close>

definition tame :: "'o list \<Rightarrow> 'r event \<Rightarrow> ('q, 's, 'o) operation \<Rightarrow> bool" where
  "tame h e p \<longleftrightarrow> stores_keep keep p \<and> writes_only {address (Resource e)} p \<and>
     reads_only (\<lambda>i x. i < length h \<longrightarrow> keep (h ! i) x) (insert (address (Resource e)) (peeks h (Resource e))) p"

lemma tame_event_body: "tame h e (event_body vt h' e)"
proof -
  have wrap: "tame h e (Effects.bind op (\<lambda>res. Return (f res)))"
    if "op \<in> {m_Create vt (Resource e), m_Update vt (Resource e), m_Delete vt (Resource e)}" for op f
    unfolding tame_def
    by (intro conjI stores_keep_bind writes_only_bind reads_only_bind methods_read[OF that]
          methods_keep[of op "Resource e"] methods_write[of op "Resource e"]) (use that in auto)
  show ?thesis
    by (cases "Action e") (auto simp: event_body_def Let_def intro: wrap, simp add: tame_def)
qed

text \<open>The invariant of an execution from the heap \<open>h0\<close>.\<close>

fun kept :: "'o list \<Rightarrow> ('q, 's, 'o, 'w, 'r) exec_state \<Rightarrow> bool" where
  "kept h0 (Executing n phase rest g log) \<longleftrightarrow> list_all2 keep h0 (g_heap g) \<and>
     length (g_threads g) = length phase \<and>
     (\<forall>i p. i < length phase \<longrightarrow> g_threads g ! i = Some p \<longrightarrow> tame h0 (phase ! i) p)"
| "kept h0 (Finished err h w log) \<longleftrightarrow> list_all2 keep h0 h"
| "kept h0 Crashed \<longleftrightarrow> True"

lemma tame_part:
  "tame h0 e (Call q k) \<Longrightarrow> tame h0 e (k s)"
  "tame h0 e (Store r f p) \<Longrightarrow> tame h0 e p"
  "tame h0 e Panic"
  "tame h0 e (Load r k') \<Longrightarrow> list_all2 keep h0 h \<Longrightarrow> r < length h \<Longrightarrow> tame h0 e (k' (h ! r))"
  by (auto simp: tame_def list_all2_conv_all_nth)

lemma store_keeps:
  assumes "tame h0 e (Store r f p)" and "list_all2 keep h0 h"
  shows "list_all2 keep h0 (h[r := f (h ! r)])"
proof -
  have "keep (h ! i) (h[r := f (h ! r)] ! i)" if "i < length h" for i
    using assms(1) keep_refl that by (cases "i = r") (auto simp: tame_def reflp_def)
  then have "list_all2 keep h (h[r := f (h ! r)])" by (simp add: list_all2_conv_all_nth)
  with assms(2) heap_trans show ?thesis by blast
qed

lemma kept_goroutine:
  assumes "thread_step env i g = Some g'" and "kept h0 (Executing n phase rest g log)"
  shows "kept h0 (Executing n phase rest g' log')"
proof -
  from assms(1) obtain p where i: "i < length (g_threads g)" "g_threads g ! i = Some p"
    by (auto simp: thread_step_def split: if_splits option.splits)
  from assms(2) have g: "list_all2 keep h0 (g_heap g)" "length (g_threads g) = length phase"
    "\<And>j p. j < length phase \<Longrightarrow> g_threads g ! j = Some p \<Longrightarrow> tame h0 (phase ! j) p" by auto
  have p: "tame h0 (phase ! i) p" using g i by simp
  have upd: "tame h0 (phase ! j) q"
    if "j < length phase" "(g_threads g)[i := t] ! j = Some q" "\<And>q. t = Some q \<Longrightarrow> tame h0 (phase ! i) q" for t j q
    using that g by (cases "i = j") auto
  show ?thesis
  proof (cases p)
    case (Return res)
    with assms(1) i g upd[of _ None] show ?thesis by (auto simp: thread_step_def)
  next
    case (Call q k)
    obtain s w where "env (g_err g \<noteq> None) q (g_world g) = (s, w)" by fastforce
    with Call assms(1) i g p tame_part(1)[of h0 "phase ! i" q k s] upd[of _ "Some (k s)"] show ?thesis
      by (auto simp: thread_step_def)
  next
    case (Load r k)
    then have "tame h0 (phase ! i) (if r < length (g_heap g) then k (g_heap g ! r) else Panic)"
      using p g tame_part(3) tame_part(4)[of h0 "phase ! i" r k "g_heap g"] by simp
    with Load assms(1) i g upd[of _ "Some (if r < length (g_heap g) then k (g_heap g ! r) else Panic)"]
    show ?thesis by (auto simp: thread_step_def)
  next
    case (Store r f q)
    note s = p[unfolded Store]
    show ?thesis
    proof (cases "r < length (g_heap g)")
      case True
      with Store assms(1) i have "g' = g\<lparr>g_threads := (g_threads g)[i := Some q], g_heap := (g_heap g)[r := f (g_heap g ! r)]\<rparr>"
        by (simp add: thread_step_def)
      with store_keeps[OF s g(1)] tame_part(2)[OF s] g upd[of _ "Some q"] show ?thesis by auto
    next
      case False
      with Store assms(1) i have "g' = g\<lparr>g_threads := (g_threads g)[i := Some Panic]\<rparr>"
        by (simp add: thread_step_def)
      with tame_part(3) g upd[of _ "Some Panic"] show ?thesis by auto
    qed
  qed (use assms(1) i in \<open>auto simp: thread_step_def\<close>)
qed

lemma kept_spawn: "list_all2 keep h0 h \<Longrightarrow> kept h0 (Executing n phase rest (spawn vt phase h w) log)"
  by (auto simp: spawn_def tame_event_body)

lemma kept_step: "exec_step vt env s t \<Longrightarrow> kept h0 s \<Longrightarrow> kept h0 t"
proof (induction rule: exec_step.induct)
  case (goroutine i g g' n phase rest log)
  then show ?case by (rule kept_goroutine)
next
  case (next_phase g n phase phase' rest log)
  then show ?case by (intro kept_spawn) simp
qed simp_all

lemma kept_reached:
  "exec_reaches vt env s t \<Longrightarrow> s = exec_start vt phases h w \<Longrightarrow> kept h t"
proof (induction rule: exec_reaches.induct)
  case (here s)
  then show ?case
    using kept_spawn[OF heap_refl] heap_refl by (cases phases) (simp_all add: exec_start_def del: kept.simps(1), simp)
next
  case (more s t u)
  then show ?case using kept_step by blast
qed

text \<open>The resources of a phase have their own objects, and none points to another's.\<close>

definition apart :: "'o list \<Rightarrow> 'r event list \<Rightarrow> bool" where
  "apart h phase \<longleftrightarrow> (\<forall>i j. i < length phase \<longrightarrow> j < length phase \<longrightarrow> i \<noteq> j \<longrightarrow>
     address (Resource (phase ! i)) \<notin>
       insert (address (Resource (phase ! j))) (peeks h (Resource (phase ! j))))"

lemma no_race:
  assumes "exec_reaches vt env (exec_start vt phases h w) (Executing n phase rest g log)" and "apart h phase"
  shows "\<not> races g"
proof
  assume "races g"
  from kept_reached[OF assms(1) refl] have k: "length (g_threads g) = length phase"
    "\<And>i p. i < length phase \<Longrightarrow> g_threads g ! i = Some p \<Longrightarrow> tame h (phase ! i) p" by auto
  from \<open>races g\<close> obtain i j r f p q where ij: "i < length phase" "j < length phase" "i \<noteq> j"
    "g_threads g ! i = Some (Store r f p)" "g_threads g ! j = Some q"
    "(\<exists>k. q = Load r k) \<or> (\<exists>f p. q = Store r f p)"
    unfolding races_def k(1) by auto
  have "r = address (Resource (phase ! i))" using k(2)[OF ij(1,4)] by (auto simp: tame_def)
  moreover have "r \<in> insert (address (Resource (phase ! j))) (peeks h (Resource (phase ! j)))"
    using k(2)[OF ij(2,5)] ij(6) by (auto simp: tame_def)
  ultimately show False using assms(2) ij(1-3) by (auto simp: apart_def)
qed

lemma ids_stable:
  assumes "exec_reaches vt env (exec_start vt phases h w) (Executing n phase rest g log)"
  shows "m_Identifier vt (g_heap g) r = m_Identifier vt h r"
  using kept_reached[OF assms refl] by (intro ident_keep) simp

end

end
