(* ===== verification/Config.thy ===== *)
theory Config
  imports Prelude Effects
begin

text \<open>
  \<open>internal/config/config.go\<close>: the configuration of the job, from environment variables and a
  YAML file. The environment (\<open>os.Getenv\<close>, the empty string for an unset variable), the file
  system (\<open>os.ReadFile\<close>) and the YAML parser are parameters.
\<close>

record node_bootstrap =
  Mode :: string
  SourceNode :: string

record node =
  Name :: string
  Hostname :: string
  InternalHostname :: string
  Bootstrap :: node_bootstrap

record config =
  AppName :: string
  DBName :: string
  Namespace :: string
  AdminUser :: string
  PgEdgeUser :: string
  ResetSpock :: bool
  Nodes :: "node list"

definition load_nodes :: "(string \<Rightarrow> goerror + 'f) \<Rightarrow> ('f \<Rightarrow> goerror + node list) \<Rightarrow> string
    \<Rightarrow> goerror + node list" where
  "load_nodes read_file unmarshal path = (case read_file path of
       Inl e \<Rightarrow> Inl (Wrapf ''read nodes config'' e)
     | Inr data \<Rightarrow> (case unmarshal data of
           Inl e \<Rightarrow> Inl (Wrapf ''parse nodes config'' e)
         | Inr nodes \<Rightarrow> Inr nodes))"

text \<open>\<open>strconv.ParseBool\<close>; \<open>Load\<close> takes its value, false where it fails.\<close>

definition parse_bool :: "string \<Rightarrow> bool option" where
  "parse_bool s =
     (if s \<in> {''1'', ''t'', ''T'', ''true'', ''TRUE'', ''True''} then Some True
      else if s \<in> {''0'', ''f'', ''F'', ''false'', ''FALSE'', ''False''} then Some False
      else None)"

definition load :: "(string \<Rightarrow> string) \<Rightarrow> (string \<Rightarrow> goerror + 'f) \<Rightarrow> ('f \<Rightarrow> goerror + node list) \<Rightarrow> string
    \<Rightarrow> goerror + config" where
  "load getenv read_file unmarshal nodesPath =
     (let appName = getenv ''APP_NAME'' in
      if appName = '''' then Inl (Errorf ''APP_NAME environment variable is required'') else
      let dbName = getenv ''DB_NAME'' in
      if dbName = '''' then Inl (Errorf ''DB_NAME environment variable is required'') else
      let namespace = (if getenv ''NAMESPACE'' = '''' then ''default'' else getenv ''NAMESPACE'');
          adminUser = (if getenv ''ADMIN_USER'' = '''' then ''admin'' else getenv ''ADMIN_USER'');
          resetSpock = (case parse_bool (getenv ''RESET_SPOCK'') of Some b \<Rightarrow> b | None \<Rightarrow> False)
      in case load_nodes read_file unmarshal nodesPath of
           Inl e \<Rightarrow> Inl e
         | Inr nodes \<Rightarrow> Inr \<lparr>AppName = appName, DBName = dbName, Namespace = namespace, AdminUser = adminUser,
             PgEdgeUser = ''pgedge'', ResetSpock = resetSpock, Nodes = nodes\<rparr>)"

lemma load_nodes_ok:
  "load_nodes read_file unmarshal path = Inr nodes \<longleftrightarrow>
   (\<exists>data. read_file path = Inr data \<and> unmarshal data = Inr nodes)"
  by (auto simp: load_nodes_def split: sum.splits)

text \<open>
  Claim C38: \<open>Load\<close> succeeds exactly when the two required variables are set and the file can be
  read and parsed, and then the configuration holds the variables' values with their defaults: no
  field is empty, the reset flag is on only for the words \<open>ParseBool\<close> takes for true, and the
  replication role is always \<open>pgedge\<close>.
\<close>

theorem load_ok_iff:
  "load getenv read_file unmarshal path = Inr cfg \<longleftrightarrow>
     getenv ''APP_NAME'' \<noteq> '''' \<and> getenv ''DB_NAME'' \<noteq> '''' \<and>
     (\<exists>data. read_file path = Inr data \<and> unmarshal data = Inr (Nodes cfg)) \<and>
     AppName cfg = getenv ''APP_NAME'' \<and> DBName cfg = getenv ''DB_NAME'' \<and>
     Namespace cfg = (if getenv ''NAMESPACE'' = '''' then ''default'' else getenv ''NAMESPACE'') \<and>
     AdminUser cfg = (if getenv ''ADMIN_USER'' = '''' then ''admin'' else getenv ''ADMIN_USER'') \<and>
     PgEdgeUser cfg = ''pgedge'' \<and>
     (ResetSpock cfg \<longleftrightarrow> getenv ''RESET_SPOCK'' \<in> {''1'', ''t'', ''T'', ''true'', ''TRUE'', ''True''})"
  (is "?l \<longleftrightarrow> ?r")
proof -
  have b: "(case parse_bool s of Some b \<Rightarrow> b | None \<Rightarrow> False) \<longleftrightarrow> s \<in> {''1'', ''t'', ''T'', ''true'', ''TRUE'', ''True''}"
    for s by (simp add: parse_bool_def)
  have "?l \<longleftrightarrow> getenv ''APP_NAME'' \<noteq> '''' \<and> getenv ''DB_NAME'' \<noteq> '''' \<and>
    (\<exists>nodes. load_nodes read_file unmarshal path = Inr nodes \<and>
      cfg = \<lparr>AppName = getenv ''APP_NAME'', DBName = getenv ''DB_NAME'',
        Namespace = (if getenv ''NAMESPACE'' = '''' then ''default'' else getenv ''NAMESPACE''),
        AdminUser = (if getenv ''ADMIN_USER'' = '''' then ''admin'' else getenv ''ADMIN_USER''),
        PgEdgeUser = ''pgedge'', ResetSpock = (getenv ''RESET_SPOCK'' \<in> {''1'', ''t'', ''T'', ''true'', ''TRUE'', ''True''}),
        Nodes = nodes\<rparr>)"
    unfolding load_def Let_def b by (auto split: sum.split)
  then show ?thesis unfolding load_nodes_ok by (cases cfg) auto
qed

end
