(* ===== verification/Names.thy ===== *)
theory Names
  imports Prelude
begin

text \<open>
  \<open>internal/spock/names.go\<close>: the names of replication slots and subscriptions. The string
  \<open>fmt.Sprintf\<close> makes is written out as the concatenation of its parts.
\<close>

definition spock_slot_name :: "string \<Rightarrow> string \<Rightarrow> string \<Rightarrow> string" where
  "spock_slot_name dbName providerName subscriberName =
     replace_all (CHR ''-'') (CHR ''_'')
       (''spk_'' @ dbName @ ''_'' @ providerName @ ''_sub_'' @ providerName @ ''_'' @ subscriberName)"

definition spock_sub_name :: "string \<Rightarrow> string \<Rightarrow> string" where
  "spock_sub_name srcName dstName =
     replace_all (CHR ''-'') (CHR ''_'') (''sub_'' @ srcName @ ''_'' @ dstName)"

text \<open>A name that survives the replacement, and is cut off by the separator.\<close>

definition plain_name :: "string \<Rightarrow> bool" where
  "plain_name s \<longleftrightarrow> CHR ''-'' \<notin> set s \<and> CHR ''_'' \<notin> set s"

lemma replace_all_literal:
  "replace_all (CHR ''-'') (CHR ''_'') ''spk_'' = ''spk_''" "replace_all (CHR ''-'') (CHR ''_'') ''sub_'' = ''sub_''"
  "replace_all (CHR ''-'') (CHR ''_'') ''_'' = ''_''" "replace_all (CHR ''-'') (CHR ''_'') ''_sub_'' = ''_sub_''"
  by code_simp+

lemma replace_plain: "plain_name s \<Longrightarrow> replace_all (CHR ''-'') (CHR ''_'') s = s"
  by (simp add: plain_name_def replace_all_id)

lemma sub_name_plain:
  "plain_name a \<Longrightarrow> plain_name b \<Longrightarrow> spock_sub_name a b = ''sub_'' @ a @ ''_'' @ b"
  unfolding spock_sub_name_def replace_all_append replace_all_literal by (simp only: replace_plain)

lemma slot_name_plain:
  "plain_name a \<Longrightarrow> plain_name b \<Longrightarrow> spock_slot_name db a b =
     ''spk_'' @ replace_all (CHR ''-'') (CHR ''_'') db @ ''_'' @ a @ ''_sub_'' @ a @ ''_'' @ b"
  unfolding spock_slot_name_def replace_all_append replace_all_literal by (simp only: replace_plain)

lemma sub_name_eq:
  assumes "plain_name a" and "plain_name b" and "plain_name a'" and "plain_name b'"
  shows "spock_sub_name a b = spock_sub_name a' b' \<longleftrightarrow> a = a' \<and> b = b'"
  unfolding sub_name_plain[OF assms(1,2)] sub_name_plain[OF assms(3,4)]
  using append_sep_inject[of "CHR ''_''" a a' b b'] assms by (simp add: plain_name_def)

lemma slot_name_eq:
  assumes "plain_name a" and "plain_name b" and "plain_name a'" and "plain_name b'"
  shows "spock_slot_name db a b = spock_slot_name db a' b' \<longleftrightarrow> a = a' \<and> b = b'"
proof
  assume "spock_slot_name db a b = spock_slot_name db a' b'"
  then have "a @ CHR ''_'' # ''sub_'' @ a @ ''_'' @ b = a' @ CHR ''_'' # ''sub_'' @ a' @ ''_'' @ b'"
    unfolding slot_name_plain[OF assms(1,2)] slot_name_plain[OF assms(3,4)] by simp
  then have a: "a = a'" "''sub_'' @ a @ ''_'' @ b = ''sub_'' @ a' @ ''_'' @ b'"
    using append_sep_inject[of "CHR ''_''" a a'] assms by (simp_all add: plain_name_def)
  then show "a = a' \<and> b = b'" by simp
qed simp

text \<open>
  PostgreSQL's slot names cannot have dashes, and the names the code makes have none,
  whatever the names of the database and of the nodes.
\<close>

lemma names_have_no_dash:
  "CHR ''-'' \<notin> set (spock_slot_name db p s) \<and> CHR ''-'' \<notin> set (spock_sub_name p s)"
  by (simp add: spock_slot_name_def spock_sub_name_def replace_all_gone)

text \<open>
  Claim C39: For node names without dashes and underscores the slot of one pair of nodes is never
  the slot of another pair, and the same for subscriptions.
\<close>

theorem names_injective:
  assumes "plain_name a" and "plain_name b" and "plain_name a'" and "plain_name b'"
  shows "(spock_slot_name db a b = spock_slot_name db a' b' \<longleftrightarrow> a = a' \<and> b = b')
    \<and> (spock_sub_name a b = spock_sub_name a' b' \<longleftrightarrow> a = a' \<and> b = b')"
  using sub_name_eq[OF assms] slot_name_eq[OF assms] by simp

theorem names_injective_witness:
  "(spock_slot_name ''app'' ''n1'' ''n2'' = spock_slot_name ''app'' ''n2'' ''n1'' \<longleftrightarrow> ''n1'' = ''n2'' \<and> ''n2'' = ''n1'')
    \<and> (spock_sub_name ''n1'' ''n2'' = spock_sub_name ''n2'' ''n1'' \<longleftrightarrow> ''n1'' = ''n2'' \<and> ''n2'' = ''n1'')"
  by (rule names_injective) (simp_all add: plain_name_def)

text \<open>A dash reads as the separator: where the first name ends and the second one begins is not in the name.\<close>

lemma sub_name_dash: "spock_sub_name a (b @ ''-'' @ c) = spock_sub_name (a @ ''-'' @ b) c"
  by (simp add: spock_sub_name_def replace_all_def)

end
