(* ===== verification/Sql.thy ===== *)
theory Sql
  imports Effects
begin

text \<open>
  The calls the program makes to the outside: the SQL statements, the methods of a pgx pool and
  transaction, the context and the Kubernetes client. \<open>sql\<close> gives for each statement its text, with
  every run of white space written as one space, and its arguments. What a call answers is not
  modelled here: pgx, PostgreSQL and Spock are the environment, a parameter.
\<close>

subsection \<open>Statements\<close>

record replication_set =
  rs_name :: string
  rs_insert :: bool
  rs_update :: bool
  rs_delete :: bool
  rs_truncate :: bool

record replication_set_table =
  rt_setName :: string
  rt_tableName :: string
  rt_attList :: "string option"
  rt_rowFilter :: "string option"

type_synonym timestamp = int

datatype (plugins only: code size) sql_arg =
    AText string
  | ABool bool
  | AInt nat
  | ATime timestamp
  | ATexts "string list"
  | ANullable "string option"

datatype (plugins only: code size) stmt =
    RoleExists string | RepairMode | CreateRole string
  | LocalNodeExists string | NodeCreateIfMissing string string | NodeDrop string
  | SubExists string | SubEnabled string | SubDisabledExists string | SubEnable string
  | SubCreate string string bool | SubCreateDisabled string string | SubDrop string | SubStatus string
  | SlotExists string | TerminateWalsender string | DropSlot string | CreateSlot string
  | SlotActive string | SlotRestartLsn string | LsnAtOrBefore string string | SlotAdvance string string
  | SendSyncEvent | WaitSyncEvent string string nat | ProgressReached string string
  | CommitTimestamp string string | LsnFromCommitTs string timestamp
  | OriginCreate string | OriginAdvance string string
  | OrphanNodes "string list" | SpockSlots
  | Repsets | RepsetTables | RepsetCreate replication_set | RepsetAddTable replication_set_table
  | SpockExtension | DropExtension | TerminateSpockWalsenders | DropSpockSlots | DropSpockOrigins
  | CreateExtension | NodeCreate string string

text \<open>
  The statements file by file of \<open>internal/spock\<close>. A statement that several files issue
  (\<open>repair_mode\<close>, the check for a slot) stands with the first of them. What PostgreSQL makes of a text is not
  modelled. In particular the filter of \<open>RepsetTables\<close> on \<open>relkind\<close> and the \<open>CASE\<close> of \<open>SlotAdvance\<close>,
  which leaves a slot that is already past the LSN where it is, are in the texts only; a theorem about their
  effect states what the server does with them.
\<close>

definition user_sql :: "stmt \<Rightarrow> (string \<times> sql_arg list) option" where
  "user_sql q = (case q of
     RoleExists u \<Rightarrow> Some (''SELECT EXISTS(SELECT 1 FROM pg_roles WHERE rolname = $1)'', [AText u])
     | RepairMode \<Rightarrow> Some (''SELECT spock.repair_mode('True')'', [])
     | CreateRole u \<Rightarrow> Some (''CREATE ROLE '' @ u @ '' WITH LOGIN SUPERUSER REPLICATION'', [])
   | _ \<Rightarrow> None)"

definition node_sql :: "stmt \<Rightarrow> (string \<times> sql_arg list) option" where
  "node_sql q = (case q of
     LocalNodeExists n \<Rightarrow> Some (''SELECT EXISTS(SELECT 1 FROM spock.node n JOIN spock.local_node ln ON n.node_id = ln.node_id WHERE n.node_name = $1)'', [AText n])
     | NodeCreateIfMissing n dsn \<Rightarrow> Some (''SELECT spock.node_create( node_name := $1, dsn := $2 ) WHERE $1 NOT IN (SELECT node_name FROM spock.node)'', [AText n, AText dsn])
     | NodeDrop n \<Rightarrow> Some (''SELECT spock.node_drop($1, true)'', [AText n])
   | _ \<Rightarrow> None)"

definition subscription_sql :: "stmt \<Rightarrow> (string \<times> sql_arg list) option" where
  "subscription_sql q = (case q of
     SubExists s \<Rightarrow> Some (''SELECT EXISTS(SELECT 1 FROM spock.subscription WHERE sub_name = $1)'', [AText s])
     | SubEnabled s \<Rightarrow> Some (''SELECT sub_enabled FROM spock.subscription WHERE sub_name = $1'', [AText s])
     | SubDisabledExists s \<Rightarrow> Some (''SELECT EXISTS(SELECT 1 FROM spock.subscription WHERE sub_name = $1 AND NOT sub_enabled)'', [AText s])
     | SubEnable s \<Rightarrow> Some (''SELECT spock.sub_enable($1)'', [AText s])
     | SubCreate s dsn sync \<Rightarrow> Some (''SELECT spock.sub_create( subscription_name := $1, provider_dsn := $2, replication_sets := '{default, default_insert_only, ddl_sql}', synchronize_structure := $3, synchronize_data := $4, forward_origins := '{}', apply_delay := '0', enabled := 'true' ) WHERE $1 NOT IN (SELECT sub_name FROM spock.subscription)'', [AText s, AText dsn, ABool sync, ABool sync])
     | SubDrop s \<Rightarrow> Some (''SELECT spock.sub_drop($1, true)'', [AText s])
   | _ \<Rightarrow> None)"

definition disabled_subscription_sql :: "stmt \<Rightarrow> (string \<times> sql_arg list) option" where
  "disabled_subscription_sql q = (case q of
     SubCreateDisabled s dsn \<Rightarrow> Some (''SELECT spock.sub_create( subscription_name := $1, provider_dsn := $2, replication_sets := '{default, default_insert_only, ddl_sql}', synchronize_structure := false, synchronize_data := false, forward_origins := '{}', apply_delay := '0', enabled := 'false' ) WHERE $1 NOT IN (SELECT sub_name FROM spock.subscription)'', [AText s, AText dsn])
   | _ \<Rightarrow> None)"

definition replication_slot_sql :: "stmt \<Rightarrow> (string \<times> sql_arg list) option" where
  "replication_slot_sql q = (case q of
     SlotExists s \<Rightarrow> Some (''SELECT EXISTS(SELECT 1 FROM pg_replication_slots WHERE slot_name = $1)'', [AText s])
     | TerminateWalsender s \<Rightarrow> Some (''SELECT pg_terminate_backend(active_pid) FROM pg_replication_slots WHERE slot_name = $1 AND active'', [AText s])
     | DropSlot s \<Rightarrow> Some (''SELECT pg_drop_replication_slot($1)'', [AText s])
   | _ \<Rightarrow> None)"

definition replication_slot_create_sql :: "stmt \<Rightarrow> (string \<times> sql_arg list) option" where
  "replication_slot_create_sql q = (case q of
     CreateSlot s \<Rightarrow> Some (''SELECT pg_create_logical_replication_slot($1, 'spock_output')'', [AText s])
   | _ \<Rightarrow> None)"

definition sync_event_sql :: "stmt \<Rightarrow> (string \<times> sql_arg list) option" where
  "sync_event_sql q = (case q of
     SendSyncEvent \<Rightarrow> Some (''SELECT spock.sync_event()'', [])
   | _ \<Rightarrow> None)"

definition wait_for_sync_event_sql :: "stmt \<Rightarrow> (string \<times> sql_arg list) option" where
  "wait_for_sync_event_sql q = (case q of
     SubStatus s \<Rightarrow> Some (''SELECT status FROM spock.sub_show_status() WHERE subscription_name = $1'', [AText s])
     | WaitSyncEvent p lsn timeout \<Rightarrow> Some (''CALL spock.wait_for_sync_event(true, $1, $2, $3)'', [AText p, AText lsn, AInt timeout])
   | _ \<Rightarrow> None)"

definition peer_catchup_sql :: "stmt \<Rightarrow> (string \<times> sql_arg list) option" where
  "peer_catchup_sql q = (case q of
     ProgressReached lsn peer \<Rightarrow> Some (''SELECT COALESCE( (SELECT p.remote_lsn >= $1::pg_lsn FROM spock.progress p JOIN spock.node n ON n.node_id = p.remote_node_id WHERE p.node_id = (SELECT node_id FROM spock.node_info()) AND n.node_name = $2), false )'', [AText lsn, AText peer])
   | _ \<Rightarrow> None)"

definition lag_tracker_sql :: "stmt \<Rightarrow> (string \<times> sql_arg list) option" where
  "lag_tracker_sql q = (case q of
     CommitTimestamp orig recv \<Rightarrow> Some (''SELECT commit_timestamp FROM spock.lag_tracker WHERE origin_name = $1 AND receiver_name = $2'', [AText orig, AText recv])
   | _ \<Rightarrow> None)"

definition replication_slot_advance_sql :: "stmt \<Rightarrow> (string \<times> sql_arg list) option" where
  "replication_slot_advance_sql q = (case q of
     LsnFromCommitTs s ts \<Rightarrow> Some (''SELECT spock.get_lsn_from_commit_ts($1, $2)::text'', [AText s, ATime ts])
     | SlotActive s \<Rightarrow> Some (''SELECT EXISTS(SELECT 1 FROM pg_replication_slots WHERE slot_name = $1 AND active_pid IS NOT NULL)'', [AText s])
     | SlotRestartLsn s \<Rightarrow> Some (''SELECT restart_lsn::text FROM pg_replication_slots WHERE slot_name = $1'', [AText s])
     | LsnAtOrBefore a b \<Rightarrow> Some (''SELECT $1::pg_lsn <= $2::pg_lsn'', [AText a, AText b])
     | SlotAdvance s lsn \<Rightarrow> Some (''WITH current AS ( SELECT confirmed_flush_lsn FROM pg_replication_slots WHERE slot_name = $1 ) SELECT CASE WHEN $2::pg_lsn > confirmed_flush_lsn THEN (pg_replication_slot_advance($1, $2::pg_lsn)).end_lsn ELSE confirmed_flush_lsn END AS new_lsn FROM current'', [AText s, AText lsn])
   | _ \<Rightarrow> None)"

definition replication_origin_advance_sql :: "stmt \<Rightarrow> (string \<times> sql_arg list) option" where
  "replication_origin_advance_sql q = (case q of
     OriginCreate s \<Rightarrow> Some (''SELECT pg_replication_origin_create($1) WHERE NOT EXISTS ( SELECT 1 FROM pg_replication_origin WHERE roname = $1 )'', [AText s])
     | OriginAdvance s lsn \<Rightarrow> Some (''SELECT pg_replication_origin_advance($1, $2::pg_lsn)'', [AText s, AText lsn])
   | _ \<Rightarrow> None)"

definition refresh_sql :: "stmt \<Rightarrow> (string \<times> sql_arg list) option" where
  "refresh_sql q = (case q of
     OrphanNodes ns \<Rightarrow> Some (''SELECT node_name FROM spock.node WHERE node_name != ALL($1::text[])'', [ATexts ns])
     | SpockSlots \<Rightarrow> Some (''SELECT slot_name FROM pg_replication_slots WHERE slot_type = 'logical' AND slot_name LIKE 'spk_%'' @ [CHR 0x27], [])
   | _ \<Rightarrow> None)"

definition repset_sql :: "stmt \<Rightarrow> (string \<times> sql_arg list) option" where
  "repset_sql q = (case q of
     Repsets \<Rightarrow> Some (''SELECT set_name, replicate_insert, replicate_update, replicate_delete, replicate_truncate FROM spock.replication_set ORDER BY set_id'', [])
     | RepsetTables \<Rightarrow> Some (''SELECT rs.set_name, rst.set_reloid::regclass::text, rst.set_att_list, rst.set_row_filter FROM spock.replication_set_table rst JOIN spock.replication_set rs ON rst.set_id = rs.set_id WHERE EXISTS ( SELECT 1 FROM pg_class c JOIN pg_namespace n ON n.oid = c.relnamespace WHERE c.oid = rst.set_reloid AND c.relkind IN ('r', 'v') ) ORDER BY rst.set_id, rst.set_reloid'', [])
     | RepsetCreate s \<Rightarrow> Some (''SELECT spock.repset_create($1, $2, $3, $4, $5)'', [AText (rs_name s), ABool (rs_insert s), ABool (rs_update s), ABool (rs_delete s), ABool (rs_truncate s)])
     | RepsetAddTable t \<Rightarrow> Some (''SELECT spock.repset_add_table($1, $2, false, $3, $4)'', [AText (rt_setName t), AText (rt_tableName t), ANullable (rt_attList t), ANullable (rt_rowFilter t)])
   | _ \<Rightarrow> None)"

definition reset_sql :: "stmt \<Rightarrow> (string \<times> sql_arg list) option" where
  "reset_sql q = (case q of
     SpockExtension \<Rightarrow> Some (''SELECT EXISTS(SELECT 1 FROM pg_extension WHERE extname = 'spock')'', [])
     | DropExtension \<Rightarrow> Some (''DROP EXTENSION IF EXISTS spock CASCADE'', [])
     | TerminateSpockWalsenders \<Rightarrow> Some (''SELECT pg_terminate_backend(active_pid) FROM pg_replication_slots WHERE slot_type = 'logical' AND slot_name LIKE 'spk_%' AND active'', [])
     | DropSpockSlots \<Rightarrow> Some (''SELECT pg_drop_replication_slot(slot_name) FROM pg_replication_slots WHERE slot_type = 'logical' AND slot_name LIKE 'spk_%'' @ [CHR 0x27], [])
     | DropSpockOrigins \<Rightarrow> Some (''SELECT pg_replication_origin_drop(roname) FROM pg_replication_origin WHERE roname LIKE 'spk_%'' @ [CHR 0x27], [])
     | CreateExtension \<Rightarrow> Some (''CREATE EXTENSION IF NOT EXISTS spock'', [])
     | NodeCreate n dsn \<Rightarrow> Some (''SELECT spock.node_create($1, $2)'', [AText n, AText dsn])
   | _ \<Rightarrow> None)"

lemmas sql_texts = user_sql_def node_sql_def subscription_sql_def disabled_subscription_sql_def
  replication_slot_sql_def replication_slot_create_sql_def sync_event_sql_def wait_for_sync_event_sql_def
  peer_catchup_sql_def lag_tracker_sql_def replication_slot_advance_sql_def replication_origin_advance_sql_def
  refresh_sql_def repset_sql_def reset_sql_def

text \<open>Every statement has a text in one of the files.\<close>

definition sql :: "stmt \<Rightarrow> string \<times> sql_arg list" where
  "sql q = hd (List.map_filter (\<lambda>f. f q)
     [user_sql, node_sql, subscription_sql, disabled_subscription_sql,
      replication_slot_sql, replication_slot_create_sql, sync_event_sql, wait_for_sync_event_sql,
      peer_catchup_sql, lag_tracker_sql, replication_slot_advance_sql, replication_origin_advance_sql,
      refresh_sql, repset_sql, reset_sql])"

text \<open>The numbers of the placeholders of a text, as they occur (no statement has more than nine).\<close>

fun placeholders :: "string \<Rightarrow> nat list" where
  "placeholders (c # d # s) =
     (if c = CHR ''$'' then (of_char d - 48) # placeholders s else placeholders (d # s))"
| "placeholders _ = []"

text \<open>
  Every statement is given as many arguments as it has placeholders: the placeholders are
  \<open>$1\<close> to \<open>$n\<close> for the \<open>n\<close> arguments, and only \<open>CREATE ROLE\<close>, which cannot have one, has a
  value in its text.
\<close>

lemma sql_placeholders:
  assumes "\<forall>u. s \<noteq> CreateRole u"
  shows "set (placeholders (fst (sql s))) = {1..length (snd (sql s))}"
  using assms by (cases s) (simp_all add: sql_def sql_texts List.map_filter_simps, auto)

lemma sql_placeholders_witness:
  "set (placeholders (fst (sql (SubDrop ''sub_n1_n2'')))) = {1..length (snd (sql (SubDrop ''sub_n1_n2'')))}"
  by (rule sql_placeholders) simp

end
