(* ===== verification/Calls.thy ===== *)
theory Calls
  imports Sql
begin

text \<open>
  The calls of the program to pgx, the context and Kubernetes, and the ways the code uses their
  answers: \<open>if err != nil \<dots> return\<close>, \<open>QueryRow(\<dots>).Scan(&x)\<close>, and \<open>Begin\<close> with a deferred
  \<open>Rollback\<close>.
\<close>

subsection \<open>Requests and replies\<close>

text \<open>
  A \<open>*pgxpool.Pool\<close> is a number, None for \<open>nil\<close>; a transaction is a number as well. A
  \<open>QueryRow\<close> stands for the call with its \<open>Scan\<close>, so its reply is a value of the destination's
  type or an error; \<open>DoneOrAfter\<close> is \<open>select\<close> on \<open>ctx.Done()\<close> and a timer of so many
  milliseconds. A parsed connection configuration is the string it was made from.
  \<open>RPanic\<close> is the answer of a call that panics, as one on a \<open>nil\<close> pool may.
\<close>

type_synonym conn = "nat option"
type_synonym tx = nat

datatype (plugins only: code size) request =
    Begin conn
  | TxExec tx stmt
  | TxQueryRow tx stmt
  | TxCommit tx
  | TxRollback tx
  | PoolExec conn stmt
  | PoolQueryRow conn stmt
  | PoolQuery conn stmt
  | ContextErr
  | DoneOrAfter nat
  | InClusterConfig
  | NewDynamicClient
  | ListClusters string string
  | LoadX509KeyPair string string
  | ParseConfig string
  | ConnectConfig string
  | ConnClose
  | ParsePoolConfig string
  | NewPool string
  | PoolClose conn

datatype (plugins only: code size) row =
    RowError goerror
  | RowText string
  | RowRepset replication_set
  | RowTable replication_set_table

datatype (plugins only: code size) reply =
    ROk
  | RErr goerror
  | RPanic
  | RTx tx
  | RBool bool
  | RText string
  | RTime timestamp
  | RDone
  | RRows "row list" "goerror option"
  | RClusters "(string \<times> string) list"
  | RPool nat

type_synonym ('o, 'a) program = "(request, reply, 'o, 'a) prog"
type_synonym 'o op = "('o, goerror option) program"

definition err_of :: "reply \<Rightarrow> goerror option" where
  "err_of s = (case s of RErr e \<Rightarrow> Some e | _ \<Rightarrow> None)"

text \<open>\<open>Scan\<close>: a reply of another type than the destination's is the error pgx gives for it.\<close>

definition scan_bool :: "reply \<Rightarrow> goerror + bool" where
  "scan_bool s = (case s of RBool b \<Rightarrow> Inr b | RErr e \<Rightarrow> Inl e | _ \<Rightarrow> Inl ErrScan)"

definition scan_text :: "reply \<Rightarrow> goerror + string" where
  "scan_text s = (case s of RText t \<Rightarrow> Inr t | RErr e \<Rightarrow> Inl e | _ \<Rightarrow> Inl ErrScan)"

definition scan_time :: "reply \<Rightarrow> goerror + timestamp" where
  "scan_time s = (case s of RTime t \<Rightarrow> Inr t | RErr e \<Rightarrow> Inl e | _ \<Rightarrow> Inl ErrScan)"

subsection \<open>How the code uses them\<close>

definition ask :: "request \<Rightarrow> (reply \<Rightarrow> ('o, 'a) program) \<Rightarrow> ('o, 'a) program" where
  "ask q k = Call q (\<lambda>s. case s of RPanic \<Rightarrow> Panic | _ \<Rightarrow> k s)"

definition failed :: "string \<Rightarrow> goerror \<Rightarrow> 'o op" where
  "failed msg e = Return (Some (Wrapf msg e))"

text \<open>\<open>if err != nil { return fmt.Errorf("msg: %w", err) }\<close>, after a call and after a \<open>Scan\<close>.\<close>

definition unless :: "string \<Rightarrow> 'o op \<Rightarrow> goerror option \<Rightarrow> 'o op" where
  "unless msg p err = (case err of Some e \<Rightarrow> failed msg e | None \<Rightarrow> p)"

definition scanned :: "string \<Rightarrow> ('b \<Rightarrow> 'o op) \<Rightarrow> goerror + 'b \<Rightarrow> 'o op" where
  "scanned msg k v = (case v of Inl e \<Rightarrow> failed msg e | Inr b \<Rightarrow> k b)"

definition exec :: "request \<Rightarrow> string \<Rightarrow> 'o op \<Rightarrow> 'o op" where
  "exec q msg p = ask q (\<lambda>s. unless msg p (err_of s))"

definition query_bool :: "request \<Rightarrow> string \<Rightarrow> (bool \<Rightarrow> 'o op) \<Rightarrow> 'o op" where
  "query_bool q msg k = ask q (\<lambda>s. scanned msg k (scan_bool s))"

definition query_text :: "request \<Rightarrow> string \<Rightarrow> (string \<Rightarrow> 'o op) \<Rightarrow> 'o op" where
  "query_text q msg k = ask q (\<lambda>s. scanned msg k (scan_text s))"

abbreviation ok :: "'o op" where
  "ok \<equiv> Return None"

abbreviation fail :: "goerror \<Rightarrow> 'o op" where
  "fail e \<equiv> Return (Some e)"

text \<open>
  \<open>tx, err := conn.Begin(ctx); if err != nil { \<dots> }; defer tx.Rollback(ctx)\<close> and the rest of the
  function. A panic in the rest ends the process, so the deferred call is not modelled for it.
\<close>

definition in_tx :: "conn \<Rightarrow> string \<Rightarrow> (tx \<Rightarrow> 'o op) \<Rightarrow> 'o op" where
  "in_tx c msg body = ask (Begin c) (\<lambda>s. case s of
       RTx t \<Rightarrow> bind (body t) (\<lambda>res. ask (TxRollback t) (\<lambda>_. Return res))
     | RErr e \<Rightarrow> failed msg e
     | _ \<Rightarrow> failed msg (ErrOther ''begin''))"

text \<open>\<open>errors.As(err, &pgErr) && pgErr.Code == pgCodeDuplicateObject\<close>\<close>

definition pgCodeDuplicateObject :: string where
  "pgCodeDuplicateObject = ''42710''"

definition is_duplicate :: "goerror \<Rightarrow> bool" where
  "is_duplicate e \<longleftrightarrow> errors_as_pg e = Some pgCodeDuplicateObject"

subsection \<open>Text\<close>

text \<open>The arrow of the messages (U+2192, in UTF-8) and \<open>%q\<close> of \<open>fmt\<close>, for printable text.\<close>

definition arrow :: string where
  "arrow = [CHR 0xE2, CHR 0x86, CHR 0x92]"

definition quote_char :: "char \<Rightarrow> string" where
  "quote_char c = (if c = CHR 0x22 \<or> c = CHR 0x5C then [CHR 0x5C, c] else [c])"

definition quoted :: "string \<Rightarrow> string" where
  "quoted s = [CHR 0x22] @ concat (map quote_char s) @ [CHR 0x22]"

definition sslSettings :: string where
  "sslSettings = ''sslcert=/projected/pgedge/certificates/tls.crt sslkey=/projected/pgedge/certificates/tls.key sslmode=require''"

text \<open>The connection string of a node, written out at four places of the code.\<close>

definition node_dsn :: "string \<Rightarrow> string \<Rightarrow> string \<Rightarrow> string" where
  "node_dsn hostname dbName pgedgeUser =
     ''host='' @ hostname @ '' dbname='' @ dbName @ '' user='' @ pgedgeUser @ '' '' @ sslSettings @ '' port=5432''"

lemmas call_defs = ask_def exec_def query_bool_def query_text_def unless_def scanned_def failed_def in_tx_def
lemmas scan_defs = err_of_def scan_bool_def scan_text_def scan_time_def

text \<open>The runs of the combinators: with these a concrete run is evaluated call by call.\<close>

named_theorems run_steps "the run of a program combinator"

lemma run_ask [run_steps]:
  "run env c (ask q k) h w =
     (case env c q w of (s, w') \<Rightarrow> if s = RPanic then (Panicked, h, w') else run env c (k s) h w')"
  by (auto simp: ask_def split: prod.split reply.split)

lemma trace_ask:
  "trace env c (ask q k) h w =
     (case env c q w of (s, w') \<Rightarrow> (q, s) # (if s = RPanic then [] else trace env c (k s) h w'))"
  by (auto simp: ask_def split: prod.split reply.split)

lemma bind_ask: "Effects.bind (ask q k) f = ask q (\<lambda>s. Effects.bind (k s) f)"
proof -
  have "(\<lambda>s. Effects.bind (case s of RPanic \<Rightarrow> Panic | _ \<Rightarrow> k s) f) = (\<lambda>s. case s of RPanic \<Rightarrow> Panic | _ \<Rightarrow> Effects.bind (k s) f)"
    by (rule ext) (simp split: reply.split)
  then show ?thesis by (simp add: ask_def)
qed

lemma bind_exec:
  "bind (exec q msg p) f = ask q (\<lambda>s. case err_of s of Some e \<Rightarrow> f (Some (Wrapf msg e)) | None \<Rightarrow> bind p f)"
  unfolding exec_def bind_ask by (rule arg_cong[of _ _ "ask q"]) (auto simp: unless_def failed_def split: option.split)

lemma run_failed [run_steps]: "run env c (failed msg e) h w = (Returned (Some (Wrapf msg e)), h, w)"
  by (simp add: failed_def)

lemma run_unless [run_steps]:
  "run env c (unless msg p err) h w =
     (case err of Some e \<Rightarrow> (Returned (Some (Wrapf msg e)), h, w) | None \<Rightarrow> run env c p h w)"
  by (simp add: unless_def run_failed split: option.split)

lemma run_exec [run_steps]:
  "run env c (exec q msg p) h w =
     (case env c q w of (s, w') \<Rightarrow> if s = RPanic then (Panicked, h, w') else run env c (unless msg p (err_of s)) h w')"
  by (simp add: exec_def run_ask)

lemma run_query_bool [run_steps]:
  "run env c (query_bool q msg k) h w =
     (case env c q w of (s, w') \<Rightarrow> if s = RPanic then (Panicked, h, w') else run env c (scanned msg k (scan_bool s)) h w')"
  by (simp add: query_bool_def run_ask)

lemma run_in_tx [run_steps]:
  "run env c (in_tx k msg body) h w =
     (case env c (Begin k) w of (s, w') \<Rightarrow>
        (case s of RPanic \<Rightarrow> (Panicked, h, w')
         | RTx t \<Rightarrow> run env c (bind (body t) (\<lambda>res. ask (TxRollback t) (\<lambda>_. Return res))) h w'
         | RErr e \<Rightarrow> (Returned (Some (Wrapf msg e)), h, w')
         | _ \<Rightarrow> (Returned (Some (Wrapf msg (ErrOther ''begin''))), h, w')))"
  by (auto simp: in_tx_def run_ask run_failed split: prod.split reply.split)

subsection \<open>The transaction protocol\<close>

text \<open>
  What a caller of pgx has to keep to: statements and the commit name the open transaction, no
  second one is opened, after a statement that failed there is no call but the rollback, after the
  commit none but the (then empty) rollback, and in the end every transaction is rolled back or
  committed.
\<close>

datatype tx_state = NoTx | Open tx | Failed tx | Committed tx

fun tx_next :: "tx_state \<Rightarrow> request \<Rightarrow> reply \<Rightarrow> tx_state option" where
  "tx_next st (Begin c) s = (if st = NoTx then (case s of RTx t \<Rightarrow> Some (Open t) | _ \<Rightarrow> Some NoTx) else None)"
| "tx_next st (TxExec t q) s = (if st = Open t then Some (if err_of s = None then Open t else Failed t) else None)"
| "tx_next st (TxQueryRow t q) s = (if st = Open t then Some (if err_of s = None then Open t else Failed t) else None)"
| "tx_next st (TxCommit t) s = (if st = Open t then Some (Committed t) else None)"
| "tx_next st (TxRollback t) s = (if st \<in> {Open t, Failed t, Committed t} then Some NoTx else None)"
| "tx_next st q s = Some st"

fun tx_trace :: "tx_state \<Rightarrow> (request \<times> reply) list \<Rightarrow> tx_state option" where
  "tx_trace st [] = Some st"
| "tx_trace st ((q, s) # qs) = (case tx_next st q s of None \<Rightarrow> None | Some st' \<Rightarrow> tx_trace st' qs)"

text \<open>The same for all runs of a program at once, which is what the proofs use.\<close>

primrec tx_safe :: "('o, 'a) program \<Rightarrow> tx_state \<Rightarrow> bool" where
  "tx_safe (Return a) = (\<lambda>st. st = NoTx)"
| "tx_safe Panic = (\<lambda>st. True)"
| "tx_safe Spin = (\<lambda>st. True)"
| "tx_safe (Call q k) = (\<lambda>st. \<forall>s. case tx_next st q s of None \<Rightarrow> False | Some st' \<Rightarrow> tx_safe (k s) st')"
| "tx_safe (Load r k) = (\<lambda>st. \<forall>x. tx_safe (k x) st)"
| "tx_safe (Store r f p) = (\<lambda>st. tx_safe p st)"

lemma tx_safe_trace:
  "tx_safe p st \<Longrightarrow> \<exists>st'. tx_trace st (trace env c p h w) = Some st' \<and>
     (\<forall>a h' w'. run env c p h w = (Returned a, h', w') \<longrightarrow> st' = NoTx)"
proof (induction p arbitrary: st h w rule: prog_induct)
  case (Call q k)
  obtain s w' where e: "env c q w = (s, w')" by fastforce
  from Call.prems obtain st' where "tx_next st q s = Some st'" "tx_safe (k s) st'"
    by (auto split: option.splits)
  with Call.IH[of s st' h w'] e show ?case by simp
qed auto

text \<open>
  \<open>nil_only_if p Q\<close>: where \<open>p\<close> returns \<open>nil\<close>, the calls it made and their replies satisfy \<open>Q\<close>.
\<close>

primrec nil_only_if :: "('o, goerror option) program \<Rightarrow> ((request \<times> reply) list \<Rightarrow> bool) \<Rightarrow> bool" where
  "nil_only_if (Return a) = (\<lambda>Q. a = None \<longrightarrow> Q [])"
| "nil_only_if Panic = (\<lambda>Q. True)"
| "nil_only_if Spin = (\<lambda>Q. True)"
| "nil_only_if (Call q k) = (\<lambda>Q. \<forall>s. nil_only_if (k s) (\<lambda>qs. Q ((q, s) # qs)))"
| "nil_only_if (Load r k) = (\<lambda>Q. \<forall>x. nil_only_if (k x) Q)"
| "nil_only_if (Store r f p) = (\<lambda>Q. nil_only_if p Q)"

lemma nil_only_if_trace:
  "nil_only_if p Q \<Longrightarrow> run env c p h w = (Returned None, h', w') \<Longrightarrow> Q (trace env c p h w)"
proof (induction p arbitrary: Q h w rule: prog_induct)
  case (Call q k)
  obtain s w1 where e: "env c q w = (s, w1)" by fastforce
  from Call.prems have "nil_only_if (k s) (\<lambda>qs. Q ((q, s) # qs))" by simp
  from Call.IH[OF this] Call.prems(2) e show ?case by simp
next
  case (Load r k)
  from Load.prems have r: "r < length h" "nil_only_if (k (h ! r)) Q" by (auto split: if_splits)
  from Load.IH[OF r(2)] Load.prems(2) r(1) show ?case by simp
next
  case (Store r f p)
  from Store.prems have r: "r < length h" "nil_only_if p Q" by (auto split: if_splits)
  from Store.IH[OF r(2)] Store.prems(2) r(1) show ?case by simp
qed auto

text \<open>
  A program that panics only after a call that panics, and does not spin: with \<open>n\<close> objects in the
  heap it always returns.
\<close>

primrec panic_free :: "nat \<Rightarrow> ('o, 'a) program \<Rightarrow> bool" where
  "panic_free n (Return a) \<longleftrightarrow> True"
| "panic_free n Panic \<longleftrightarrow> False"
| "panic_free n Spin \<longleftrightarrow> False"
| "panic_free n (Call q k) \<longleftrightarrow> (\<forall>s. s \<noteq> RPanic \<longrightarrow> panic_free n (k s))"
| "panic_free n (Load r k) \<longleftrightarrow> r < n \<and> (\<forall>x. panic_free n (k x))"
| "panic_free n (Store r f p) \<longleftrightarrow> r < n \<and> panic_free n p"

lemma run_panic_free:
  "panic_free (length h) p \<Longrightarrow> (\<And>q w. fst (env c q w) \<noteq> RPanic) \<Longrightarrow>
    \<exists>a h' w'. run env c p h w = (Returned a, h', w')"
proof (induction p arbitrary: h w rule: prog_induct)
  case (Call q k)
  obtain s w' where e: "env c q w = (s, w')" by fastforce
  with Call.prems(2)[of q w] have "s \<noteq> RPanic" by simp
  with Call.prems(1) have "panic_free (length h) (k s)" by simp
  from Call.IH[OF this Call.prems(2)] e show ?case by simp
qed auto

named_theorems panic_free_intros "the program combinators do not panic of themselves"

lemma panic_free_ask [panic_free_intros]: "(\<And>s. panic_free n (k s)) \<Longrightarrow> panic_free n (ask q k)"
  by (simp add: ask_def split: reply.split)

lemma panic_free_calls [panic_free_intros]:
  "panic_free n (Return a)" "panic_free n (failed msg e)"
  "panic_free n p \<Longrightarrow> panic_free n (exec q msg p)"
  "(\<And>b. panic_free n (f b)) \<Longrightarrow> panic_free n (query_bool q msg f)"
  "(\<And>t. panic_free n (g t)) \<Longrightarrow> panic_free n (query_text q msg g)"
  "r < n \<Longrightarrow> panic_free n p \<Longrightarrow> panic_free n (Store r u p)"
  "(P \<Longrightarrow> panic_free n a) \<Longrightarrow> (\<not> P \<Longrightarrow> panic_free n b) \<Longrightarrow> panic_free n (if P then a else b)"
  by (auto simp: failed_def exec_def query_bool_def query_text_def ask_def unless_def scanned_def
      split: reply.split option.split sum.split)

end
