(* ===== verification/Objects.thy ===== *)
theory Objects
  imports Calls Names Config Resource_Model
begin

text \<open>
  The twelve resource types of \<open>internal/spock\<close>: their structs, their constructor functions,
  \<open>Identifier\<close>, \<open>Dependencies\<close> and \<open>Status\<close>. The fields of a struct carry a two-letter prefix; a
  pointer to another resource is a \<open>ref option\<close>, None for \<open>nil\<close>. The variants of \<open>object\<close> are the
  dynamic types behind the interface \<open>resource.Resource\<close>.
\<close>

definition ResourceTypeUser :: string where "ResourceTypeUser = ''spock.user''"
definition ResourceTypeNode :: string where "ResourceTypeNode = ''spock.node''"
definition ResourceTypeReplicationSlot :: string where "ResourceTypeReplicationSlot = ''spock.replicationslot''"
definition ResourceTypeSubscription :: string where "ResourceTypeSubscription = ''spock.subscription''"
definition ResourceTypeReplicationSlotCreate :: string where "ResourceTypeReplicationSlotCreate = ''spock.replication_slot_create''"
definition ResourceTypeSyncEvent :: string where "ResourceTypeSyncEvent = ''spock.sync_event''"
definition ResourceTypeWaitForSyncEvent :: string where "ResourceTypeWaitForSyncEvent = ''spock.wait_for_sync_event''"
definition ResourceTypeLagTrackerCommitTS :: string where "ResourceTypeLagTrackerCommitTS = ''spock.lag_tracker_commit_ts''"
definition ResourceTypeReplicationSlotAdvanceFromCTS :: string where "ResourceTypeReplicationSlotAdvanceFromCTS = ''spock.replication_slot_advance_from_cts''"
definition ResourceTypeDisabledSubscription :: string where "ResourceTypeDisabledSubscription = ''spock.disabled_subscription''"
definition ResourceTypeReplicationOriginAdvance :: string where "ResourceTypeReplicationOriginAdvance = ''spock.replication_origin_advance''"
definition ResourceTypePeerCatchup :: string where "ResourceTypePeerCatchup = ''spock.peer_catchup''"

lemmas type_defs = ResourceTypeUser_def ResourceTypeNode_def ResourceTypeReplicationSlot_def
  ResourceTypeSubscription_def ResourceTypeReplicationSlotCreate_def ResourceTypeSyncEvent_def
  ResourceTypeWaitForSyncEvent_def ResourceTypeLagTrackerCommitTS_def
  ResourceTypeReplicationSlotAdvanceFromCTS_def ResourceTypeDisabledSubscription_def
  ResourceTypeReplicationOriginAdvance_def ResourceTypePeerCatchup_def

definition all_types :: "string list" where
  "all_types = [ResourceTypeUser, ResourceTypeNode, ResourceTypeReplicationSlot, ResourceTypeSubscription,
     ResourceTypeReplicationSlotCreate, ResourceTypeSyncEvent, ResourceTypeWaitForSyncEvent,
     ResourceTypeLagTrackerCommitTS, ResourceTypeReplicationSlotAdvanceFromCTS,
     ResourceTypeDisabledSubscription, ResourceTypeReplicationOriginAdvance, ResourceTypePeerCatchup]"

lemma distinct_types: "distinct all_types"
  by code_simp

text \<open>\<open>fmt.Sprintf("%s_%s", a, b)\<close>, the identifier of the populate resources of a pair of nodes.\<close>

definition pair_id :: "string \<Rightarrow> string \<Rightarrow> string" where
  "pair_id a b = a @ ''_'' @ b"

subsection \<open>The structs\<close>

record pgedge_user =
  pu_node :: node
  pu_dbName :: string
  pu_pgedgeUser :: string
  pu_conn :: conn
  pu_status :: status

record spock_node =
  sn_node :: node
  sn_dbName :: string
  sn_pgedgeUser :: string
  sn_conn :: conn
  sn_status :: status

record replication_slot =
  sl_providerName :: string
  sl_subscriberName :: string
  sl_dbName :: string
  sl_nameOverride :: string
  sl_conn :: conn
  sl_status :: status

record subscription =
  su_src :: node
  su_dst :: node
  su_dbName :: string
  su_pgedgeUser :: string
  su_sync :: bool
  su_conn :: conn
  su_status :: status
  su_extraDeps :: "ident list"

record replication_slot_create =
  sc_providerName :: string
  sc_subscriberName :: string
  sc_dbName :: string
  sc_conn :: conn
  sc_status :: status

record sync_event =
  se_providerName :: string
  se_subscriberName :: string
  se_conn :: conn
  se_extraDeps :: "ident list"
  se_status :: status
  se_LSN :: string

record wait_for_sync_event =
  we_providerName :: string
  we_subscriberName :: string
  we_syncEvent :: "ref option"
  we_conn :: conn
  we_status :: status

record lag_tracker =
  lt_originName :: string
  lt_receiverName :: string
  lt_conn :: conn
  lt_extraDeps :: "ident list"
  lt_status :: status
  lt_CommitTS :: "timestamp option"

record slot_advance =
  sa_providerName :: string
  sa_subscriberName :: string
  sa_dbName :: string
  sa_lagTracker :: "ref option"
  sa_conn :: conn
  sa_status :: status
  sa_AdvancedToLSN :: string

record disabled_subscription =
  ds_src :: node
  ds_dst :: node
  ds_dbName :: string
  ds_pgedgeUser :: string
  ds_conn :: conn
  ds_status :: status

record origin_advance =
  oa_providerName :: string
  oa_subscriberName :: string
  oa_dbName :: string
  oa_slotAdvance :: "ref option"
  oa_conn :: conn
  oa_status :: status

record peer_catchup =
  pc_peerName :: string
  pc_sourceName :: string
  pc_syncEvent :: "ref option"
  pc_conn :: conn
  pc_status :: status

datatype (plugins only: code size) object =
    OUser pgedge_user
  | ONode spock_node
  | OSlot replication_slot
  | OSub subscription
  | OSlotCreate replication_slot_create
  | OSyncEvent sync_event
  | OWait wait_for_sync_event
  | OLag lag_tracker
  | OSlotAdvance slot_advance
  | ODisabled disabled_subscription
  | OOriginAdvance origin_advance
  | OCatchup peer_catchup

type_synonym heap = "object list"

subsection \<open>Constructor functions\<close>

definition NewPgEdgeUser :: "node \<Rightarrow> string \<Rightarrow> string \<Rightarrow> conn \<Rightarrow> pgedge_user" where
  "NewPgEdgeUser n dbName pgedgeUser c =
     \<lparr>pu_node = n, pu_dbName = dbName, pu_pgedgeUser = pgedgeUser, pu_conn = c, pu_status = zero_status\<rparr>"

definition NewSpockNode :: "node \<Rightarrow> string \<Rightarrow> string \<Rightarrow> conn \<Rightarrow> spock_node" where
  "NewSpockNode n dbName pgedgeUser c =
     \<lparr>sn_node = n, sn_dbName = dbName, sn_pgedgeUser = pgedgeUser, sn_conn = c, sn_status = zero_status\<rparr>"

definition NewReplicationSlot :: "string \<Rightarrow> string \<Rightarrow> string \<Rightarrow> conn \<Rightarrow> replication_slot" where
  "NewReplicationSlot p s dbName c =
     \<lparr>sl_providerName = p, sl_subscriberName = s, sl_dbName = dbName, sl_nameOverride = '''', sl_conn = c,
      sl_status = zero_status\<rparr>"

definition NewSubscription :: "node \<Rightarrow> node \<Rightarrow> string \<Rightarrow> string \<Rightarrow> bool \<Rightarrow> conn \<Rightarrow> ident list \<Rightarrow> subscription" where
  "NewSubscription src dst dbName pgedgeUser sync c extraDeps =
     \<lparr>su_src = src, su_dst = dst, su_dbName = dbName, su_pgedgeUser = pgedgeUser, su_sync = sync, su_conn = c,
      su_status = zero_status, su_extraDeps = extraDeps\<rparr>"

definition NewReplicationSlotCreate :: "string \<Rightarrow> string \<Rightarrow> string \<Rightarrow> conn \<Rightarrow> replication_slot_create" where
  "NewReplicationSlotCreate p s dbName c =
     \<lparr>sc_providerName = p, sc_subscriberName = s, sc_dbName = dbName, sc_conn = c, sc_status = zero_status\<rparr>"

definition NewSyncEvent :: "string \<Rightarrow> string \<Rightarrow> conn \<Rightarrow> ident list \<Rightarrow> sync_event" where
  "NewSyncEvent p s c extraDeps =
     \<lparr>se_providerName = p, se_subscriberName = s, se_conn = c, se_extraDeps = extraDeps,
      se_status = zero_status, se_LSN = ''''\<rparr>"

definition NewWaitForSyncEvent :: "string \<Rightarrow> string \<Rightarrow> ref option \<Rightarrow> conn \<Rightarrow> wait_for_sync_event" where
  "NewWaitForSyncEvent p s evt c =
     \<lparr>we_providerName = p, we_subscriberName = s, we_syncEvent = evt, we_conn = c, we_status = zero_status\<rparr>"

definition NewLagTrackerCommitTimestamp :: "string \<Rightarrow> string \<Rightarrow> conn \<Rightarrow> ident list \<Rightarrow> lag_tracker" where
  "NewLagTrackerCommitTimestamp p s c extraDeps =
     \<lparr>lt_originName = p, lt_receiverName = s, lt_conn = c, lt_extraDeps = extraDeps, lt_status = zero_status,
      lt_CommitTS = None\<rparr>"

definition NewReplicationSlotAdvanceFromCTS :: "string \<Rightarrow> string \<Rightarrow> string \<Rightarrow> ref option \<Rightarrow> conn \<Rightarrow> slot_advance" where
  "NewReplicationSlotAdvanceFromCTS p s dbName lag c =
     \<lparr>sa_providerName = p, sa_subscriberName = s, sa_dbName = dbName, sa_lagTracker = lag, sa_conn = c,
      sa_status = zero_status, sa_AdvancedToLSN = ''''\<rparr>"

definition NewDisabledSubscription :: "node \<Rightarrow> node \<Rightarrow> string \<Rightarrow> string \<Rightarrow> conn \<Rightarrow> disabled_subscription" where
  "NewDisabledSubscription src dst dbName pgedgeUser c =
     \<lparr>ds_src = src, ds_dst = dst, ds_dbName = dbName, ds_pgedgeUser = pgedgeUser, ds_conn = c,
      ds_status = zero_status\<rparr>"

definition NewReplicationOriginAdvance :: "string \<Rightarrow> string \<Rightarrow> string \<Rightarrow> ref option \<Rightarrow> conn \<Rightarrow> origin_advance" where
  "NewReplicationOriginAdvance p s dbName adv c =
     \<lparr>oa_providerName = p, oa_subscriberName = s, oa_dbName = dbName, oa_slotAdvance = adv, oa_conn = c,
      oa_status = zero_status\<rparr>"

definition NewPeerCatchup :: "string \<Rightarrow> string \<Rightarrow> ref option \<Rightarrow> conn \<Rightarrow> peer_catchup" where
  "NewPeerCatchup p s evt c =
     \<lparr>pc_peerName = p, pc_sourceName = s, pc_syncEvent = evt, pc_conn = c, pc_status = zero_status\<rparr>"

lemmas new_defs = NewPgEdgeUser_def NewSpockNode_def NewReplicationSlot_def NewSubscription_def
  NewReplicationSlotCreate_def NewSyncEvent_def NewWaitForSyncEvent_def NewLagTrackerCommitTimestamp_def
  NewReplicationSlotAdvanceFromCTS_def NewDisabledSubscription_def NewReplicationOriginAdvance_def
  NewPeerCatchup_def

subsection \<open>Identifier, Dependencies, Status\<close>

definition slotName :: "replication_slot \<Rightarrow> string" where
  "slotName r = (if sl_nameOverride r \<noteq> '''' then sl_nameOverride r
     else spock_slot_name (sl_dbName r) (sl_providerName r) (sl_subscriberName r))"

definition subName :: "subscription \<Rightarrow> string" where
  "subName s = spock_sub_name (Name (su_src s)) (Name (su_dst s))"

definition replicationSlotName :: "subscription \<Rightarrow> string" where
  "replicationSlotName s = spock_slot_name (su_dbName s) (Name (su_src s)) (Name (su_dst s))"

definition create_slotName :: "replication_slot_create \<Rightarrow> string" where
  "create_slotName r = spock_slot_name (sc_dbName r) (sc_providerName r) (sc_subscriberName r)"

definition advance_slotName :: "slot_advance \<Rightarrow> string" where
  "advance_slotName r = spock_slot_name (sa_dbName r) (sa_providerName r) (sa_subscriberName r)"

definition disabled_subName :: "disabled_subscription \<Rightarrow> string" where
  "disabled_subName s = spock_sub_name (Name (ds_src s)) (Name (ds_dst s))"

definition originName :: "origin_advance \<Rightarrow> string" where
  "originName r = spock_slot_name (oa_dbName r) (oa_providerName r) (oa_subscriberName r)"

definition PgEdgeUser_Identifier [simp]: "PgEdgeUser_Identifier (u :: pgedge_user) =
  mk_id ResourceTypeUser (Name (pu_node u))"

definition SpockNode_Identifier [simp]: "SpockNode_Identifier (n :: spock_node) =
  mk_id ResourceTypeNode (Name (sn_node n))"

definition ReplicationSlot_Identifier [simp]: "ReplicationSlot_Identifier (r :: replication_slot) =
  mk_id ResourceTypeReplicationSlot (slotName r)"

definition Subscription_Identifier [simp]: "Subscription_Identifier (s :: subscription) =
  mk_id ResourceTypeSubscription (subName s)"

definition ReplicationSlotCreate_Identifier [simp]: "ReplicationSlotCreate_Identifier (r :: replication_slot_create) =
  mk_id ResourceTypeReplicationSlotCreate (create_slotName r)"

definition SyncEvent_Identifier [simp]: "SyncEvent_Identifier (r :: sync_event) =
  mk_id ResourceTypeSyncEvent (pair_id (se_providerName r) (se_subscriberName r))"

definition WaitForSyncEvent_Identifier [simp]: "WaitForSyncEvent_Identifier (r :: wait_for_sync_event) =
  mk_id ResourceTypeWaitForSyncEvent (pair_id (we_providerName r) (we_subscriberName r))"

definition LagTrackerCommitTimestamp_Identifier [simp]: "LagTrackerCommitTimestamp_Identifier (r :: lag_tracker) =
  mk_id ResourceTypeLagTrackerCommitTS (pair_id (lt_originName r) (lt_receiverName r))"

definition ReplicationSlotAdvanceFromCTS_Identifier [simp]: "ReplicationSlotAdvanceFromCTS_Identifier (r :: slot_advance) =
  mk_id ResourceTypeReplicationSlotAdvanceFromCTS (pair_id (sa_providerName r) (sa_subscriberName r))"

definition DisabledSubscription_Identifier [simp]: "DisabledSubscription_Identifier (s :: disabled_subscription) =
  mk_id ResourceTypeDisabledSubscription (disabled_subName s)"

definition ReplicationOriginAdvance_Identifier [simp]: "ReplicationOriginAdvance_Identifier (r :: origin_advance) =
  mk_id ResourceTypeReplicationOriginAdvance (pair_id (oa_providerName r) (oa_subscriberName r))"

definition PeerCatchup_Identifier [simp]: "PeerCatchup_Identifier (r :: peer_catchup) =
  mk_id ResourceTypePeerCatchup (pair_id (pc_peerName r) (pc_sourceName r))"

primrec Identifier :: "object \<Rightarrow> ident" where
  "Identifier (OUser u) = PgEdgeUser_Identifier u"
| "Identifier (ONode n) = SpockNode_Identifier n"
| "Identifier (OSlot r) = ReplicationSlot_Identifier r"
| "Identifier (OSub s) = Subscription_Identifier s"
| "Identifier (OSlotCreate r) = ReplicationSlotCreate_Identifier r"
| "Identifier (OSyncEvent r) = SyncEvent_Identifier r"
| "Identifier (OWait r) = WaitForSyncEvent_Identifier r"
| "Identifier (OLag r) = LagTrackerCommitTimestamp_Identifier r"
| "Identifier (OSlotAdvance r) = ReplicationSlotAdvanceFromCTS_Identifier r"
| "Identifier (ODisabled s) = DisabledSubscription_Identifier s"
| "Identifier (OOriginAdvance r) = ReplicationOriginAdvance_Identifier r"
| "Identifier (OCatchup r) = PeerCatchup_Identifier r"

definition PgEdgeUser_Dependencies [simp]: "PgEdgeUser_Dependencies (u :: pgedge_user) =
  []"

definition SpockNode_Dependencies [simp]: "SpockNode_Dependencies (n :: spock_node) =
  [mk_id ResourceTypeUser (Name (sn_node n))]"

definition ReplicationSlot_Dependencies [simp]: "ReplicationSlot_Dependencies (r :: replication_slot) =
  [mk_id ResourceTypeNode (sl_providerName r)]"

definition Subscription_Dependencies [simp]: "Subscription_Dependencies (s :: subscription) =
  [mk_id ResourceTypeNode (Name (su_src s)), mk_id ResourceTypeNode (Name (su_dst s)),
      mk_id ResourceTypeReplicationSlot (replicationSlotName s)] @ su_extraDeps s"

definition ReplicationSlotCreate_Dependencies [simp]: "ReplicationSlotCreate_Dependencies (r :: replication_slot_create) =
  [mk_id ResourceTypeNode (sc_providerName r)]"

definition SyncEvent_Dependencies [simp]: "SyncEvent_Dependencies (r :: sync_event) =
  [mk_id ResourceTypeNode (se_providerName r),
      mk_id ResourceTypeSubscription (spock_sub_name (se_providerName r) (se_subscriberName r))] @ se_extraDeps r"

definition WaitForSyncEvent_Dependencies [simp]: "WaitForSyncEvent_Dependencies (r :: wait_for_sync_event) =
  [mk_id ResourceTypeSyncEvent (pair_id (we_providerName r) (we_subscriberName r))]"

definition LagTrackerCommitTimestamp_Dependencies [simp]: "LagTrackerCommitTimestamp_Dependencies (r :: lag_tracker) =
  [mk_id ResourceTypeNode (lt_receiverName r)] @ lt_extraDeps r"

definition ReplicationSlotAdvanceFromCTS_Dependencies [simp]: "ReplicationSlotAdvanceFromCTS_Dependencies (r :: slot_advance) =
  [mk_id ResourceTypeNode (sa_providerName r),
      mk_id ResourceTypeLagTrackerCommitTS (pair_id (sa_providerName r) (sa_subscriberName r))]"

definition DisabledSubscription_Dependencies [simp]: "DisabledSubscription_Dependencies (s :: disabled_subscription) =
  [mk_id ResourceTypeNode (Name (ds_src s)), mk_id ResourceTypeNode (Name (ds_dst s)),
      mk_id ResourceTypeReplicationSlotCreate (spock_slot_name (ds_dbName s) (Name (ds_src s)) (Name (ds_dst s)))]"

definition ReplicationOriginAdvance_Dependencies [simp]: "ReplicationOriginAdvance_Dependencies (r :: origin_advance) =
  [mk_id ResourceTypeReplicationSlotAdvanceFromCTS (pair_id (oa_providerName r) (oa_subscriberName r))]"

definition PeerCatchup_Dependencies [simp]: "PeerCatchup_Dependencies (r :: peer_catchup) =
  [mk_id ResourceTypeSyncEvent (pair_id (pc_peerName r) (pc_sourceName r))]"

primrec Dependencies :: "object \<Rightarrow> ident list" where
  "Dependencies (OUser u) = PgEdgeUser_Dependencies u"
| "Dependencies (ONode n) = SpockNode_Dependencies n"
| "Dependencies (OSlot r) = ReplicationSlot_Dependencies r"
| "Dependencies (OSub s) = Subscription_Dependencies s"
| "Dependencies (OSlotCreate r) = ReplicationSlotCreate_Dependencies r"
| "Dependencies (OSyncEvent r) = SyncEvent_Dependencies r"
| "Dependencies (OWait r) = WaitForSyncEvent_Dependencies r"
| "Dependencies (OLag r) = LagTrackerCommitTimestamp_Dependencies r"
| "Dependencies (OSlotAdvance r) = ReplicationSlotAdvanceFromCTS_Dependencies r"
| "Dependencies (ODisabled s) = DisabledSubscription_Dependencies s"
| "Dependencies (OOriginAdvance r) = ReplicationOriginAdvance_Dependencies r"
| "Dependencies (OCatchup r) = PeerCatchup_Dependencies r"

primrec Status :: "object \<Rightarrow> status" where
  "Status (OUser u) = pu_status u"
| "Status (ONode n) = sn_status n"
| "Status (OSlot r) = sl_status r"
| "Status (OSub s) = su_status s"
| "Status (OSlotCreate r) = sc_status r"
| "Status (OSyncEvent r) = se_status r"
| "Status (OWait r) = we_status r"
| "Status (OLag r) = lt_status r"
| "Status (OSlotAdvance r) = sa_status r"
| "Status (ODisabled s) = ds_status s"
| "Status (OOriginAdvance r) = oa_status r"
| "Status (OCatchup r) = pc_status r"

text \<open>The assignments the methods make: \<open>r.status = s\<close>, \<open>r.LSN = l\<close> and the like.\<close>

primrec set_status :: "status \<Rightarrow> object \<Rightarrow> object" where
  "set_status s (OUser u) = OUser (u\<lparr>pu_status := s\<rparr>)"
| "set_status s (ONode n) = ONode (n\<lparr>sn_status := s\<rparr>)"
| "set_status s (OSlot r) = OSlot (r\<lparr>sl_status := s\<rparr>)"
| "set_status s (OSub u) = OSub (u\<lparr>su_status := s\<rparr>)"
| "set_status s (OSlotCreate r) = OSlotCreate (r\<lparr>sc_status := s\<rparr>)"
| "set_status s (OSyncEvent r) = OSyncEvent (r\<lparr>se_status := s\<rparr>)"
| "set_status s (OWait r) = OWait (r\<lparr>we_status := s\<rparr>)"
| "set_status s (OLag r) = OLag (r\<lparr>lt_status := s\<rparr>)"
| "set_status s (OSlotAdvance r) = OSlotAdvance (r\<lparr>sa_status := s\<rparr>)"
| "set_status s (ODisabled u) = ODisabled (u\<lparr>ds_status := s\<rparr>)"
| "set_status s (OOriginAdvance r) = OOriginAdvance (r\<lparr>oa_status := s\<rparr>)"
| "set_status s (OCatchup r) = OCatchup (r\<lparr>pc_status := s\<rparr>)"

definition set_LSN :: "string \<Rightarrow> object \<Rightarrow> object" where
  "set_LSN l ob = (case ob of OSyncEvent r \<Rightarrow> OSyncEvent (r\<lparr>se_LSN := l\<rparr>) | _ \<Rightarrow> ob)"

definition set_CommitTS :: "timestamp option \<Rightarrow> object \<Rightarrow> object" where
  "set_CommitTS ts ob = (case ob of OLag r \<Rightarrow> OLag (r\<lparr>lt_CommitTS := ts\<rparr>) | _ \<Rightarrow> ob)"

definition set_AdvancedToLSN :: "string \<Rightarrow> object \<Rightarrow> object" where
  "set_AdvancedToLSN l ob = (case ob of OSlotAdvance r \<Rightarrow> OSlotAdvance (r\<lparr>sa_AdvancedToLSN := l\<rparr>) | _ \<Rightarrow> ob)"

lemma set_status_simps [simp]:
  "Identifier (set_status s ob) = Identifier ob"
  "Dependencies (set_status s ob) = Dependencies ob"
  "Status (set_status s ob) = s"
  by (cases ob; simp add: slotName_def subName_def replicationSlotName_def create_slotName_def disabled_subName_def)+

lemma set_fields_simps [simp]:
  "Identifier (set_LSN l ob) = Identifier ob" "Dependencies (set_LSN l ob) = Dependencies ob"
  "Identifier (set_CommitTS ts ob) = Identifier ob" "Dependencies (set_CommitTS ts ob) = Dependencies ob"
  "Identifier (set_AdvancedToLSN l ob) = Identifier ob" "Dependencies (set_AdvancedToLSN l ob) = Dependencies ob"
  "Status (set_LSN l ob) = Status ob" "Status (set_CommitTS ts ob) = Status ob"
  "Status (set_AdvancedToLSN l ob) = Status ob"
  by (cases ob; simp add: set_LSN_def set_CommitTS_def set_AdvancedToLSN_def advance_slotName_def)+

end
