(* ===== verification/End_State.thy ===== *)
theory End_State
  imports Objects
begin

text \<open>
  The methods of the end-state resources: \<open>user.go\<close>, \<open>node.go\<close>, \<open>replication_slot.go\<close> and
  \<open>subscription.go\<close> of \<open>internal/spock\<close>. A method takes the fields of its receiver, which do not
  change, and its address where it assigns to a field. Log lines are left out.
\<close>

type_synonym object_op = "object op"

definition existing :: "bool \<Rightarrow> status" where
  "existing b = zero_status\<lparr>Exists := b\<rparr>"

definition assign_status :: "ref \<Rightarrow> status \<Rightarrow> object_op" where
  "assign_status r s = Store r (set_status s) ok"

subsection \<open>PgEdgeUser\<close>

definition PgEdgeUser_Refresh :: "ref \<Rightarrow> pgedge_user \<Rightarrow> object_op" where
  "PgEdgeUser_Refresh r u =
     query_bool (PoolQueryRow (pu_conn u) (RoleExists (pu_pgedgeUser u)))
       (''inspect pgedge user on '' @ Name (pu_node u))
       (\<lambda>exists. assign_status r (existing exists))"

definition PgEdgeUser_Create :: "pgedge_user \<Rightarrow> object_op" where
  "PgEdgeUser_Create u = (let name = Name (pu_node u) in
     in_tx (pu_conn u) (''begin tx on '' @ name) (\<lambda>tx.
       exec (TxExec tx RepairMode) (''repair mode on '' @ name) (
       ask (TxExec tx (CreateRole (pu_pgedgeUser u))) (\<lambda>s. case err_of s of
           Some e \<Rightarrow> if is_duplicate e then ok else failed (''create pgedge user on '' @ name) e
         | None \<Rightarrow> exec (TxCommit tx) (''commit pgedge user on '' @ name) ok))))"

definition PgEdgeUser_Update :: "pgedge_user \<Rightarrow> object_op" where
  "PgEdgeUser_Update u = ok"

definition PgEdgeUser_Delete :: "pgedge_user \<Rightarrow> object_op" where
  "PgEdgeUser_Delete u = ok"

subsection \<open>SpockNode\<close>

definition SpockNode_Refresh :: "ref \<Rightarrow> spock_node \<Rightarrow> object_op" where
  "SpockNode_Refresh r n =
     query_bool (PoolQueryRow (sn_conn n) (LocalNodeExists (Name (sn_node n))))
       (''inspect spock node on '' @ Name (sn_node n))
       (\<lambda>exists. assign_status r (existing exists))"

definition SpockNode_Create :: "spock_node \<Rightarrow> object_op" where
  "SpockNode_Create n = (let name = Name (sn_node n) in
     in_tx (sn_conn n) (''begin tx on '' @ name) (\<lambda>tx.
       let dsn = node_dsn (Hostname (sn_node n)) (sn_dbName n) (sn_pgedgeUser n) in
       exec (TxExec tx RepairMode) (''enable repair mode on '' @ name) (
       ask (TxExec tx (NodeCreateIfMissing name dsn)) (\<lambda>s. case err_of s of
           Some e \<Rightarrow> if is_duplicate e then ok else failed (''create spock node '' @ name) e
         | None \<Rightarrow> exec (TxCommit tx) (''commit spock node '' @ name) ok))))"

definition SpockNode_Update :: "spock_node \<Rightarrow> object_op" where
  "SpockNode_Update n = ok"

definition deleteOne :: "spock_node \<Rightarrow> object_op" where
  "deleteOne n = (let name = Name (sn_node n) in
     in_tx (sn_conn n) (''begin delete tx on '' @ name) (\<lambda>tx.
       exec (TxExec tx RepairMode) (''enable repair mode on '' @ name) (
       exec (TxExec tx (NodeDrop name)) (''drop spock node '' @ name) (
       exec (TxCommit tx) (''commit drop spock node '' @ name) ok))))"

definition SpockNode_Delete :: "spock_node \<Rightarrow> object_op" where
  "SpockNode_Delete n = deleteOne n"

subsection \<open>ReplicationSlot\<close>

definition ReplicationSlot_Refresh :: "ref \<Rightarrow> replication_slot \<Rightarrow> object_op" where
  "ReplicationSlot_Refresh r s =
     query_bool (PoolQueryRow (sl_conn s) (SlotExists (slotName s)))
       (''check replication slot '' @ slotName s)
       (\<lambda>exists. assign_status r (existing exists))"

definition ReplicationSlot_Create :: "replication_slot \<Rightarrow> object_op" where
  "ReplicationSlot_Create s = ok"

definition ReplicationSlot_Update :: "replication_slot \<Rightarrow> object_op" where
  "ReplicationSlot_Update s = ok"

definition ReplicationSlot_Delete :: "replication_slot \<Rightarrow> object_op" where
  "ReplicationSlot_Delete s =
     in_tx (sl_conn s) (''begin delete tx for slot '' @ slotName s) (\<lambda>tx.
       exec (TxExec tx (TerminateWalsender (slotName s))) (''terminate walsender for slot '' @ slotName s) (
       query_bool (TxQueryRow tx (SlotExists (slotName s)))
         (''check slot '' @ slotName s @ '' before drop'') (\<lambda>slotExists.
       let commit = exec (TxCommit tx) (''commit drop slot '' @ slotName s) ok in
       if slotExists
       then exec (TxExec tx (DropSlot (slotName s))) (''drop replication slot '' @ slotName s) commit
       else commit)))"

subsection \<open>Subscription\<close>

definition Subscription_Refresh :: "ref \<Rightarrow> subscription \<Rightarrow> object_op" where
  "Subscription_Refresh r s =
     query_bool (PoolQueryRow (su_conn s) (SubExists (subName s))) (''inspect subscription '' @ subName s) (\<lambda>subExists.
       if \<not> subExists then assign_status r (existing False) else
       query_bool (PoolQueryRow (su_conn s) (SubEnabled (subName s))) (''check subscription enabled '' @ subName s) (\<lambda>isEnabled.
         if \<not> isEnabled
         then assign_status r (zero_status\<lparr>Exists := True, NeedsUpdate := True, Reason := ''subscription is disabled''\<rparr>)
         else assign_status r (existing True)))"

definition Subscription_Create :: "subscription \<Rightarrow> object_op" where
  "Subscription_Create s =
     in_tx (su_conn s) (''begin tx for subscription '' @ subName s) (\<lambda>tx.
       let dsn = node_dsn (Hostname (su_src s)) (su_dbName s) (su_pgedgeUser s) in
       exec (TxExec tx RepairMode) (''repair mode for subscription '' @ subName s) (
       query_bool (TxQueryRow tx (SubDisabledExists (subName s))) (''check disabled subscription '' @ subName s) (\<lambda>existsDisabled.
       if existsDisabled then
         exec (TxExec tx (SubEnable (subName s))) (''enable subscription '' @ subName s) (
         exec (TxCommit tx) (''commit enable subscription '' @ subName s) ok)
       else
         ask (TxExec tx (SubCreate (subName s) dsn (su_sync s))) (\<lambda>re. case err_of re of
             Some e \<Rightarrow> if is_duplicate e then ok else failed (''create subscription '' @ subName s) e
           | None \<Rightarrow> exec (TxCommit tx) (''commit subscription '' @ subName s) ok))))"

definition Subscription_Update :: "subscription \<Rightarrow> object_op" where
  "Subscription_Update s =
     in_tx (su_conn s) (''begin tx for subscription update '' @ subName s) (\<lambda>tx.
       exec (TxExec tx RepairMode) (''repair mode for subscription update '' @ subName s) (
       exec (TxExec tx (SubEnable (subName s))) (''enable subscription '' @ subName s) (
       exec (TxCommit tx) (''commit subscription update '' @ subName s) ok)))"

definition Subscription_Delete :: "subscription \<Rightarrow> object_op" where
  "Subscription_Delete s =
     in_tx (su_conn s) (''begin delete tx for '' @ subName s) (\<lambda>tx.
       exec (TxExec tx RepairMode) (''repair mode for drop '' @ subName s) (
       exec (TxExec tx (SubDrop (subName s))) (''drop subscription '' @ subName s) (
       exec (TxCommit tx) (''commit drop subscription '' @ subName s) ok)))"

lemmas end_state_refresh_defs = PgEdgeUser_Refresh_def SpockNode_Refresh_def ReplicationSlot_Refresh_def
  Subscription_Refresh_def assign_status_def
lemmas end_state_noop_defs = PgEdgeUser_Update_def PgEdgeUser_Delete_def SpockNode_Update_def
  ReplicationSlot_Create_def ReplicationSlot_Update_def
lemmas end_state_tx_defs = PgEdgeUser_Create_def SpockNode_Create_def SpockNode_Delete_def deleteOne_def
  ReplicationSlot_Delete_def Subscription_Create_def Subscription_Update_def Subscription_Delete_def

end
