(* ===== verification/Populate.thy ===== *)
theory Populate
  imports End_State
begin

text \<open>
  The methods of the populate resources of \<open>internal/spock\<close>, which exist only while a node is
  added: \<open>replication_slot_create.go\<close>, \<open>sync_event.go\<close>, \<open>wait_for_sync_event.go\<close>,
  \<open>peer_catchup.go\<close>, \<open>lag_tracker_commit_ts.go\<close>, \<open>replication_slot_advance.go\<close>,
  \<open>replication_origin_advance.go\<close>, \<open>disabled_subscription.go\<close>. Their \<open>Refresh\<close> always says
  that they do not exist (\<open>ephemeral_Refresh\<close>), \<open>Update\<close> and \<open>Delete\<close> do nothing
  (\<open>no_op\<close>). They hand values on through pointers: a read of another resource's field is a
  \<open>Load\<close> where the code has it. The two polling loops take a bound of iterations and are
  \<open>Spin\<close> when it is used up.
\<close>

definition ephemeral_Refresh :: "ref \<Rightarrow> object_op" where
  "ephemeral_Refresh r = assign_status r (existing False)"

definition no_op :: object_op where
  "no_op = ok"

subsection \<open>ReplicationSlotCreate\<close>

definition ReplicationSlotCreate_Create :: "replication_slot_create \<Rightarrow> object_op" where
  "ReplicationSlotCreate_Create r =
     query_bool (PoolQueryRow (sc_conn r) (SlotExists (create_slotName r))) (''check slot '' @ create_slotName r) (\<lambda>exists.
       if exists then ok
       else exec (PoolExec (sc_conn r) (CreateSlot (create_slotName r)))
              (''create replication slot '' @ create_slotName r) ok)"

subsection \<open>SyncEvent\<close>

definition SyncEvent_Create :: "ref \<Rightarrow> sync_event \<Rightarrow> object_op" where
  "SyncEvent_Create r e =
     in_tx (se_conn e) (''begin tx for sync event '' @ se_providerName e @ arrow @ se_subscriberName e) (\<lambda>tx.
       exec (TxExec tx RepairMode) ''repair mode for sync event'' (
       query_text (TxQueryRow tx SendSyncEvent) (''sync event on '' @ se_providerName e) (\<lambda>lsn.
       Store r (set_LSN lsn) (
       exec (TxCommit tx) ''commit sync event'' ok))))"

text \<open>Reading the LSN through the pointer to a \<open>SyncEvent\<close>.\<close>

definition load_LSN :: "ref \<Rightarrow> (string \<Rightarrow> object_op) \<Rightarrow> object_op" where
  "load_LSN r k = Load r (\<lambda>ob. case ob of OSyncEvent e \<Rightarrow> k (se_LSN e) | _ \<Rightarrow> Panic)"

subsection \<open>WaitForSyncEvent\<close>

definition syncEventTimeout :: nat where
  "syncEventTimeout = 10"

text \<open>\<open>select { case <-ctx.Done(): return ctx.Err(); case <-time.After(d): }\<close>\<close>

definition done_or_after :: "nat \<Rightarrow> object_op \<Rightarrow> object_op" where
  "done_or_after ms p = ask (DoneOrAfter ms) (\<lambda>s. case s of
       RDone \<Rightarrow> ask ContextErr (\<lambda>s. Return (err_of s))
     | _ \<Rightarrow> p)"

primrec wait_loop :: "nat \<Rightarrow> wait_for_sync_event \<Rightarrow> ref \<Rightarrow> object_op" where
  "wait_loop 0 r evt = Spin"
| "wait_loop (Suc fuel) r evt =
     ask ContextErr (\<lambda>s. case err_of s of
       Some e \<Rightarrow> ask ContextErr (\<lambda>s. Return (err_of s))
     | None \<Rightarrow>
         (let pair = we_providerName r @ arrow @ we_subscriberName r;
              wait = load_LSN evt (\<lambda>lsn.
                query_bool (PoolQueryRow (we_conn r) (WaitSyncEvent (we_providerName r) lsn syncEventTimeout))
                  (''wait_for_sync_event for '' @ pair)
                  (\<lambda>synced. if synced then ok else wait_loop fuel r evt))
          in ask (PoolQueryRow (we_conn r) (SubStatus (spock_sub_name (we_providerName r) (we_subscriberName r)))) (\<lambda>s.
             case scan_text s of
               Inl e \<Rightarrow> wait
             | Inr st \<Rightarrow>
                 if st \<in> {''initializing'', ''replicating'', ''unknown''} then wait
                 else if st \<in> {''disabled'', ''down''}
                 then done_or_after (syncEventTimeout * 1000) (wait_loop fuel r evt)
                 else fail (Errorf (''subscription has unhealthy status '' @ quoted st @ '': provider='' @
                   we_providerName r @ '' subscriber='' @ we_subscriberName r)))))"

definition WaitForSyncEvent_Create :: "nat \<Rightarrow> wait_for_sync_event \<Rightarrow> object_op" where
  "WaitForSyncEvent_Create fuel r =
     (let no_lsn = fail (Errorf (''sync event LSN not available for '' @ we_providerName r @ arrow @ we_subscriberName r))
      in case we_syncEvent r of
           None \<Rightarrow> no_lsn
         | Some evt \<Rightarrow> load_LSN evt (\<lambda>lsn. if lsn = '''' then no_lsn else wait_loop fuel r evt))"

subsection \<open>PeerCatchup\<close>

definition peerCatchupPollInterval :: nat where
  "peerCatchupPollInterval = 500"

primrec catchup_loop :: "nat \<Rightarrow> peer_catchup \<Rightarrow> ref \<Rightarrow> object_op" where
  "catchup_loop 0 r evt = Spin"
| "catchup_loop (Suc fuel) r evt =
     ask ContextErr (\<lambda>s. case err_of s of
       Some e \<Rightarrow> fail e
     | None \<Rightarrow> load_LSN evt (\<lambda>lsn.
         query_bool (PoolQueryRow (pc_conn r) (ProgressReached lsn (pc_peerName r)))
           (''query spock.progress on '' @ pc_sourceName r @ '' for peer '' @ pc_peerName r)
           (\<lambda>reached. if reached then ok
              else done_or_after peerCatchupPollInterval (catchup_loop fuel r evt))))"

definition PeerCatchup_Create :: "nat \<Rightarrow> peer_catchup \<Rightarrow> object_op" where
  "PeerCatchup_Create fuel r =
     (let no_lsn = fail (Errorf (''sync event LSN not available for peer catchup '' @ pc_peerName r @ arrow @ pc_sourceName r))
      in case pc_syncEvent r of
           None \<Rightarrow> no_lsn
         | Some evt \<Rightarrow> load_LSN evt (\<lambda>lsn. if lsn = '''' then no_lsn else catchup_loop fuel r evt))"

subsection \<open>LagTrackerCommitTimestamp\<close>

definition LagTrackerCommitTimestamp_Create :: "ref \<Rightarrow> lag_tracker \<Rightarrow> object_op" where
  "LagTrackerCommitTimestamp_Create r t =
     ask (PoolQueryRow (lt_conn t) (CommitTimestamp (lt_originName t) (lt_receiverName t))) (\<lambda>s.
       case scan_time s of
         Inl e \<Rightarrow> if errors_is_no_rows e then Store r (set_CommitTS None) ok
                  else failed (''query lag tracker '' @ lt_originName t @ arrow @ lt_receiverName t) e
       | Inr ts \<Rightarrow> Store r (set_CommitTS (Some ts)) ok)"

subsection \<open>ReplicationSlotAdvanceFromCTS\<close>

text \<open>A timestamp is the number of nanoseconds since Go's zero time, so \<open>IsZero\<close> is \<open>= 0\<close>.\<close>

definition load_CommitTS :: "ref option \<Rightarrow> (timestamp option \<Rightarrow> object_op) \<Rightarrow> object_op" where
  "load_CommitTS lag k = (case lag of
       None \<Rightarrow> k None
     | Some r \<Rightarrow> Load r (\<lambda>ob. case ob of OLag t \<Rightarrow> k (lt_CommitTS t) | _ \<Rightarrow> Panic))"

definition ReplicationSlotAdvanceFromCTS_Create :: "ref \<Rightarrow> slot_advance \<Rightarrow> object_op" where
  "ReplicationSlotAdvanceFromCTS_Create r a = (let slot = advance_slotName a; c = sa_conn a in
     Store r (set_AdvancedToLSN '''') (
     load_CommitTS (sa_lagTracker a) (\<lambda>cts.
       if cts = None \<or> cts = Some 0 then ok else
       load_CommitTS (sa_lagTracker a) (\<lambda>cts. case cts of None \<Rightarrow> Panic | Some ts \<Rightarrow>
       query_text (PoolQueryRow c (LsnFromCommitTs slot ts)) (''get target LSN from commit_ts for '' @ slot) (\<lambda>target.
       query_bool (PoolQueryRow c (SlotActive slot)) (''check slot active '' @ slot) (\<lambda>isActive.
       if isActive then ok else
       query_text (PoolQueryRow c (SlotRestartLsn slot)) (''read current slot lsn '' @ slot) (\<lambda>current.
       query_bool (PoolQueryRow c (LsnAtOrBefore target current)) (''compare slot lsn '' @ slot) (\<lambda>atOrBefore.
       if atOrBefore then ok else
       exec (PoolExec c (SlotAdvance slot target)) (''advance slot '' @ slot @ '' to '' @ target) (
       Store r (set_AdvancedToLSN target) ok)))))))))"

subsection \<open>ReplicationOriginAdvance\<close>

definition load_AdvancedToLSN :: "ref option \<Rightarrow> (string \<Rightarrow> object_op) \<Rightarrow> object_op" where
  "load_AdvancedToLSN adv k = (case adv of
       None \<Rightarrow> k ''''
     | Some r \<Rightarrow> Load r (\<lambda>ob. case ob of OSlotAdvance a \<Rightarrow> k (sa_AdvancedToLSN a) | _ \<Rightarrow> Panic))"

definition ReplicationOriginAdvance_Create :: "origin_advance \<Rightarrow> object_op" where
  "ReplicationOriginAdvance_Create r =
     load_AdvancedToLSN (oa_slotAdvance r) (\<lambda>lsn0.
       if lsn0 = '''' then ok else
       load_AdvancedToLSN (oa_slotAdvance r) (\<lambda>target.
       exec (PoolExec (oa_conn r) (OriginCreate (originName r))) (''ensure replication origin '' @ originName r) (
       exec (PoolExec (oa_conn r) (OriginAdvance (originName r) target))
         (''advance replication origin '' @ originName r @ '' to '' @ target) ok)))"

subsection \<open>DisabledSubscription\<close>

definition DisabledSubscription_Create :: "disabled_subscription \<Rightarrow> object_op" where
  "DisabledSubscription_Create s = (let name = disabled_subName s in
     in_tx (ds_conn s) (''begin tx for disabled subscription '' @ name) (\<lambda>tx.
       let dsn = node_dsn (Hostname (ds_src s)) (ds_dbName s) (ds_pgedgeUser s);
           commit = exec (TxCommit tx) (''commit disabled subscription '' @ name) ok in
       exec (TxExec tx RepairMode) (''repair mode for disabled subscription '' @ name) (
       ask (TxExec tx (SubCreateDisabled name dsn)) (\<lambda>re. case err_of re of
           Some e \<Rightarrow> if is_duplicate e then commit else failed (''create disabled subscription '' @ name) e
         | None \<Rightarrow> commit))))"

lemmas populate_defs = ReplicationSlotCreate_Create_def SyncEvent_Create_def WaitForSyncEvent_Create_def
  PeerCatchup_Create_def LagTrackerCommitTimestamp_Create_def ReplicationSlotAdvanceFromCTS_Create_def
  ReplicationOriginAdvance_Create_def DisabledSubscription_Create_def

end
