(* ===== verification/Spock_Methods.thy ===== *)
theory Spock_Methods
  imports Populate Resource_Laws
begin

text \<open>
  The method table of the resources of \<open>internal/spock\<close>: what a call of \<open>resource.Resource\<close>'s
  methods on a pointer does, by the dynamic type of the object.
\<close>

text \<open>The call on an object of each type, and the methods, which look at the object first.\<close>

primrec refresh_of :: "ref \<Rightarrow> object \<Rightarrow> object_op" where
  "refresh_of r (OUser u) = PgEdgeUser_Refresh r u"
| "refresh_of r (ONode n) = SpockNode_Refresh r n"
| "refresh_of r (OSlot s) = ReplicationSlot_Refresh r s"
| "refresh_of r (OSub s) = Subscription_Refresh r s"
| "refresh_of r (OSlotCreate s) = ephemeral_Refresh r"
| "refresh_of r (OSyncEvent e) = ephemeral_Refresh r"
| "refresh_of r (OWait v) = ephemeral_Refresh r"
| "refresh_of r (OLag t) = ephemeral_Refresh r"
| "refresh_of r (OSlotAdvance a) = ephemeral_Refresh r"
| "refresh_of r (ODisabled s) = ephemeral_Refresh r"
| "refresh_of r (OOriginAdvance a) = ephemeral_Refresh r"
| "refresh_of r (OCatchup v) = ephemeral_Refresh r"

primrec create_of :: "nat \<Rightarrow> ref \<Rightarrow> object \<Rightarrow> object_op" where
  "create_of fuel r (OUser u) = PgEdgeUser_Create u"
| "create_of fuel r (ONode n) = SpockNode_Create n"
| "create_of fuel r (OSlot s) = ReplicationSlot_Create s"
| "create_of fuel r (OSub s) = Subscription_Create s"
| "create_of fuel r (OSlotCreate s) = ReplicationSlotCreate_Create s"
| "create_of fuel r (OSyncEvent e) = SyncEvent_Create r e"
| "create_of fuel r (OWait v) = WaitForSyncEvent_Create fuel v"
| "create_of fuel r (OLag t) = LagTrackerCommitTimestamp_Create r t"
| "create_of fuel r (OSlotAdvance a) = ReplicationSlotAdvanceFromCTS_Create r a"
| "create_of fuel r (ODisabled s) = DisabledSubscription_Create s"
| "create_of fuel r (OOriginAdvance a) = ReplicationOriginAdvance_Create a"
| "create_of fuel r (OCatchup v) = PeerCatchup_Create fuel v"

primrec update_of :: "object \<Rightarrow> object_op" where
  "update_of (OUser u) = PgEdgeUser_Update u"
| "update_of (ONode n) = SpockNode_Update n"
| "update_of (OSlot s) = ReplicationSlot_Update s"
| "update_of (OSub s) = Subscription_Update s"
| "update_of (OSlotCreate s) = no_op"
| "update_of (OSyncEvent e) = no_op"
| "update_of (OWait v) = no_op"
| "update_of (OLag t) = no_op"
| "update_of (OSlotAdvance a) = no_op"
| "update_of (ODisabled s) = no_op"
| "update_of (OOriginAdvance a) = no_op"
| "update_of (OCatchup v) = no_op"

primrec delete_of :: "object \<Rightarrow> object_op" where
  "delete_of (OUser u) = PgEdgeUser_Delete u"
| "delete_of (ONode n) = SpockNode_Delete n"
| "delete_of (OSlot s) = ReplicationSlot_Delete s"
| "delete_of (OSub s) = Subscription_Delete s"
| "delete_of (OSlotCreate s) = no_op"
| "delete_of (OSyncEvent e) = no_op"
| "delete_of (OWait v) = no_op"
| "delete_of (OLag t) = no_op"
| "delete_of (OSlotAdvance a) = no_op"
| "delete_of (ODisabled s) = no_op"
| "delete_of (OOriginAdvance a) = no_op"
| "delete_of (OCatchup v) = no_op"

definition Refresh :: "ref \<Rightarrow> object_op" where
  "Refresh r = Load r (refresh_of r)"

definition Create :: "nat \<Rightarrow> ref \<Rightarrow> object_op" where
  "Create fuel r = Load r (create_of fuel r)"

definition Update :: "ref \<Rightarrow> object_op" where
  "Update r = Load r update_of"

definition Delete :: "ref \<Rightarrow> object_op" where
  "Delete r = Load r delete_of"

definition spock_methods :: "nat \<Rightarrow> (request, reply, object, ref) methods" where
  "spock_methods fuel =
     \<lparr>m_Identifier = (\<lambda>h r. Identifier (h ! r)), m_Dependencies = (\<lambda>h r. Dependencies (h ! r)),
      m_Refresh = Refresh, m_Status = (\<lambda>h r. Status (h ! r)),
      m_Create = Create fuel, m_Update = Update, m_Delete = Delete\<rparr>"

lemma spock_methods_simps [simp]:
  "m_Identifier (spock_methods fuel) h r = Identifier (h ! r)"
  "m_Dependencies (spock_methods fuel) h r = Dependencies (h ! r)"
  "m_Refresh (spock_methods fuel) = Refresh"
  "m_Status (spock_methods fuel) h r = Status (h ! r)"
  "m_Create (spock_methods fuel) = Create fuel"
  "m_Update (spock_methods fuel) = Update"
  "m_Delete (spock_methods fuel) = Delete"
  by (simp_all add: spock_methods_def)

subsection \<open>The laws of the interface\<close>

text \<open>The object a resource points to.\<close>

primrec pointer :: "object \<Rightarrow> ref option" where
  "pointer (OUser u) = None"
| "pointer (ONode n) = None"
| "pointer (OSlot s) = None"
| "pointer (OSub s) = None"
| "pointer (OSlotCreate s) = None"
| "pointer (OSyncEvent e) = None"
| "pointer (OWait v) = we_syncEvent v"
| "pointer (OLag t) = None"
| "pointer (OSlotAdvance a) = sa_lagTracker a"
| "pointer (ODisabled s) = None"
| "pointer (OOriginAdvance a) = oa_slotAdvance a"
| "pointer (OCatchup v) = pc_syncEvent v"

definition same_identity :: "object \<Rightarrow> object \<Rightarrow> bool" where
  "same_identity x y \<longleftrightarrow> Identifier x = Identifier y \<and> Dependencies x = Dependencies y \<and> pointer x = pointer y"

definition peeks :: "heap \<Rightarrow> ref \<Rightarrow> ref set" where
  "peeks h r = (if r < length h then set_option (pointer (h ! r)) else UNIV)"

lemma same_identity_updates [simp]:
  "same_identity x (set_status s x)" "same_identity x (set_LSN l x)" "same_identity x (set_CommitTS ts x)"
  "same_identity x (set_AdvancedToLSN l x)"
proof -
  have "pointer (set_status s x) = pointer x" by (cases x) simp_all
  then show "same_identity x (set_status s x)" by (simp add: same_identity_def)
  have "pointer (set_LSN l x) = pointer x" "pointer (set_CommitTS ts x) = pointer x"
    "pointer (set_AdvancedToLSN l x) = pointer x"
    by (cases x; simp add: set_LSN_def set_CommitTS_def set_AdvancedToLSN_def)+
  then show "same_identity x (set_LSN l x)" "same_identity x (set_CommitTS ts x)"
    "same_identity x (set_AdvancedToLSN l x)"
    by (simp_all add: same_identity_def)
qed

text \<open>
  A program that writes only the object at \<open>r\<close>, keeping its identity, and reads only that and the
  objects in \<open>R\<close>.
\<close>

definition confined :: "(ref \<Rightarrow> object \<Rightarrow> bool) \<Rightarrow> ref \<Rightarrow> ref set \<Rightarrow> (object, 'b) program \<Rightarrow> bool" where
  "confined I r R p \<longleftrightarrow> stores_keep same_identity p \<and> writes_only {r} p \<and> reads_only I (insert r R) p"

named_theorems confined_intros "how the program combinators confine the effects of a method"

lemma confined_basic [confined_intros]:
  "confined I r R (Return a)" "confined I r R Panic" "confined I r R Spin" "confined I r R (failed msg e)"
  by (simp_all add: confined_def failed_def)

lemma confined_ask [confined_intros]: "(\<And>s. confined I r R (k s)) \<Longrightarrow> confined I r R (ask q k)"
  by (auto simp: confined_def ask_def split: reply.split)

lemma confined_cases [confined_intros]:
  "confined I r R a \<Longrightarrow> confined I r R b \<Longrightarrow> confined I r R (if P then a else b)"
  "(\<And>e. confined I r R (f e)) \<Longrightarrow> confined I r R a \<Longrightarrow> confined I r R (case err of Some e \<Rightarrow> f e | None \<Rightarrow> a)"
  "(\<And>e. confined I r R (g e)) \<Longrightarrow> (\<And>x. confined I r R (k x)) \<Longrightarrow> confined I r R (case v of Inl e \<Rightarrow> g e | Inr x \<Rightarrow> k x)"
  by (auto split: option.split sum.split)

lemma confined_calls [confined_intros]:
  "confined I r R p \<Longrightarrow> confined I r R (exec q msg p)"
  "(\<And>b. confined I r R (kb b)) \<Longrightarrow> confined I r R (query_bool q msg kb)"
  "(\<And>t. confined I r R (kt t)) \<Longrightarrow> confined I r R (query_text q msg kt)"
  unfolding exec_def query_bool_def query_text_def unless_def scanned_def by (intro confined_intros; assumption)+

lemma confined_in_tx [confined_intros]:
  assumes "\<And>t. confined I r R (body t)"
  shows "confined I r R (in_tx c msg body)"
proof -
  have "confined I r R (Effects.bind (body t) (\<lambda>res. ask (TxRollback t) (\<lambda>_. Return res)))" for t
    using assms[of t] confined_intros(1,5)
    unfolding confined_def by (intro conjI stores_keep_bind writes_only_bind reads_only_bind) (auto simp: ask_def split: reply.split)
  then show ?thesis
    unfolding in_tx_def by (intro confined_ask) (auto split: reply.split intro: confined_intros)
qed

lemma confined_store [confined_intros]:
  "confined I r R p \<Longrightarrow> (\<And>x. same_identity x (f x)) \<Longrightarrow> confined I r R (Store r f p)"
  by (simp add: confined_def)

lemma confined_loads [confined_intros]:
  "evt \<in> R \<Longrightarrow> (\<And>l. confined I r R (k l)) \<Longrightarrow> confined I r R (load_LSN evt k)"
  "set_option lag \<subseteq> R \<Longrightarrow> (\<And>ts. confined I r R (k' ts)) \<Longrightarrow> confined I r R (load_CommitTS lag k')"
  "set_option lag \<subseteq> R \<Longrightarrow> (\<And>l. confined I r R (k l)) \<Longrightarrow> confined I r R (load_AdvancedToLSN lag k)"
  by (auto simp: confined_def load_LSN_def load_CommitTS_def load_AdvancedToLSN_def split: option.split object.split)

lemma confined_done_or_after [confined_intros]: "confined I r R p \<Longrightarrow> confined I r R (done_or_after n p)"
  unfolding done_or_after_def by (intro confined_ask) (auto split: reply.split intro: confined_intros)

lemma confined_loops:
  "evt \<in> R \<Longrightarrow> confined I r R (wait_loop fuel v evt)" "evt \<in> R \<Longrightarrow> confined I r R (catchup_loop fuel u evt)"
  by (induction fuel) (auto simp: Let_def intro!: confined_intros)

lemma confined_refresh_of: "confined I r R (refresh_of r ob)"
  by (cases ob; simp only: refresh_of.simps end_state_refresh_defs ephemeral_Refresh_def;
      intro confined_intros same_identity_updates)

lemma confined_update_of: "confined I r R (update_of ob)"
  by (cases ob; simp only: update_of.simps end_state_noop_defs end_state_tx_defs no_op_def;
      intro confined_intros)

lemma confined_delete_of: "confined I r R (delete_of ob)"
  by (cases ob; simp only: delete_of.simps end_state_noop_defs end_state_tx_defs no_op_def Let_def;
      intro confined_intros)

lemma confined_create_of:
  assumes "set_option (pointer ob) \<subseteq> R"
  shows "confined I r R (create_of fuel r ob)"
proof (cases ob)
  case (OWait v)
  with assms show ?thesis unfolding OWait create_of.simps WaitForSyncEvent_Create_def Let_def
    by (cases "we_syncEvent v") (auto intro!: confined_intros confined_loops)
next
  case (OCatchup v)
  with assms show ?thesis unfolding OCatchup create_of.simps PeerCatchup_Create_def Let_def
    by (cases "pc_syncEvent v") (auto intro!: confined_intros confined_loops)
next
  case (OLag t)
  show ?thesis unfolding OLag create_of.simps LagTrackerCommitTimestamp_Create_def
    by (intro confined_intros same_identity_updates)
next
  case (OSlotAdvance a)
  with assms show ?thesis unfolding OSlotAdvance create_of.simps ReplicationSlotAdvanceFromCTS_Create_def Let_def
    by (intro confined_intros same_identity_updates) simp_all
next
  case (OOriginAdvance a)
  with assms show ?thesis unfolding OOriginAdvance create_of.simps ReplicationOriginAdvance_Create_def
    by (intro confined_intros) simp_all
next
  case (OSyncEvent e)
  show ?thesis unfolding OSyncEvent create_of.simps SyncEvent_Create_def
    by (intro confined_intros same_identity_updates)
qed (simp_all only: create_of.simps end_state_noop_defs end_state_tx_defs ReplicationSlotCreate_Create_def
      DisabledSubscription_Create_def Let_def; intro confined_intros)+

lemma confined_methods:
  assumes "op \<in> {Refresh r, Create fuel r, Update r, Delete r}"
  shows "stores_keep same_identity op \<and> writes_only {r} op"
proof -
  have "confined (\<lambda>i x. True) r UNIV (refresh_of r ob) \<and> confined (\<lambda>i x. True) r UNIV (create_of fuel r ob) \<and>
      confined (\<lambda>i x. True) r UNIV (update_of ob) \<and> confined (\<lambda>i x. True) r UNIV (delete_of ob)" for ob
    by (intro conjI confined_refresh_of confined_create_of confined_update_of confined_delete_of) simp
  with assms show ?thesis
    unfolding Refresh_def Create_def Update_def Delete_def by (auto simp: confined_def)
qed

lemma confined_reads:
  assumes "op \<in> {Create fuel r, Update r, Delete r}"
  shows "reads_only (\<lambda>i x. i < length h \<longrightarrow> same_identity (h ! i) x) (insert r (peeks h r)) op"
proof -
  let ?I = "\<lambda>i x. i < length h \<longrightarrow> same_identity (h ! i) x"
  have "confined ?I r (peeks h r) (create_of fuel r ob)" if "?I r ob" for ob
    using that by (intro confined_create_of) (auto simp: peeks_def same_identity_def)
  moreover have "confined ?I r (peeks h r) (update_of ob)" "confined ?I r (peeks h r) (delete_of ob)" for ob
    by (rule confined_update_of confined_delete_of)+
  ultimately show ?thesis
    using assms unfolding Create_def Update_def Delete_def by (auto simp: confined_def)
qed

lemma nth_outside: "length xs = length ys \<Longrightarrow> length xs \<le> n \<Longrightarrow> xs ! n = ys ! n"
proof (induction xs ys arbitrary: n rule: list_induct2)
  case (Cons x xs y ys)
  then show ?case by (cases n) auto
qed simp

lemma same_identity_at: "list_all2 same_identity h h' \<Longrightarrow> same_identity (h ! r) (h' ! r)"
proof (cases "r < length h")
  case False
  assume "list_all2 same_identity h h'"
  then have "h ! r = h' ! r" using False by (intro nth_outside) (auto dest: list_all2_lengthD)
  then show ?thesis by (simp add: same_identity_def)
qed (simp add: list_all2_conv_all_nth)

text \<open>The resources of \<open>internal/spock\<close> satisfy the laws.\<close>

interpretation spock: resource_methods "spock_methods fuel" same_identity "\<lambda>r. r" peeks for fuel
proof
  show "reflp same_identity" "transp same_identity"
    by (auto simp: reflp_def transp_def same_identity_def)
qed (use same_identity_at confined_methods confined_reads in \<open>auto simp: same_identity_def\<close>)

end
