(* ===== verification/Transactions.thy ===== *)
theory Transactions
  imports Spock_Methods
begin

text \<open>
  The operations of the resources keep to the transaction protocol of theory Calls, with one
  exception: \<open>Create\<close> of a \<open>DisabledSubscription\<close> commits after a statement that failed.
\<close>

subsection \<open>How the combinators keep the protocol\<close>

named_theorems tx_intros "how the program combinators keep the transaction protocol"

text \<open>The rest of a transaction with the deferred rollback behind it.\<close>

definition tx_body :: "tx \<Rightarrow> object_op \<Rightarrow> tx_state \<Rightarrow> bool" where
  "tx_body t p st \<longleftrightarrow> tx_safe (Effects.bind p (\<lambda>res. ask (TxRollback t) (\<lambda>_. Return res))) st"

lemma tx_safe_ask:
  assumes "\<And>s. s \<noteq> RPanic \<Longrightarrow> \<exists>st'. tx_next st q s = Some st' \<and> tx_safe (k s) st'"
    and "tx_next st q RPanic \<noteq> None"
  shows "tx_safe (ask q k) st"
proof -
  have "case tx_next st q s of None \<Rightarrow> False
      | Some st' \<Rightarrow> tx_safe (case s of RPanic \<Rightarrow> Panic | _ \<Rightarrow> k s) st'" for s
    using assms(1)[of s] assms(2) by (cases s) auto
  then show ?thesis by (simp add: ask_def)
qed

lemma tx_body_return [tx_intros]: "st \<in> {Open t, Failed t, Committed t} \<Longrightarrow> tx_body t (Return a) st"
  unfolding tx_body_def Effects.bind.simps by (rule tx_safe_ask) auto

lemma tx_body_stmt:
  assumes "q = TxExec t stm \<or> q = TxQueryRow t stm"
    and "\<And>s. err_of s = None \<Longrightarrow> tx_body t (k s) (Open t)" and "\<And>s. err_of s \<noteq> None \<Longrightarrow> tx_body t (k s) (Failed t)"
  shows "tx_body t (ask q k) (Open t)"
  unfolding tx_body_def bind_ask
  by (rule tx_safe_ask) (use assms in \<open>auto simp: tx_body_def\<close>)

lemma tx_body_exec [tx_intros]:
  "tx_body t p (Open t) \<Longrightarrow> tx_body t (exec (TxExec t stm) msg p) (Open t)"
  unfolding exec_def
  by (rule tx_body_stmt) (auto simp: unless_def failed_def intro: tx_intros)

lemma tx_body_query_bool [tx_intros]:
  "(\<And>b. tx_body t (k b) (Open t)) \<Longrightarrow> tx_body t (query_bool (TxQueryRow t stm) msg k) (Open t)"
  unfolding query_bool_def
  by (rule tx_body_stmt) (auto simp: scanned_def failed_def scan_defs intro: tx_intros split: reply.splits)

lemma tx_body_query_text [tx_intros]:
  "(\<And>b. tx_body t (k b) (Open t)) \<Longrightarrow> tx_body t (query_text (TxQueryRow t stm) msg k) (Open t)"
  unfolding query_text_def
  by (rule tx_body_stmt) (auto simp: scanned_def failed_def scan_defs intro: tx_intros split: reply.splits)

lemma tx_body_commit [tx_intros]: "tx_body t (exec (TxCommit t) msg ok) (Open t)"
  unfolding exec_def tx_body_def bind_ask
  by (rule tx_safe_ask)
    (auto simp: unless_def failed_def tx_body_def[symmetric] intro: tx_intros split: option.split)

lemma tx_body_store [tx_intros]: "tx_body t p st \<Longrightarrow> tx_body t (Store r f p) st"
  by (simp add: tx_body_def)

lemma tx_safe_in_tx [tx_intros]:
  assumes "\<And>t. tx_body t (body t) (Open t)"
  shows "tx_safe (in_tx c msg body) NoTx"
  unfolding in_tx_def
  by (rule tx_safe_ask) (use assms in \<open>auto simp: tx_body_def failed_def split: reply.splits\<close>)

text \<open>Calls outside a transaction.\<close>

definition plain_call :: "request \<Rightarrow> bool" where
  "plain_call q \<longleftrightarrow> (\<forall>s. tx_next NoTx q s = Some NoTx)"

lemma plain_calls [simp]:
  "plain_call (PoolExec c q)" "plain_call (PoolQueryRow c q)" "plain_call (PoolQuery c q)"
  "plain_call ContextErr" "plain_call (DoneOrAfter n)"
  by (simp_all add: plain_call_def)

lemma tx_safe_plain [tx_intros]:
  "plain_call q \<Longrightarrow> (\<And>s. tx_safe (k s) NoTx) \<Longrightarrow> tx_safe (ask q k) NoTx"
  by (rule tx_safe_ask) (simp_all add: plain_call_def)

lemma tx_safe_plain_exec [tx_intros]:
  "plain_call q \<Longrightarrow> tx_safe p NoTx \<Longrightarrow> tx_safe (exec q msg p) NoTx"
  unfolding exec_def by (rule tx_safe_plain) (auto simp: unless_def failed_def split: option.split)

lemma tx_safe_plain_bool [tx_intros]:
  "plain_call q \<Longrightarrow> (\<And>b. tx_safe (k b) NoTx) \<Longrightarrow> tx_safe (query_bool q msg k) NoTx"
  unfolding query_bool_def by (rule tx_safe_plain) (auto simp: scanned_def failed_def split: sum.split)

lemma tx_safe_plain_text [tx_intros]:
  "plain_call q \<Longrightarrow> (\<And>b. tx_safe (k b) NoTx) \<Longrightarrow> tx_safe (query_text q msg k) NoTx"
  unfolding query_text_def by (rule tx_safe_plain) (auto simp: scanned_def failed_def split: sum.split)


subsection \<open>Every operation keeps to the protocol\<close>

lemma tx_safe_store [tx_intros]: "tx_safe p st \<Longrightarrow> tx_safe (Store r f p) st"
  by simp

lemma tx_safe_return [tx_intros]: "tx_safe (Return a) NoTx"
  by simp

lemma tx_safe_load_LSN [tx_intros]: "(\<And>l. tx_safe (k l) st) \<Longrightarrow> tx_safe (load_LSN r k) st"
  by (simp add: load_LSN_def split: object.split)

lemma tx_safe_load_CommitTS [tx_intros]: "(\<And>l. tx_safe (k l) st) \<Longrightarrow> tx_safe (load_CommitTS r k) st"
  by (simp add: load_CommitTS_def split: object.split option.split)

lemma tx_safe_load_AdvancedToLSN [tx_intros]: "(\<And>l. tx_safe (k l) st) \<Longrightarrow> tx_safe (load_AdvancedToLSN r k) st"
  by (simp add: load_AdvancedToLSN_def split: object.split option.split)

lemma tx_safe_done_or_after [tx_intros]: "tx_safe p NoTx \<Longrightarrow> tx_safe (done_or_after n p) NoTx"
  unfolding done_or_after_def by (rule tx_safe_plain) (auto split: reply.split intro: tx_intros)

lemma tx_safe_cases [tx_intros]:
  "tx_safe a st \<Longrightarrow> tx_safe b st \<Longrightarrow> tx_safe (if P then a else b) st"
  "(\<And>e. tx_safe (f e) st) \<Longrightarrow> tx_safe a st \<Longrightarrow> tx_safe (case err of Some e \<Rightarrow> f e | None \<Rightarrow> a) st"
  "(\<And>e. tx_safe (f e) st) \<Longrightarrow> (\<And>x. tx_safe (g x) st) \<Longrightarrow> tx_safe (case v of Inl e \<Rightarrow> f e | Inr x \<Rightarrow> g x) st"
  "tx_safe Panic st" "tx_safe Spin st"
  by (auto split: option.split sum.split)

lemma tx_body_cases [tx_intros]:
  "tx_body t a st \<Longrightarrow> tx_body t b st \<Longrightarrow> tx_body t (if P then a else b) st"
  by simp

lemma tx_body_last_stmt [tx_intros]:
  assumes "tx_body t p (Open t)" and "\<And>e. tx_body t (f e) (Failed t)"
  shows "tx_body t (ask (TxExec t stm) (\<lambda>s. case err_of s of Some e \<Rightarrow> f e | None \<Rightarrow> p)) (Open t)"
  by (rule tx_body_stmt) (use assms in \<open>auto split: option.split\<close>)

lemma tx_safe_failed [tx_intros]: "tx_safe (failed msg e) NoTx"
  by (simp add: failed_def)

lemma tx_body_failed [tx_intros]: "tx_body t (failed msg e) (Failed t)"
  unfolding failed_def by (rule tx_body_return) simp

lemma tx_safe_wait_loop: "tx_safe (wait_loop fuel v evt) NoTx"
proof (induction fuel)
  case (Suc fuel)
  show ?case unfolding wait_loop.simps Let_def by (intro tx_intros Suc plain_calls)
qed simp

lemma tx_safe_catchup_loop: "tx_safe (catchup_loop fuel v evt) NoTx"
proof (induction fuel)
  case (Suc fuel)
  show ?case unfolding catchup_loop.simps by (intro tx_intros Suc plain_calls)
qed simp

lemma tx_safe_refresh_of: "tx_safe (refresh_of r ob) NoTx"
  by (cases ob; simp only: refresh_of.simps end_state_refresh_defs ephemeral_Refresh_def;
      intro tx_intros plain_calls)

lemma tx_safe_update_of: "tx_safe (update_of ob) NoTx"
  by (cases ob; simp only: update_of.simps end_state_noop_defs end_state_tx_defs no_op_def;
      intro tx_intros plain_calls)

lemma tx_safe_delete_of: "tx_safe (delete_of ob) NoTx"
  by (cases ob; simp only: delete_of.simps end_state_noop_defs end_state_tx_defs no_op_def Let_def;
      intro tx_intros plain_calls; simp)

lemma tx_safe_create_of:
  assumes "\<And>s. ob \<noteq> ODisabled s"
  shows "tx_safe (create_of fuel r ob) NoTx"
proof (cases ob)
  case (OLag t)
  show ?thesis unfolding OLag create_of.simps LagTrackerCommitTimestamp_Create_def
    by (intro tx_intros plain_calls)
next
  case (OWait v)
  show ?thesis unfolding OWait create_of.simps WaitForSyncEvent_Create_def Let_def
    by (intro tx_intros tx_safe_wait_loop)
next
  case (OCatchup v)
  show ?thesis unfolding OCatchup create_of.simps PeerCatchup_Create_def Let_def
    by (intro tx_intros tx_safe_catchup_loop)
next
  case (ODisabled s)
  with assms[of s] show ?thesis by simp
qed (simp_all only: create_of.simps end_state_noop_defs end_state_tx_defs populate_defs no_op_def Let_def;
     intro tx_intros plain_calls; simp)+

lemma trace_loaded: "r < length h \<Longrightarrow> trace env c (Load r f) h w = trace env c (f (h ! r)) h w"
  and run_loaded: "r < length h \<Longrightarrow> run env c (Load r f) h w = run env c (f (h ! r)) h w"
  by simp_all

lemma tx_safe_operation:
  assumes "op \<in> {Refresh r, Update r, Delete r} \<or> op = Create fuel r \<and> (\<forall>s. h ! r \<noteq> ODisabled s)"
  shows "\<exists>st. tx_trace NoTx (trace env c op h w) = Some st \<and>
    (\<forall>a h' w'. run env c op h w = (Returned a, h', w') \<longrightarrow> st = NoTx)"
proof (cases "r < length h")
  case True
  have "tx_safe (refresh_of r (h ! r)) NoTx" "tx_safe (update_of (h ! r)) NoTx" "tx_safe (delete_of (h ! r)) NoTx"
    by (rule tx_safe_refresh_of tx_safe_update_of tx_safe_delete_of)+
  moreover have "\<forall>s. h ! r \<noteq> ODisabled s \<Longrightarrow> tx_safe (create_of fuel r (h ! r)) NoTx"
    using tx_safe_create_of by blast
  ultimately obtain body where "op = Load r body" "tx_safe (body (h ! r)) NoTx"
    using assms by (auto simp: Refresh_def Create_def Update_def Delete_def)
  with tx_safe_trace[of "body (h ! r)" NoTx env c h w] True show ?thesis by simp
next
  case False
  with assms(1) show ?thesis by (auto simp: Refresh_def Create_def Update_def Delete_def)
qed

subsection \<open>Properties\<close>

text \<open>
  Claim C21: Every \<open>Refresh\<close>, \<open>Create\<close>, \<open>Update\<close> and \<open>Delete\<close> of every resource, except \<open>Create\<close> of a
  \<open>DisabledSubscription\<close>, keeps to the transaction protocol whatever the server answers: its statements name
  the transaction it opened, after a failed statement it only rolls back, it commits at most once and never
  after a failure, and when it returns no transaction is left open.
\<close>

theorem operations_keep_protocol:
  assumes "op \<in> {Refresh r, Update r, Delete r} \<or> op = Create fuel r \<and> (\<forall>s. h ! r \<noteq> ODisabled s)"
  shows "\<exists>st. tx_trace NoTx (trace env c op h w) = Some st
    \<and> (case run env c op h w of (Returned a, h', w') \<Rightarrow> st = NoTx | _ \<Rightarrow> True)"
  using tx_safe_operation[OF assms, of env c w] by (auto split: prod.split outcome.split)

abbreviation sample_node :: "string \<Rightarrow> node" where
  "sample_node n \<equiv> \<lparr>Name = n, Hostname = n @ ''-rw'', InternalHostname = '''', Bootstrap = \<lparr>Mode = '''', SourceNode = ''''\<rparr>\<rparr>"

theorem operations_keep_protocol_witness:
  "\<exists>st. tx_trace NoTx (trace (\<lambda>c q w. (RTx w, Suc w)) False (Delete 0)
        [ONode (NewSpockNode (sample_node ''n3'') ''app'' ''pgedge'' (Some 0))] 7) = Some st
    \<and> (case run (\<lambda>c q w. (RTx w, Suc w)) False (Delete 0)
        [ONode (NewSpockNode (sample_node ''n3'') ''app'' ''pgedge'' (Some 0))] 7
       of (Returned a, h', w') \<Rightarrow> st = NoTx | _ \<Rightarrow> True)"
  by (rule operations_keep_protocol[of _ 0 0]) simp_all

text \<open>
  Claim C37: \<open>Create\<close> of a \<open>DisabledSubscription\<close> does not: when the statement fails with
  the duplicate-object error it goes on to commit the transaction PostgreSQL has aborted. If that
  commit is an error, as pgx documents, the operation fails in the very case its message calls fine.
\<close>

theorem disabled_subscription_commits_failed:
  assumes "h ! r = ODisabled s" and "r < length h"
    and "env c (Begin (ds_conn s)) w = (RTx t, w1)"
    and "env c (TxExec t RepairMode) w1 = (ROk, w2)"
    and "env c (TxExec t (SubCreateDisabled (disabled_subName s)
           (node_dsn (Hostname (ds_src s)) (ds_dbName s) (ds_pgedgeUser s)))) w2 = (RErr (PgError pgCodeDuplicateObject), w3)"
    and "env c (TxCommit t) w3 = (RErr e, w4)"
    and "env c (TxRollback t) w4 = (ROk, w5)"
  shows "run env c (Create fuel r) h w =
      (Returned (Some (Wrapf (''commit disabled subscription '' @ disabled_subName s) e)), h, w5)
    \<and> tx_trace NoTx (trace env c (Create fuel r) h w) = None"
  using assms
  by (simp add: Create_def DisabledSubscription_Create_def call_defs err_of_def is_duplicate_def Let_def)

definition duplicate_env :: "(nat, request, reply) env" where
  "duplicate_env c q w = (case q of
       Begin cn \<Rightarrow> (RTx 0, w)
     | TxExec t (SubCreateDisabled n dsn) \<Rightarrow> (RErr (PgError ''42710''), w)
     | TxCommit t \<Rightarrow> (RErr (ErrOther ''commit unexpectedly resulted in rollback''), w)
     | _ \<Rightarrow> (ROk, w))"

theorem disabled_subscription_commits_failed_witness:
  "let h = [ODisabled (NewDisabledSubscription (sample_node ''n2'') (sample_node ''n3'') ''app'' ''pgedge'' (Some 2))] in
   run duplicate_env False (Create 0 0) h 0 =
      (Returned (Some (Wrapf (''commit disabled subscription '' @ disabled_subName
         (NewDisabledSubscription (sample_node ''n2'') (sample_node ''n3'') ''app'' ''pgedge'' (Some 2)))
       (ErrOther ''commit unexpectedly resulted in rollback''))), h, 0)
    \<and> tx_trace NoTx (trace duplicate_env False (Create 0 0) h 0) = None"
  unfolding Let_def
  by (rule disabled_subscription_commits_failed) (simp_all add: duplicate_env_def pgCodeDuplicateObject_def)

end
