(* ===== verification/Results.thy ===== *)
theory Results
  imports Spock_Methods
begin

text \<open>
  What an operation that returns \<open>nil\<close> has done, as a property of its calls and their replies, and
  that the polling loops end with the context.
\<close>

subsection \<open>What a nil result means\<close>

named_theorems nil_intros "what is known of the calls of a program that returns nil"

lemma nil_ask: "(\<And>s. nil_only_if (k s) (\<lambda>qs. Q ((q, s) # qs))) \<Longrightarrow> nil_only_if (ask q k) Q"
  by (simp add: ask_def split: reply.split)

lemma nil_exec [nil_intros]:
  "(\<And>s. err_of s = None \<Longrightarrow> nil_only_if p (\<lambda>qs. Q ((q, s) # qs))) \<Longrightarrow> nil_only_if (exec q msg p) Q"
  unfolding exec_def by (rule nil_ask) (simp add: unless_def failed_def split: option.split)

lemma nil_query_bool [nil_intros]:
  "(\<And>b. nil_only_if (k b) (\<lambda>qs. Q ((q, RBool b) # qs))) \<Longrightarrow> nil_only_if (query_bool q msg k) Q"
  unfolding query_bool_def by (rule nil_ask) (simp add: scanned_def failed_def scan_bool_def split: reply.split)

lemma nil_query_text [nil_intros]:
  "(\<And>b. nil_only_if (k b) (\<lambda>qs. Q ((q, RText b) # qs))) \<Longrightarrow> nil_only_if (query_text q msg k) Q"
  unfolding query_text_def by (rule nil_ask) (simp add: scanned_def failed_def scan_text_def split: reply.split)

lemma nil_return [nil_intros]: "(a = None \<Longrightarrow> Q []) \<Longrightarrow> nil_only_if (Return a) Q"
  by simp

lemma nil_failed [nil_intros]: "nil_only_if (failed msg e) Q"
  by (simp add: failed_def)

lemma nil_store [nil_intros]: "nil_only_if p Q \<Longrightarrow> nil_only_if (Store r f p) Q"
  by simp

lemma nil_cases [nil_intros]:
  "(P \<Longrightarrow> nil_only_if a Q) \<Longrightarrow> (\<not> P \<Longrightarrow> nil_only_if b Q) \<Longrightarrow> nil_only_if (if P then a else b) Q"
  "(\<And>e. err = Some e \<Longrightarrow> nil_only_if (f e) Q) \<Longrightarrow> (err = None \<Longrightarrow> nil_only_if a Q) \<Longrightarrow>
    nil_only_if (case err of Some e \<Rightarrow> f e | None \<Rightarrow> a) Q"
  "(\<And>e. v = Inl e \<Longrightarrow> nil_only_if (g e) Q) \<Longrightarrow> (\<And>x. v = Inr x \<Longrightarrow> nil_only_if (k x) Q) \<Longrightarrow>
    nil_only_if (case v of Inl e \<Rightarrow> g e | Inr x \<Rightarrow> k x) Q"
  "nil_only_if Panic Q" "nil_only_if Spin Q"
  by (auto split: option.split sum.split)

lemma nil_loads [nil_intros]:
  "(\<And>l. nil_only_if (k l) Q) \<Longrightarrow> nil_only_if (load_LSN r k) Q"
  "(\<And>ts. nil_only_if (k' ts) Q) \<Longrightarrow> nil_only_if (load_CommitTS lag k') Q"
  "(\<And>l. nil_only_if (k l) Q) \<Longrightarrow> nil_only_if (load_AdvancedToLSN adv k) Q"
  by (simp_all add: load_LSN_def load_CommitTS_def load_AdvancedToLSN_def split: object.split option.split)

lemma nil_rollback:
  "nil_only_if p (\<lambda>qs. \<forall>s. Q (qs @ [(TxRollback t, s)])) \<Longrightarrow>
   nil_only_if (Effects.bind p (\<lambda>res. ask (TxRollback t) (\<lambda>_. Return res))) Q"
  by (induction p arbitrary: Q rule: prog_induct) (auto intro: nil_ask)

lemma nil_in_tx [nil_intros]:
  assumes "\<And>t s. nil_only_if (body t) (\<lambda>qs. \<forall>s. Q ((Begin c, RTx t) # qs @ [(TxRollback t, s)]))"
  shows "nil_only_if (in_tx c msg body) Q"
  unfolding in_tx_def
  by (rule nil_ask) (use assms in \<open>auto simp: failed_def intro!: nil_rollback split: reply.split\<close>)

text \<open>
  What a caller learns from the calls and replies of an operation. \<open>committed q\<close>: the statement
  went through and its transaction was committed after it; \<open>duplicate q\<close>: it failed with
  PostgreSQL's duplicate-object error; \<open>answered\<close>: a query was answered so.
\<close>

type_synonym calls = "(request \<times> reply) list"

fun committed :: "stmt \<Rightarrow> calls \<Rightarrow> bool" where
  "committed q [] = False"
| "committed q ((x, s) # qs) \<longleftrightarrow>
     (\<exists>t. x = TxExec t q \<and> err_of s = None \<and> (\<exists>s'. (TxCommit t, s') \<in> set qs \<and> err_of s' = None)) \<or> committed q qs"

definition duplicate :: "stmt \<Rightarrow> calls \<Rightarrow> bool" where
  "duplicate q qs \<longleftrightarrow> (\<exists>t s e. (TxExec t q, s) \<in> set qs \<and> err_of s = Some e \<and> is_duplicate e)"

definition answered :: "request \<Rightarrow> reply \<Rightarrow> calls \<Rightarrow> bool" where
  "answered q s qs \<longleftrightarrow> (q, s) \<in> set qs"

definition executed :: "request \<Rightarrow> calls \<Rightarrow> bool" where
  "executed q qs \<longleftrightarrow> (\<exists>s. (q, s) \<in> set qs \<and> err_of s = None)"

text \<open>
  The documented behaviour of a context: once it is done, \<open>Err\<close> is not \<open>nil\<close>, and that for ever.
\<close>

fun context_law :: "bool \<Rightarrow> calls \<Rightarrow> bool" where
  "context_law d [] = True"
| "context_law d ((q, s) # qs) = (case q of
       ContextErr \<Rightarrow> (d \<longrightarrow> err_of s \<noteq> None) \<and> context_law (d \<or> err_of s \<noteq> None) qs
     | DoneOrAfter n \<Rightarrow> context_law (d \<or> s = RDone) qs
     | _ \<Rightarrow> context_law d qs)"

lemmas calls_defs = duplicate_def answered_def executed_def

text \<open>What a resource reads through its pointer: the lag tracker's \<open>CommitTS\<close>, the slot advance's \<open>AdvancedToLSN\<close>.\<close>

definition commit_ts :: "heap \<Rightarrow> ref option \<Rightarrow> timestamp option" where
  "commit_ts h lag = (case lag of None \<Rightarrow> None | Some r \<Rightarrow> (case h ! r of OLag t \<Rightarrow> lt_CommitTS t | _ \<Rightarrow> None))"

definition advanced_lsn :: "heap \<Rightarrow> ref option \<Rightarrow> string" where
  "advanced_lsn h adv = (case adv of None \<Rightarrow> '''' | Some r \<Rightarrow> (case h ! r of OSlotAdvance a \<Rightarrow> sa_AdvancedToLSN a | _ \<Rightarrow> ''''))"

text \<open>
  \<open>created h ob qs\<close>: the calls \<open>qs\<close> and their replies show that the resource \<open>ob\<close> is there. No call
  is enough only for the permanent replication slot, which \<open>sub_create\<close> makes, and for the two advances
  where what they point to in the heap \<open>h\<close> gives the reason: no commit timestamp, no LSN advanced to.
\<close>

primrec created :: "heap \<Rightarrow> object \<Rightarrow> calls \<Rightarrow> bool" where
  "created h (OUser u) qs \<longleftrightarrow> committed (CreateRole (pu_pgedgeUser u)) qs \<or> duplicate (CreateRole (pu_pgedgeUser u)) qs"
| "created h (ONode n) qs \<longleftrightarrow>
     (let q = NodeCreateIfMissing (Name (sn_node n)) (node_dsn (Hostname (sn_node n)) (sn_dbName n) (sn_pgedgeUser n))
      in committed q qs \<or> duplicate q qs)"
| "created h (OSlot s) qs \<longleftrightarrow> qs = []"
| "created h (OSub s) qs \<longleftrightarrow>
     (let q = SubCreate (subName s) (node_dsn (Hostname (su_src s)) (su_dbName s) (su_pgedgeUser s)) (su_sync s)
      in committed (SubEnable (subName s)) qs \<or> committed q qs \<or> duplicate q qs)"
| "created h (OSlotCreate s) qs \<longleftrightarrow>
     answered (PoolQueryRow (sc_conn s) (SlotExists (create_slotName s))) (RBool True) qs \<or>
     executed (PoolExec (sc_conn s) (CreateSlot (create_slotName s))) qs"
| "created h (OSyncEvent e) qs \<longleftrightarrow>
     (\<exists>t lsn s. (TxQueryRow t SendSyncEvent, RText lsn) \<in> set qs \<and> (TxCommit t, s) \<in> set qs \<and> err_of s = None)"
| "created h (OWait v) qs \<longleftrightarrow>
     (\<exists>lsn. answered (PoolQueryRow (we_conn v) (WaitSyncEvent (we_providerName v) lsn syncEventTimeout)) (RBool True) qs)"
| "created h (OLag t) qs \<longleftrightarrow>
     (\<exists>s. answered (PoolQueryRow (lt_conn t) (CommitTimestamp (lt_originName t) (lt_receiverName t))) s qs \<and>
       (case scan_time s of Inl e \<Rightarrow> errors_is_no_rows e | Inr _ \<Rightarrow> True))"
| "created h (OSlotAdvance a) qs \<longleftrightarrow>
     (case commit_ts h (sa_lagTracker a) of
        None \<Rightarrow> qs = []
      | Some ts \<Rightarrow> if ts = 0 then qs = [] else
          (\<exists>target. answered (PoolQueryRow (sa_conn a) (LsnFromCommitTs (advance_slotName a) ts)) (RText target) qs \<and>
            (answered (PoolQueryRow (sa_conn a) (SlotActive (advance_slotName a))) (RBool True) qs \<or>
             (\<exists>current. answered (PoolQueryRow (sa_conn a) (SlotRestartLsn (advance_slotName a))) (RText current) qs \<and>
                answered (PoolQueryRow (sa_conn a) (LsnAtOrBefore target current)) (RBool True) qs) \<or>
             executed (PoolExec (sa_conn a) (SlotAdvance (advance_slotName a) target)) qs)))"
| "created h (ODisabled s) qs \<longleftrightarrow>
     (let q = SubCreateDisabled (disabled_subName s) (node_dsn (Hostname (ds_src s)) (ds_dbName s) (ds_pgedgeUser s))
      in committed q qs \<or> duplicate q qs)"
| "created h (OOriginAdvance a) qs \<longleftrightarrow>
     (let target = advanced_lsn h (oa_slotAdvance a) in
      if target = '''' then qs = []
      else executed (PoolExec (oa_conn a) (OriginCreate (originName a))) qs \<and>
           executed (PoolExec (oa_conn a) (OriginAdvance (originName a) target)) qs)"
| "created h (OCatchup v) qs \<longleftrightarrow>
     (\<exists>lsn. answered (PoolQueryRow (pc_conn v) (ProgressReached lsn (pc_peerName v))) (RBool True) qs)"

lemma nil_mono: "nil_only_if p Q \<Longrightarrow> (\<And>qs. Q qs \<Longrightarrow> Q' qs) \<Longrightarrow> nil_only_if p Q'"
  by (induction p arbitrary: Q Q' rule: prog_induct) (auto, metis+)

lemma nil_done_or_after:
  assumes "\<And>s. s \<noteq> RDone \<Longrightarrow> nil_only_if p (\<lambda>qs. Q ((DoneOrAfter n, s) # qs))"
    and "\<And>s. err_of s = None \<Longrightarrow> Q [(DoneOrAfter n, RDone), (ContextErr, s)]"
  shows "nil_only_if (done_or_after n p) Q"
  unfolding done_or_after_def
  by (rule nil_ask) (use assms in \<open>auto intro: nil_ask split: reply.split\<close>)

lemma nil_wait_loop: "nil_only_if (wait_loop fuel v evt) (\<lambda>qs. context_law False qs \<longrightarrow> created h (OWait v) qs)"
proof (induction fuel)
  case (Suc fuel)
  show ?case
    unfolding wait_loop.simps Let_def
    by (intro nil_intros nil_ask nil_done_or_after;
        ((simp add: answered_def; fail) | rule nil_mono[OF Suc], auto simp: answered_def))
qed simp

lemma nil_catchup_loop: "nil_only_if (catchup_loop fuel v evt) (\<lambda>qs. context_law False qs \<longrightarrow> created h (OCatchup v) qs)"
proof (induction fuel)
  case (Suc fuel)
  show ?case
    unfolding catchup_loop.simps
    by (intro nil_intros nil_ask nil_done_or_after;
        ((simp add: answered_def; fail) | rule nil_mono[OF Suc], auto simp: answered_def))
qed simp

lemma committed_append [simp]:
  "committed q (qs @ [(TxRollback t, s)]) \<longleftrightarrow> committed q qs"
  by (induction q qs rule: committed.induct) auto

lemma nil_create_of:
  assumes "\<And>a. ob \<noteq> OSlotAdvance a" and "\<And>a. ob \<noteq> OOriginAdvance a"
  shows "nil_only_if (create_of fuel r ob) (\<lambda>qs. context_law False qs \<longrightarrow> created h ob qs)"
proof (cases ob)
  case (OWait v)
  show ?thesis unfolding OWait create_of.simps WaitForSyncEvent_Create_def Let_def
    by (intro nil_intros nil_wait_loop) simp_all
next
  case (OCatchup v)
  show ?thesis unfolding OCatchup create_of.simps PeerCatchup_Create_def Let_def
    by (intro nil_intros nil_catchup_loop) simp_all
next
  case (OLag t)
  show ?thesis unfolding OLag create_of.simps LagTrackerCommitTimestamp_Create_def
    by (intro nil_intros nil_ask) (auto simp: answered_def)
next
  case (OUser u)
  show ?thesis unfolding OUser create_of.simps created.simps PgEdgeUser_Create_def Let_def
    by (intro nil_intros nil_ask) (auto simp: calls_defs)
next
  case (ONode n)
  show ?thesis unfolding ONode create_of.simps created.simps SpockNode_Create_def Let_def
    by (intro nil_intros nil_ask) (auto simp: calls_defs)
next
  case (OSlot s)
  show ?thesis unfolding OSlot create_of.simps created.simps ReplicationSlot_Create_def Let_def
    by (intro nil_intros nil_ask) (auto simp: calls_defs)
next
  case (OSub s)
  show ?thesis unfolding OSub create_of.simps created.simps Subscription_Create_def Let_def
    by (intro nil_intros nil_ask) (auto simp: calls_defs)
next
  case (OSlotCreate s)
  show ?thesis unfolding OSlotCreate create_of.simps created.simps ReplicationSlotCreate_Create_def Let_def
    by (intro nil_intros nil_ask) (auto simp: calls_defs)
next
  case (OSyncEvent e)
  show ?thesis unfolding OSyncEvent create_of.simps created.simps SyncEvent_Create_def Let_def
    by (intro nil_intros nil_ask) (auto simp: calls_defs)
next
  case (OSlotAdvance a)
  with assms(1) show ?thesis by blast
next
  case (ODisabled s)
  show ?thesis unfolding ODisabled create_of.simps created.simps DisabledSubscription_Create_def Let_def
    by (intro nil_intros nil_ask) (auto simp: calls_defs)
next
  case (OOriginAdvance a)
  with assms(2) show ?thesis by blast
qed

text \<open>The two advances read the heap: what they load decides how they go on.\<close>

lemma run_load_CommitTS:
  assumes "run env c (load_CommitTS lag k) h w = (Returned x, h', w')"
  shows "run env c (k (commit_ts h lag)) h w = (Returned x, h', w')"
    and "trace env c (load_CommitTS lag k) h w = trace env c (k (commit_ts h lag)) h w"
  using assms by (auto simp: load_CommitTS_def commit_ts_def split: option.splits object.splits if_splits)

lemma run_load_AdvancedToLSN:
  assumes "run env c (load_AdvancedToLSN adv k) h w = (Returned x, h', w')"
  shows "run env c (k (advanced_lsn h adv)) h w = (Returned x, h', w')"
    and "trace env c (load_AdvancedToLSN adv k) h w = trace env c (k (advanced_lsn h adv)) h w"
  using assms by (auto simp: load_AdvancedToLSN_def advanced_lsn_def split: option.splits object.splits if_splits)

lemma commit_ts_store: "commit_ts (h[r := set_AdvancedToLSN l (h ! r)]) lag = commit_ts h lag"
proof (cases "r < length h")
  case True
  then show ?thesis
    by (auto simp: commit_ts_def set_AdvancedToLSN_def nth_list_update split: option.splits object.splits)
qed (simp add: list_update_beyond)

lemma slot_advance_created:
  assumes "run env c (ReplicationSlotAdvanceFromCTS_Create r a) h w = (Returned None, h', w')"
  shows "created h (OSlotAdvance a) (trace env c (ReplicationSlotAdvanceFromCTS_Create r a) h w)"
proof -
  let ?h = "h[r := set_AdvancedToLSN '''' (h ! r)]" and ?lag = "sa_lagTracker a"
  from assms have r: "r < length h"
    by (auto simp: ReplicationSlotAdvanceFromCTS_Create_def Let_def split: if_splits)
  note run = assms[unfolded ReplicationSlotAdvanceFromCTS_Create_def Let_def run.simps, simplified r if_True]
  note first = run_load_CommitTS[OF run]
  show ?thesis
  proof (cases "commit_ts h ?lag = None \<or> commit_ts h ?lag = Some 0")
    case True
    then show ?thesis
      using first(2) r unfolding ReplicationSlotAdvanceFromCTS_Create_def Let_def
      by (auto simp: commit_ts_store)
  next
    case False
    then obtain ts where ts: "commit_ts h ?lag = Some ts" "ts \<noteq> 0" by auto
    note second = run_load_CommitTS[OF first(1)[unfolded commit_ts_store if_not_P[OF False]]]
    show ?thesis
      unfolding created.simps ts(1) option.case if_not_P[OF ts(2)]
      unfolding ReplicationSlotAdvanceFromCTS_Create_def Let_def trace.simps if_P[OF r] first(2) commit_ts_store
        if_not_P[OF False] second(2)
      unfolding commit_ts_store ts(1) option.case
      by (rule nil_only_if_trace[OF _ second(1)[unfolded commit_ts_store ts(1) option.case]])
        (intro nil_intros; auto simp: calls_defs)
  qed
qed

lemma origin_advance_created:
  assumes "run env c (ReplicationOriginAdvance_Create a) h w = (Returned None, h', w')"
  shows "created h (OOriginAdvance a) (trace env c (ReplicationOriginAdvance_Create a) h w)"
proof -
  let ?lsn = "advanced_lsn h (oa_slotAdvance a)"
  note run = assms[unfolded ReplicationOriginAdvance_Create_def]
  note first = run_load_AdvancedToLSN[OF run]
  show ?thesis
  proof (cases "?lsn = ''''")
    case True
    then show ?thesis
      using first(2) unfolding ReplicationOriginAdvance_Create_def by simp
  next
    case False
    note second = run_load_AdvancedToLSN[OF first(1)[unfolded if_not_P[OF False]]]
    have trace: "trace env c (ReplicationOriginAdvance_Create a) h w = trace env c
        (exec (PoolExec (oa_conn a) (OriginCreate (originName a))) (''ensure replication origin '' @ originName a) (
         exec (PoolExec (oa_conn a) (OriginAdvance (originName a) ?lsn))
           (''advance replication origin '' @ originName a @ '' to '' @ ?lsn) ok)) h w"
      using first(2) second(2) unfolding ReplicationOriginAdvance_Create_def if_not_P[OF False] by simp
    show ?thesis
      unfolding trace created.simps Let_def if_not_P[OF False]
      by (rule nil_only_if_trace[OF _ second(1)]) (intro nil_intros; auto simp: calls_defs)
  qed
qed

primrec deleted :: "object \<Rightarrow> calls \<Rightarrow> bool" where
  "deleted (OUser u) qs \<longleftrightarrow> qs = []"
| "deleted (ONode n) qs \<longleftrightarrow> committed (NodeDrop (Name (sn_node n))) qs"
| "deleted (OSlot s) qs \<longleftrightarrow> committed (DropSlot (slotName s)) qs \<or>
     (\<exists>t. answered (TxQueryRow t (SlotExists (slotName s))) (RBool False) qs)"
| "deleted (OSub s) qs \<longleftrightarrow> committed (SubDrop (subName s)) qs"
| "deleted (OSlotCreate s) qs \<longleftrightarrow> qs = []"
| "deleted (OSyncEvent e) qs \<longleftrightarrow> qs = []"
| "deleted (OWait v) qs \<longleftrightarrow> qs = []"
| "deleted (OLag t) qs \<longleftrightarrow> qs = []"
| "deleted (OSlotAdvance a) qs \<longleftrightarrow> qs = []"
| "deleted (ODisabled s) qs \<longleftrightarrow> qs = []"
| "deleted (OOriginAdvance a) qs \<longleftrightarrow> qs = []"
| "deleted (OCatchup v) qs \<longleftrightarrow> qs = []"

lemma nil_delete_of: "nil_only_if (delete_of ob) (deleted ob)"
proof (cases ob)
  case (OSlot s)
  show ?thesis unfolding OSlot delete_of.simps deleted.simps ReplicationSlot_Delete_def Let_def
    by (intro nil_intros nil_ask) (auto simp: calls_defs)
next
  case (ONode n)
  show ?thesis unfolding ONode delete_of.simps deleted.simps SpockNode_Delete_def deleteOne_def Let_def
    by (intro nil_intros nil_ask) auto
next
  case (OSub s)
  show ?thesis unfolding OSub delete_of.simps deleted.simps Subscription_Delete_def
    by (intro nil_intros nil_ask) auto
qed (simp_all add: PgEdgeUser_Delete_def no_op_def)

lemma nil_update_of: "nil_only_if (update_of ob)
  (\<lambda>qs. case ob of OSub s \<Rightarrow> committed (SubEnable (subName s)) qs | _ \<Rightarrow> qs = [])"
proof (cases ob)
  case (OSub s)
  show ?thesis unfolding OSub update_of.simps object.case Subscription_Update_def
    by (intro nil_intros nil_ask) auto
qed (simp_all add: end_state_noop_defs no_op_def)

lemma trace_load: "r < length h \<Longrightarrow> trace env c (Load r f) h w = trace env c (f (h ! r)) h w"
  and run_load: "r < length h \<Longrightarrow> run env c (Load r f) h w = run env c (f (h ! r)) h w"
  by simp_all

lemma nil_load:
  assumes "nil_only_if (f (h ! r)) Q" and "run env c (Load r f) h w = (Returned None, h', w')"
  shows "Q (trace env c (Load r f) h w)"
proof -
  from assms(2) have r: "r < length h" by (auto split: if_splits)
  note run = assms(2)[unfolded run_load[OF r]]
  show ?thesis unfolding trace_load[OF r] by (rule nil_only_if_trace[OF assms(1) run])
qed

subsection \<open>The polling loops\<close>

text \<open>
  A clock: \<open>left w\<close> bounds the calls the context still allows in the state \<open>w\<close>. Every call but
  \<open>ctx.Err()\<close> takes time, and once none is left the context is done, so \<open>ctx.Err()\<close> is an error.
\<close>

definition deadline :: "('w, request, reply) env \<Rightarrow> ('w \<Rightarrow> nat) \<Rightarrow> bool" where
  "deadline env left \<longleftrightarrow>
     (\<forall>c q w. left (snd (env c q w)) \<le> left w) \<and>
     (\<forall>c q w. q \<noteq> ContextErr \<longrightarrow> 0 < left w \<longrightarrow> left (snd (env c q w)) < left w) \<and>
     (\<forall>c w. left w = 0 \<longrightarrow> (\<exists>e. fst (env c ContextErr w) = RErr e))"

definition returns :: "('w, request, reply) env \<Rightarrow> bool \<Rightarrow> heap \<Rightarrow> object_op \<Rightarrow> 'w \<Rightarrow> bool" where
  "returns env c h p w \<longleftrightarrow> fst (run env c p h w) \<noteq> Spinning"

named_theorems returns_intros "when a program is not caught in a polling loop"

lemma returns_ask:
  "(\<And>s w'. env c q w = (s, w') \<Longrightarrow> returns env c h (k s) w') \<Longrightarrow> returns env c h (ask q k) w"
  by (cases "env c q w") (auto simp: returns_def ask_def split: reply.split)

lemma returns_basic [returns_intros]:
  "returns env c h (Return a) w" "returns env c h Panic w" "returns env c h (failed msg e) w"
  by (simp_all add: returns_def failed_def)

lemma returns_cases [returns_intros]:
  "returns env c h a w \<Longrightarrow> returns env c h b w \<Longrightarrow> returns env c h (if P then a else b) w"
  "(\<And>e. returns env c h (f e) w) \<Longrightarrow> (\<And>x. returns env c h (g x) w) \<Longrightarrow>
    returns env c h (case v of Inl e \<Rightarrow> f e | Inr x \<Rightarrow> g x) w"
  by (auto split: sum.split)

lemma returns_load_LSN [returns_intros]:
  "(\<And>l. returns env c h (k l) w) \<Longrightarrow> returns env c h (load_LSN r k) w"
  by (auto simp: returns_def load_LSN_def split: object.split)

lemma returns_query_bool:
  "(\<And>b s w'. env c q w = (s, w') \<Longrightarrow> returns env c h (k b) w') \<Longrightarrow> returns env c h (query_bool q msg k) w"
  unfolding query_bool_def scanned_def
  by (rule returns_ask) (auto split: sum.split intro: returns_intros)

lemma returns_done_or_after:
  "(\<And>s w'. env c (DoneOrAfter n) w = (s, w') \<Longrightarrow> returns env c h p w') \<Longrightarrow> returns env c h (done_or_after n p) w"
  unfolding done_or_after_def
  by (rule returns_ask) (auto split: reply.split intro: returns_intros returns_ask)

lemma deadline_step:
  assumes "deadline env left" and "env c ContextErr w = (s, w1)" and "err_of s = None"
    and "env c q w1 = (s', w2)" and "q \<noteq> ContextErr" and "left w < Suc fuel"
  shows "left w2 < fuel"
proof -
  note d = assms(1)[unfolded deadline_def]
  have e: "snd (env c ContextErr w) = w1" "snd (env c q w1) = w2" "fst (env c ContextErr w) = s"
    using assms(2,4) by simp_all
  have "0 < left w"
  proof (rule ccontr)
    assume "\<not> 0 < left w"
    then have "left w = 0" by simp
    then obtain x where "fst (env c ContextErr w) = RErr x" using d by blast
    with e(3) have "s = RErr x" by simp
    with assms(3) show False by (simp add: err_of_def)
  qed
  moreover have "left w1 \<le> left w" "left w2 \<le> left w1" using d e by metis+
  moreover have "left w2 < left w1" if "0 < left w1" using d e(2) assms(5) that by blast
  ultimately show ?thesis using assms(6) by (cases "left w1 = 0") auto
qed

lemma deadline_less: "deadline env left \<Longrightarrow> env c q w = (s, w') \<Longrightarrow> left w < n \<Longrightarrow> left w' < n"
  unfolding deadline_def by (metis le_less_trans snd_conv)

lemma returns_wait_loop:
  assumes "deadline env left"
  shows "left w < fuel \<Longrightarrow> returns env c h (wait_loop fuel v evt) w"
proof (induction fuel arbitrary: w)
  case (Suc fuel)
  note later = deadline_less[OF assms]
  show ?case
    unfolding wait_loop.simps Let_def
  proof (rule returns_ask, goal_cases)
    case (1 s w1)
    show ?case
    proof (cases "err_of s")
      case (Some e)
      then show ?thesis by (auto intro: returns_ask returns_intros)
    next
      case None
      have less: "left w2 < fuel" if "env c (PoolQueryRow (we_conn v) q) w1 = (s', w2)" for q s' w2
        by (rule deadline_step[OF assms 1 None that]) (use Suc.prems in simp_all)
      have again: "returns env c h (load_LSN evt (\<lambda>lsn. query_bool (PoolQueryRow (we_conn v) (f lsn)) msg
          (\<lambda>synced. if synced then ok else wait_loop fuel v evt))) w2" if "left w2 < fuel" for f msg w2
        using that later Suc.IH by (auto intro!: returns_intros returns_query_bool)
      show ?thesis
        unfolding None option.case
      proof (rule returns_ask, goal_cases)
        case (1 s' w2)
        from less[OF this] show ?case
          by (intro returns_intros again returns_done_or_after) (auto intro: Suc.IH later)
      qed
    qed
  qed
qed simp

lemma returns_catchup_loop:
  assumes "deadline env left"
  shows "left w < fuel \<Longrightarrow> returns env c h (catchup_loop fuel v evt) w"
proof (induction fuel arbitrary: w)
  case (Suc fuel)
  note later = deadline_less[OF assms]
  show ?case
    unfolding catchup_loop.simps
  proof (rule returns_ask, goal_cases)
    case (1 s w1)
    show ?case
    proof (cases "err_of s")
      case (Some e)
      then show ?thesis by (auto intro: returns_intros)
    next
      case None
      have less: "left w2 < fuel" if "env c (PoolQueryRow (pc_conn v) q) w1 = (s', w2)" for q s' w2
        by (rule deadline_step[OF assms 1 None that]) (use Suc.prems in simp_all)
      show ?thesis
        unfolding None option.case
      proof (intro returns_intros returns_query_bool returns_done_or_after, goal_cases)
        case (1 l b s' w2 s'' w3)
        then show ?case by (intro Suc.IH later[OF _ less])
      qed
    qed
  qed
qed simp

subsection \<open>Properties\<close>

text \<open>
  Claim C8: A \<open>Create\<close> that returns \<open>nil\<close> has done its work, whatever the resource: the role,
  node or subscription was created and committed, or the server said that it exists; the slot exists
  or was created; the sync event's LSN was read and committed; a wait has seen the event or the
  progress it waits for. The two advances return without a call exactly when the pointer gives the reason
  (no commit timestamp, or a zero one; no LSN that the slot was advanced to). Otherwise the slot advance
  asked for the target of that very timestamp, and either saw the slot active, or saw its restart LSN at or
  after the target, or executed the advance to that target; and the origin advance ensured the origin and
  executed the advance to that LSN. (\<open>ReplicationSlot.Create\<close> makes no call: \<open>sub_create\<close> makes the slot.)
\<close>

theorem create_nil_means_done:
  assumes "run env c (Create fuel r) h w = (Returned None, h', w')"
    and "context_law False (trace env c (Create fuel r) h w)"
  shows "created h (h ! r) (trace env c (Create fuel r) h w)"
proof -
  from assms(1) have r: "r < length h" by (auto simp: Create_def split: if_splits)
  have run: "run env c (create_of fuel r (h ! r)) h w = (Returned None, h', w')"
    using assms(1) r by (simp add: Create_def)
  have trace: "trace env c (Create fuel r) h w = trace env c (create_of fuel r (h ! r)) h w"
    using r by (simp add: Create_def)
  show ?thesis
  proof (cases "(\<exists>a. h ! r = OSlotAdvance a) \<or> (\<exists>a. h ! r = OOriginAdvance a)")
    case True
    then show ?thesis
    proof (elim disjE exE)
      fix a
      assume "h ! r = OSlotAdvance a"
      with run show ?thesis unfolding trace by (simp only: create_of.simps slot_advance_created)
    next
      fix a
      assume "h ! r = OOriginAdvance a"
      with run show ?thesis unfolding trace by (simp only: create_of.simps origin_advance_created)
    qed
  next
    case False
    then have "nil_only_if (create_of fuel r (h ! r)) (\<lambda>qs. context_law False qs \<longrightarrow> created h (h ! r) qs)"
      by (intro nil_create_of) auto
    from nil_only_if_trace[OF this run] assms(2) show ?thesis unfolding trace by blast
  qed
qed

definition slot_env :: "(nat, request, reply) env" where
  "slot_env c q w = ((case q of PoolQueryRow cn s \<Rightarrow> RBool False | Begin cn \<Rightarrow> RTx 0 | _ \<Rightarrow> ROk), Suc w)"

text \<open>A slot that is behind its tracker's target, in a world that says so.\<close>

definition advance_env :: "(nat, request, reply) env" where
  "advance_env c q w = ((case q of
       PoolQueryRow cn (LsnFromCommitTs sl ts) \<Rightarrow> RText ''0/20''
     | PoolQueryRow cn (SlotRestartLsn sl) \<Rightarrow> RText ''0/10''
     | PoolQueryRow cn s \<Rightarrow> RBool False
     | _ \<Rightarrow> ROk), Suc w)"

definition advance_heap :: heap where
  "advance_heap = [OLag ((NewLagTrackerCommitTimestamp ''n2'' ''n3'' (Some 1) [])\<lparr>lt_CommitTS := Some 7\<rparr>),
     OSlotAdvance (NewReplicationSlotAdvanceFromCTS ''n2'' ''n3'' ''app'' (Some 0) (Some 1))]"

theorem create_nil_means_done_witness:
  "created advance_heap (advance_heap ! 1) (trace advance_env False (Create 0 1) advance_heap 0)"
  by (rule create_nil_means_done[of _ _ _ _ _ _ "advance_heap[1 := set_AdvancedToLSN ''0/20'' (advance_heap ! 1)]" 5])
    (simp_all add: advance_heap_def advance_env_def Create_def ReplicationSlotAdvanceFromCTS_Create_def call_defs scan_defs
      load_CommitTS_def new_defs Let_def set_AdvancedToLSN_def)

text \<open>
  Claim C31: A \<open>Delete\<close> that returns \<open>nil\<close> has dropped and committed, or, for a slot, seen that it
  is gone; a user and the populate resources are never touched. And an \<open>Update\<close> that returns \<open>nil\<close> has
  enabled the subscription and committed, and makes no call for any other resource.
\<close>

theorem delete_update_nil_means_done:
  "(fst (run env c (Delete r) h w) = Returned None \<longrightarrow> deleted (h ! r) (trace env c (Delete r) h w))
   \<and> (fst (run env c (Update r) h w) = Returned None \<longrightarrow>
        (case h ! r of OSub s \<Rightarrow> committed (SubEnable (subName s)) (trace env c (Update r) h w)
         | _ \<Rightarrow> trace env c (Update r) h w = []))"
proof (intro conjI impI)
  assume "fst (run env c (Delete r) h w) = Returned None"
  then obtain h' w' where "run env c (Load r delete_of) h w = (Returned None, h', w')"
    unfolding Delete_def by (metis prod.collapse)
  from nil_load[where f = delete_of and h = h and r = r, OF nil_delete_of this]
  show "deleted (h ! r) (trace env c (Delete r) h w)" unfolding Delete_def .
next
  assume "fst (run env c (Update r) h w) = Returned None"
  then obtain h' w' where "run env c (Load r update_of) h w = (Returned None, h', w')"
    unfolding Update_def by (metis prod.collapse)
  from nil_load[where f = update_of and h = h and r = r, OF nil_update_of this]
  show "case h ! r of OSub s \<Rightarrow> committed (SubEnable (subName s)) (trace env c (Update r) h w)
     | _ \<Rightarrow> trace env c (Update r) h w = []" unfolding Update_def .
qed

definition sub_heap :: heap where
  "sub_heap = [OSub (NewSubscription \<lparr>Name = ''n1'', Hostname = ''h1'', InternalHostname = '''', Bootstrap = \<lparr>Mode = '''', SourceNode = ''''\<rparr>\<rparr>
     \<lparr>Name = ''n2'', Hostname = ''h2'', InternalHostname = '''', Bootstrap = \<lparr>Mode = '''', SourceNode = ''''\<rparr>\<rparr>
     ''app'' ''pgedge'' False (Some 1) [])]"

theorem delete_update_nil_means_done_witness:
  "deleted (sub_heap ! 0) (trace slot_env False (Delete 0) sub_heap 0)
    \<and> (case sub_heap ! 0 of OSub s \<Rightarrow> committed (SubEnable (subName s)) (trace slot_env False (Update 0) sub_heap 0)
       | _ \<Rightarrow> trace slot_env False (Update 0) sub_heap 0 = [])"
proof -
  have "fst (run slot_env False (Delete 0) sub_heap 0) = Returned None"
    "fst (run slot_env False (Update 0) sub_heap 0) = Returned None"
    by (simp_all add: sub_heap_def slot_env_def Delete_def Update_def Subscription_Delete_def Subscription_Update_def
      call_defs scan_defs)
  then show ?thesis using delete_update_nil_means_done[of slot_env False 0 sub_heap 0] by blast
qed

text \<open>
  Claim C27: Waiting ends with the context. If the context is done after finitely many calls, the
  two polling loops return, whatever the server answers until then: a bound of iterations above
  the calls that are left is never used up.
\<close>

theorem polling_ends:
  assumes "deadline env left" and "left w < fuel" and "h ! r = OWait v \<or> h ! r = OCatchup u"
  shows "fst (run env c (Create fuel r) h w) \<noteq> Spinning"
proof -
  have "returns env c h (create_of fuel r (h ! r)) w"
    using assms(3)
  proof
    assume "h ! r = OWait v"
    with returns_wait_loop[OF assms(1,2)] show ?thesis
      by (auto simp: WaitForSyncEvent_Create_def Let_def intro!: returns_intros split: option.split)
  next
    assume "h ! r = OCatchup u"
    with returns_catchup_loop[OF assms(1,2)] show ?thesis
      by (auto simp: PeerCatchup_Create_def Let_def intro!: returns_intros split: option.split)
  qed
  then show ?thesis by (simp add: returns_def Create_def)
qed

definition clock_env :: "(nat, request, reply) env" where
  "clock_env c q w = (case q of
       ContextErr \<Rightarrow> (if w = 0 then RErr ErrDeadlineExceeded else ROk, w)
     | PoolQueryRow cn s \<Rightarrow> (RBool False, w - 1)
     | _ \<Rightarrow> (ROk, w - 1))"

definition catchup_heap :: heap where
  "catchup_heap = [OSyncEvent ((NewSyncEvent ''n2'' ''n1'' (Some 1) [])\<lparr>se_LSN := ''0/16B3748''\<rparr>),
     OCatchup (NewPeerCatchup ''n2'' ''n1'' (Some 0) (Some 0))]"

theorem polling_ends_witness:
  "fst (run clock_env False (Create 41 1) catchup_heap 40) \<noteq> Spinning"
  by (rule polling_ends[of _ "\<lambda>w. w"])
    (auto simp: deadline_def clock_env_def catchup_heap_def split: request.split)

end
