(* ===== verification/Handoff.thy ===== *)
theory Handoff
  imports Spock_Methods
begin

text \<open>
  What the populate resources hand to each other through pointers: the LSN of a \<open>SyncEvent\<close>, the
  commit timestamp of a \<open>LagTrackerCommitTimestamp\<close>, and the LSN a
  \<open>ReplicationSlotAdvanceFromCTS\<close> advanced its slot to.
\<close>

subsection \<open>The calls, the result and the heap of a run\<close>

text \<open>
  \<open>outcomes p h Q\<close>: wherever \<open>p\<close>, started on the heap \<open>h\<close>, returns, its calls, its result and the
  heap it leaves satisfy \<open>Q\<close>, whatever the replies.
\<close>

primrec outcomes :: "('o, 'a) program \<Rightarrow> 'o list \<Rightarrow> ((request \<times> reply) list \<Rightarrow> 'a \<Rightarrow> 'o list \<Rightarrow> bool) \<Rightarrow> bool" where
  "outcomes (Return a) = (\<lambda>h Q. Q [] a h)"
| "outcomes Panic = (\<lambda>h Q. True)"
| "outcomes Spin = (\<lambda>h Q. True)"
| "outcomes (Call q k) = (\<lambda>h Q. \<forall>s. outcomes (k s) h (\<lambda>qs. Q ((q, s) # qs)))"
| "outcomes (Load r k) = (\<lambda>h Q. r < length h \<longrightarrow> outcomes (k (h ! r)) h Q)"
| "outcomes (Store r f p) = (\<lambda>h Q. r < length h \<longrightarrow> outcomes p (h[r := f (h ! r)]) Q)"

lemma outcomes_run:
  "outcomes p h Q \<Longrightarrow> run env c p h w = (Returned a, h', w') \<Longrightarrow> Q (trace env c p h w) a h'"
proof (induction p arbitrary: Q h w rule: prog_induct)
  case (Call q k)
  obtain s w1 where e: "env c q w = (s, w1)" by fastforce
  from Call.prems have "outcomes (k s) h (\<lambda>qs. Q ((q, s) # qs))" by simp
  from Call.IH[OF this] Call.prems(2) e show ?case by simp
qed (auto split: if_splits)

named_theorems outcome_intros "the outcomes of the program combinators"

lemma outcomes_ask [outcome_intros]:
  "(\<And>s. outcomes (k s) h (\<lambda>qs. Q ((q, s) # qs))) \<Longrightarrow> outcomes (ask q k) h Q"
  by (simp add: ask_def split: reply.split)

lemma outcomes_failed [outcome_intros]: "Q [] (Some (Wrapf msg e)) h \<Longrightarrow> outcomes (failed msg e) h Q"
  by (simp add: failed_def)

lemma outcomes_return [outcome_intros]: "Q [] a h \<Longrightarrow> outcomes (Return a) h Q"
  by simp

lemma outcomes_store [outcome_intros]:
  "(r < length h \<Longrightarrow> outcomes p (h[r := f (h ! r)]) Q) \<Longrightarrow> outcomes (Store r f p) h Q"
  by simp

lemma outcomes_exec [outcome_intros]:
  assumes "\<And>s e. err_of s = Some e \<Longrightarrow> Q [(q, s)] (Some (Wrapf msg e)) h"
    and "\<And>s. err_of s = None \<Longrightarrow> outcomes p h (\<lambda>qs. Q ((q, s) # qs))"
  shows "outcomes (exec q msg p) h Q"
  unfolding exec_def unless_def
  by (rule outcomes_ask) (use assms in \<open>auto intro: outcome_intros split: option.split\<close>)

lemma outcomes_query_bool [outcome_intros]:
  assumes "\<And>s e. Q [(q, s)] (Some (Wrapf msg e)) h"
    and "\<And>b. outcomes (k b) h (\<lambda>qs. Q ((q, RBool b) # qs))"
  shows "outcomes (query_bool q msg k) h Q"
  unfolding query_bool_def scanned_def scan_bool_def
  by (rule outcomes_ask) (use assms in \<open>auto intro: outcome_intros split: reply.split\<close>)

lemma outcomes_query_text [outcome_intros]:
  assumes "\<And>s e. Q [(q, s)] (Some (Wrapf msg e)) h"
    and "\<And>b. outcomes (k b) h (\<lambda>qs. Q ((q, RText b) # qs))"
  shows "outcomes (query_text q msg k) h Q"
  unfolding query_text_def scanned_def scan_text_def
  by (rule outcomes_ask) (use assms in \<open>auto intro: outcome_intros split: reply.split\<close>)

lemma outcomes_cases [outcome_intros]:
  "(P \<Longrightarrow> outcomes a h Q) \<Longrightarrow> (\<not> P \<Longrightarrow> outcomes b h Q) \<Longrightarrow> outcomes (if P then a else b) h Q"
  "(\<And>e. err = Some e \<Longrightarrow> outcomes (f e) h Q) \<Longrightarrow> (err = None \<Longrightarrow> outcomes a h Q) \<Longrightarrow>
    outcomes (case err of Some e \<Rightarrow> f e | None \<Rightarrow> a) h Q"
  "(\<And>e. v = Inl e \<Longrightarrow> outcomes (g e) h Q) \<Longrightarrow> (\<And>x. v = Inr x \<Longrightarrow> outcomes (k x) h Q) \<Longrightarrow>
    outcomes (case v of Inl e \<Rightarrow> g e | Inr x \<Rightarrow> k x) h Q"
  "outcomes Panic h Q" "outcomes Spin h Q"
  by (auto split: option.split sum.split)

lemma outcomes_loads [outcome_intros]:
  "(\<And>e. evt < length h \<Longrightarrow> h ! evt = OSyncEvent e \<Longrightarrow> outcomes (k (se_LSN e)) h Q) \<Longrightarrow> outcomes (load_LSN evt k) h Q"
  "(lag = None \<Longrightarrow> outcomes (k' None) h Q) \<Longrightarrow>
    (\<And>r t. lag = Some r \<Longrightarrow> r < length h \<Longrightarrow> h ! r = OLag t \<Longrightarrow> outcomes (k' (lt_CommitTS t)) h Q) \<Longrightarrow>
    outcomes (load_CommitTS lag k') h Q"
  "(adv = None \<Longrightarrow> outcomes (k '''') h Q) \<Longrightarrow>
    (\<And>r a. adv = Some r \<Longrightarrow> r < length h \<Longrightarrow> h ! r = OSlotAdvance a \<Longrightarrow> outcomes (k (sa_AdvancedToLSN a)) h Q) \<Longrightarrow>
    outcomes (load_AdvancedToLSN adv k) h Q"
  by (auto simp: load_LSN_def load_CommitTS_def load_AdvancedToLSN_def split: object.split option.split)

lemma outcomes_in_tx [outcome_intros]:
  assumes "\<And>s e. Q [(Begin c, s)] (Some (Wrapf msg e)) h"
    and "\<And>t s. outcomes (body t) h (\<lambda>qs a h'. \<forall>s. Q ((Begin c, RTx t) # qs @ [(TxRollback t, s)]) a h')"
  shows "outcomes (in_tx c msg body) h Q"
proof -
  have rb: "outcomes p h (\<lambda>qs a h'. \<forall>s. Q (qs @ [(TxRollback t, s)]) a h') \<Longrightarrow>
      outcomes (Effects.bind p (\<lambda>res. ask (TxRollback t) (\<lambda>_. Return res))) h Q" for p h t Q
    by (induction p arbitrary: h Q rule: prog_induct) (auto intro: outcome_intros)
  show ?thesis
    unfolding in_tx_def
    by (rule outcomes_ask) (use assms in \<open>auto intro!: rb outcome_intros split: reply.split\<close>)
qed

subsection \<open>The slot and the origin\<close>

text \<open>After \<open>Create\<close> of a slot advance its field is empty, or the LSN of an advance that went through.\<close>

definition advanced_through :: "slot_advance \<Rightarrow> string \<Rightarrow> (request \<times> reply) list \<Rightarrow> bool" where
  "advanced_through a lsn qs \<longleftrightarrow>
     (\<exists>s. (PoolExec (sa_conn a) (SlotAdvance (advance_slotName a) lsn), s) \<in> set qs \<and> err_of s = None)"

lemma slot_advance_outcomes:
  assumes "h ! r = OSlotAdvance a" and "sa_lagTracker a \<noteq> Some r"
  shows "outcomes (ReplicationSlotAdvanceFromCTS_Create r a) h
    (\<lambda>qs res h'. \<exists>lsn. h' = h[r := OSlotAdvance (a\<lparr>sa_AdvancedToLSN := lsn\<rparr>)] \<and>
      (lsn = '''' \<or> res = None \<and> advanced_through a lsn qs))"
  unfolding ReplicationSlotAdvanceFromCTS_Create_def Let_def
  by (intro outcome_intros) (use assms in \<open>auto simp: set_AdvancedToLSN_def advanced_through_def\<close>)

text \<open>The LSN of a call that advances an origin.\<close>

primrec origin_target :: "request \<times> reply \<Rightarrow> string option" where
  "origin_target (q, s) = (case q of PoolExec cn (OriginAdvance nm lsn) \<Rightarrow> Some lsn | _ \<Rightarrow> None)"

lemma origin_advance_outcomes:
  assumes "oa_slotAdvance v = Some r" and "h ! r = OSlotAdvance a"
  shows "outcomes (ReplicationOriginAdvance_Create v) h (\<lambda>qs res h'. h' = h \<and>
    (sa_AdvancedToLSN a = '''' \<longrightarrow> qs = [] \<and> res = None) \<and>
    list_all (\<lambda>x. origin_target x \<in> {None, Some (sa_AdvancedToLSN a)}) qs)"
  unfolding ReplicationOriginAdvance_Create_def
  by (intro outcome_intros) (use assms in auto)

subsection \<open>The sync event and those who wait for it\<close>

lemma sync_event_outcomes:
  assumes "h ! r = OSyncEvent e"
  shows "outcomes (SyncEvent_Create r e) h (\<lambda>qs res h'. res = None \<longrightarrow>
    (\<exists>t lsn. (TxQueryRow t SendSyncEvent, RText lsn) \<in> set qs \<and> h' = h[r := OSyncEvent (e\<lparr>se_LSN := lsn\<rparr>)]))"
  unfolding SyncEvent_Create_def
  by (intro outcome_intros) (use assms in \<open>auto simp: set_LSN_def\<close>)

lemma outcomes_mono:
  "outcomes p h Q \<Longrightarrow> (\<And>qs a h'. Q qs a h' \<Longrightarrow> Q' qs a h') \<Longrightarrow> outcomes p h Q'"
proof (induction p arbitrary: h Q Q' rule: prog_induct)
  case (Call q k)
  have "outcomes (k s) h (\<lambda>qs. Q' ((q, s) # qs))" for s
    by (rule Call.IH[of s h "\<lambda>qs. Q ((q, s) # qs)"]) (use Call.prems in simp_all)
  then show ?case by simp
qed auto

lemma outcomes_done_or_after [outcome_intros]:
  assumes "\<And>s s'. Q [(DoneOrAfter n, s), (ContextErr, s')] (err_of s') h"
    and "\<And>s. outcomes p h (\<lambda>qs. Q ((DoneOrAfter n, s) # qs))"
  shows "outcomes (done_or_after n p) h Q"
  unfolding done_or_after_def
  by (rule outcomes_ask) (use assms in \<open>auto intro: outcome_intros split: reply.split\<close>)

text \<open>The LSNs a run asks the server about.\<close>

primrec lsn_of :: "request \<times> reply \<Rightarrow> string option" where
  "lsn_of (q, s) = (case q of
       PoolQueryRow cn (WaitSyncEvent p lsn n) \<Rightarrow> Some lsn
     | PoolQueryRow cn (ProgressReached lsn peer) \<Rightarrow> Some lsn
     | _ \<Rightarrow> None)"

abbreviation asks_only :: "string \<Rightarrow> (request \<times> reply) list \<Rightarrow> bool" where
  "asks_only l \<equiv> list_all (\<lambda>x. lsn_of x \<in> {None, Some l})"

lemma wait_loop_outcomes:
  "h ! evt = OSyncEvent e \<Longrightarrow> outcomes (wait_loop fuel v evt) h (\<lambda>qs res h'. h' = h \<and> asks_only (se_LSN e) qs)"
proof (induction fuel)
  case (Suc fuel)
  show ?case
    unfolding wait_loop.simps Let_def
    by (intro outcome_intros; ((use Suc.prems in \<open>simp; fail\<close>) | rule outcomes_mono[OF Suc.IH[OF Suc.prems]], use Suc.prems in simp))
qed simp

lemma catchup_loop_outcomes:
  "h ! evt = OSyncEvent e \<Longrightarrow> outcomes (catchup_loop fuel v evt) h (\<lambda>qs res h'. h' = h \<and> asks_only (se_LSN e) qs)"
proof (induction fuel)
  case (Suc fuel)
  show ?case
    unfolding catchup_loop.simps
    by (intro outcome_intros; ((use Suc.prems in \<open>simp; fail\<close>) | rule outcomes_mono[OF Suc.IH[OF Suc.prems]], use Suc.prems in simp))
qed simp

lemma waiting_outcomes:
  assumes "h ! evt = OSyncEvent e"
  shows "we_syncEvent v = Some evt \<Longrightarrow> outcomes (WaitForSyncEvent_Create fuel v) h
      (\<lambda>qs res h'. asks_only (se_LSN e) qs \<and> (se_LSN e = '''' \<longrightarrow> qs = [] \<and> res \<noteq> None))"
    and "pc_syncEvent u = Some evt \<Longrightarrow> outcomes (PeerCatchup_Create fuel u) h
      (\<lambda>qs res h'. asks_only (se_LSN e) qs \<and> (se_LSN e = '''' \<longrightarrow> qs = [] \<and> res \<noteq> None))"
proof -
  assume "we_syncEvent v = Some evt"
  then show "outcomes (WaitForSyncEvent_Create fuel v) h
      (\<lambda>qs res h'. asks_only (se_LSN e) qs \<and> (se_LSN e = '''' \<longrightarrow> qs = [] \<and> res \<noteq> None))"
    unfolding WaitForSyncEvent_Create_def Let_def
    using outcomes_mono[OF wait_loop_outcomes[OF assms]] assms
    by (auto intro!: outcomes_loads(1) outcomes_return outcomes_cases(1))
next
  assume "pc_syncEvent u = Some evt"
  then show "outcomes (PeerCatchup_Create fuel u) h
      (\<lambda>qs res h'. asks_only (se_LSN e) qs \<and> (se_LSN e = '''' \<longrightarrow> qs = [] \<and> res \<noteq> None))"
    unfolding PeerCatchup_Create_def Let_def
    using outcomes_mono[OF catchup_loop_outcomes[OF assms]] assms
    by (auto intro!: outcomes_loads(1) outcomes_return outcomes_cases(1))
qed

subsection \<open>Properties\<close>

definition answered_text :: "tx \<Rightarrow> string \<Rightarrow> (request \<times> reply) list \<Rightarrow> bool" where
  "answered_text t lsn qs \<longleftrightarrow> (TxQueryRow t SendSyncEvent, RText lsn) \<in> set qs"

lemma run_Create: "run env c (Create fuel r) h w = (Returned a, h', w') \<Longrightarrow> h ! r = ob \<Longrightarrow>
    run env c (create_of fuel r ob) h w = (Returned a, h', w') \<and>
    trace env c (Create fuel r) h w = trace env c (create_of fuel r ob) h w \<and> r < length h"
  by (auto simp: Create_def split: if_splits)

text \<open>
  Claim C25: The LSN a waiter asks about is the one the server gave. When \<open>Create\<close> of a
  \<open>SyncEvent\<close> has returned \<open>nil\<close>, the server has answered \<open>spock.sync_event()\<close> with some LSN, and
  a \<open>WaitForSyncEvent\<close> or \<open>PeerCatchup\<close> that points to it asks about no other.
\<close>

theorem sync_event_handoff:
  assumes "h ! r = OSyncEvent e" and "run env c (Create fuel r) h w = (Returned None, h1, w1)"
    and "h ! q = OWait v \<and> we_syncEvent v = Some r \<or> h ! q = OCatchup u \<and> pc_syncEvent u = Some r"
    and "run env c' (Create fuel q) h1 w2 = (Returned res, h2, w3)"
  shows "\<exists>t lsn. answered_text t lsn (trace env c (Create fuel r) h w) \<and>
    asks_only lsn (trace env c' (Create fuel q) h1 w2)"
proof -
  note first = run_Create[OF assms(2,1), simplified]
  from outcomes_run[OF sync_event_outcomes[OF assms(1)] conjunct1[OF first]] first
  obtain t lsn where lsn: "(TxQueryRow t SendSyncEvent, RText lsn) \<in> set (trace env c (Create fuel r) h w)"
    and h1: "h1 = h[r := OSyncEvent (e\<lparr>se_LSN := lsn\<rparr>)]" by auto
  have r: "r < length h" "q \<noteq> r" using first assms(1,3) by auto
  then have evt: "h1 ! r = OSyncEvent (e\<lparr>se_LSN := lsn\<rparr>)" and q: "h1 ! q = h ! q" using h1 by simp_all
  have "asks_only lsn (trace env c' (Create fuel q) h1 w2)"
    using assms(3)
  proof
    assume v: "h ! q = OWait v \<and> we_syncEvent v = Some r"
    with q run_Create[OF assms(4), of "OWait v"]
    have "run env c' (WaitForSyncEvent_Create fuel v) h1 w2 = (Returned res, h2, w3)"
      "trace env c' (Create fuel q) h1 w2 = trace env c' (WaitForSyncEvent_Create fuel v) h1 w2" by simp_all
    with outcomes_run[OF waiting_outcomes(1)[OF evt, of v fuel]] v show ?thesis by fastforce
  next
    assume u: "h ! q = OCatchup u \<and> pc_syncEvent u = Some r"
    with q run_Create[OF assms(4), of "OCatchup u"]
    have "run env c' (PeerCatchup_Create fuel u) h1 w2 = (Returned res, h2, w3)"
      "trace env c' (Create fuel q) h1 w2 = trace env c' (PeerCatchup_Create fuel u) h1 w2" by simp_all
    with outcomes_run[OF waiting_outcomes(2)[OF evt, of u fuel]] u show ?thesis by fastforce
  qed
  with lsn show ?thesis unfolding answered_text_def by blast
qed

definition handoff_env :: "(nat, request, reply) env" where
  "handoff_env c q w = ((case q of
       Begin cn \<Rightarrow> RTx 0
     | TxQueryRow t s \<Rightarrow> RText ''0/10''
     | PoolQueryRow cn (LsnFromCommitTs s ts) \<Rightarrow> RText ''0/20''
     | PoolQueryRow cn (SlotRestartLsn s) \<Rightarrow> RText ''0/08''
     | PoolQueryRow cn (ProgressReached l p) \<Rightarrow> RBool True
     | PoolQueryRow cn s \<Rightarrow> RBool False
     | _ \<Rightarrow> ROk), Suc w)"

abbreviation handoff_event :: sync_event where
  "handoff_event \<equiv> NewSyncEvent ''n2'' ''n1'' (Some 1) []"

abbreviation handoff_heap :: "string \<Rightarrow> heap" where
  "handoff_heap l \<equiv> [OSyncEvent (handoff_event\<lparr>se_LSN := l\<rparr>), OCatchup (NewPeerCatchup ''n2'' ''n1'' (Some 0) (Some 0))]"

theorem sync_event_handoff_witness:
  "\<exists>t lsn. answered_text t lsn (trace handoff_env False (Create 1 0) (handoff_heap '''') 0) \<and>
    asks_only lsn (trace handoff_env False (Create 1 1) (handoff_heap ''0/10'') 9)"
  by (rule sync_event_handoff[where h = "handoff_heap ''''" and e = "handoff_event" and res = None
        and u = "NewPeerCatchup ''n2'' ''n1'' (Some 0) (Some 0)" and ?w1.0 = 5 and ?h2.0 = "handoff_heap ''0/10''" and ?w3.0 = 11])
    (simp_all add: Create_def SyncEvent_Create_def PeerCatchup_Create_def handoff_env_def call_defs scan_defs
      set_LSN_def load_LSN_def new_defs Let_def)

text \<open>
  Claim C16: The origin on the subscriber is advanced only after the statement for the provider's slot.
  When \<open>Create\<close> of a \<open>ReplicationSlotAdvanceFromCTS\<close> has returned, with or without an error, the
  paired \<open>ReplicationOriginAdvance\<close> advances its origin only to the LSN with which the slot's advance
  statement (\<open>SlotAdvance\<close>) was executed without an error in that \<open>Create\<close>, and makes no call at all
  where that statement was skipped or failed. (Whether the statement moved the slot is not known to the
  code: its \<open>CASE\<close> leaves a slot where it is that has confirmed more than the target already.)
\<close>

theorem slot_origin_lockstep:
  assumes "h ! r = OSlotAdvance a" and "sa_lagTracker a \<noteq> Some r"
    and "run env c (Create fuel r) h w = (Returned res, h1, w1)"
    and "h ! q = OOriginAdvance v" and "oa_slotAdvance v = Some r"
    and "run env c' (Create fuel q) h1 w2 = (Returned res', h2, w3)"
  shows "list_all (\<lambda>x. case origin_target x of None \<Rightarrow> True
       | Some lsn \<Rightarrow> res = None \<and> advanced_through a lsn (trace env c (Create fuel r) h w))
      (trace env c' (Create fuel q) h1 w2)
    \<and> ((\<exists>lsn. advanced_through a lsn (trace env c (Create fuel r) h w)) \<and> res = None
       \<or> trace env c' (Create fuel q) h1 w2 = [])"
proof -
  note first = run_Create[OF assms(3,1), simplified]
  from outcomes_run[OF slot_advance_outcomes[where h = h and r = r, OF assms(1,2)] conjunct1[OF first]] first
  obtain lsn where lsn: "h1 = h[r := OSlotAdvance (a\<lparr>sa_AdvancedToLSN := lsn\<rparr>)]"
    "lsn = '''' \<or> res = None \<and> advanced_through a lsn (trace env c (Create fuel r) h w)" by auto
  have "r < length h" "q \<noteq> r" using first assms(1,4) by auto
  then have adv: "h1 ! r = OSlotAdvance (a\<lparr>sa_AdvancedToLSN := lsn\<rparr>)" and q: "h1 ! q = OOriginAdvance v"
    using lsn(1) assms(4) by simp_all
  note second = run_Create[OF assms(6) q, simplified]
  from outcomes_run[OF origin_advance_outcomes[OF assms(5) adv] conjunct1[OF second]] second
  have "lsn = '''' \<Longrightarrow> trace env c' (Create fuel q) h1 w2 = []"
    and "list_all (\<lambda>x. origin_target x \<in> {None, Some lsn}) (trace env c' (Create fuel q) h1 w2)"
    by simp_all
  with lsn(2) show ?thesis by (cases "lsn = ''''") (auto simp: list_all_iff)
qed

abbreviation lockstep_heap :: "string \<Rightarrow> heap" where
  "lockstep_heap l \<equiv>
     [OLag ((NewLagTrackerCommitTimestamp ''n2'' ''n3'' (Some 2) [])\<lparr>lt_CommitTS := Some 1000\<rparr>),
      OSlotAdvance ((NewReplicationSlotAdvanceFromCTS ''n2'' ''n3'' ''app'' (Some 0) (Some 1))\<lparr>sa_AdvancedToLSN := l\<rparr>),
      OOriginAdvance (NewReplicationOriginAdvance ''n2'' ''n3'' ''app'' (Some 1) (Some 2))]"

theorem slot_origin_lockstep_witness:
  "list_all (\<lambda>x. case origin_target x of None \<Rightarrow> True
       | Some lsn \<Rightarrow> None = (None :: goerror option) \<and>
           advanced_through (NewReplicationSlotAdvanceFromCTS ''n2'' ''n3'' ''app'' (Some 0) (Some 1)) lsn
             (trace handoff_env False (Create 0 1) (lockstep_heap '''') 0))
      (trace handoff_env False (Create 0 2) (lockstep_heap ''0/20'') 5)
    \<and> ((\<exists>lsn. advanced_through (NewReplicationSlotAdvanceFromCTS ''n2'' ''n3'' ''app'' (Some 0) (Some 1)) lsn
             (trace handoff_env False (Create 0 1) (lockstep_heap '''') 0)) \<and> None = (None :: goerror option)
       \<or> trace handoff_env False (Create 0 2) (lockstep_heap ''0/20'') 5 = [])"
  by (rule slot_origin_lockstep[where h = "lockstep_heap ''''" and res' = None and ?w1.0 = 5
        and ?h2.0 = "lockstep_heap ''0/20''" and ?w3.0 = 7
        and v = "NewReplicationOriginAdvance ''n2'' ''n3'' ''app'' (Some 1) (Some 2)"])
    (simp_all add: Create_def ReplicationSlotAdvanceFromCTS_Create_def ReplicationOriginAdvance_Create_def
      handoff_env_def call_defs scan_defs set_AdvancedToLSN_def load_CommitTS_def load_AdvancedToLSN_def new_defs Let_def)

end
