(* ===== verification/Desired.thy ===== *)
theory Desired
  imports Spock_Methods
begin

text \<open>
  \<open>internal/spock/desired.go\<close>: \<open>ComputeDesired\<close> and \<open>addPopulateResources\<close>, the graph of the
  resources a configuration calls for. A Go pointer is made by appending the object to the heap; the
  state of the function is the heap and the map \<open>resources\<close>.
\<close>

subsection \<open>The code\<close>

type_synonym resources = "heap \<times> ref resource_map"
type_synonym conns = "(string, nat) gomap"

text \<open>\<open>x := NewX(\<dots>); resources[x.Identifier()] = x\<close>\<close>

definition emit :: "object \<Rightarrow> resources \<Rightarrow> resources" where
  "emit ob s = (case s of (h, m) \<Rightarrow> (h @ [ob], put (Identifier ob) (length h) m))"

abbreviation next_ref :: "resources \<Rightarrow> ref" where
  "next_ref s \<equiv> length (fst s)"

definition conn_of :: "conns \<Rightarrow> string \<Rightarrow> conn" where
  "conn_of conns name = map_of conns name"

text \<open>The loop body of \<open>addPopulateResources\<close>; the list is \<open>peerWaitForSync\<close>.\<close>

definition populate_peer :: "config \<Rightarrow> node \<Rightarrow> conns \<Rightarrow> node \<Rightarrow> resources \<times> ident list \<Rightarrow> resources \<times> ident list" where
  "populate_peer cfg newNode conns peer acc = (case acc of (s, peerWaitForSync) \<Rightarrow>
     let sourceNode = SourceNode (Bootstrap newNode) in
     if Name peer = Name newNode \<or> Name peer = sourceNode then (s, peerWaitForSync) else
     let slotCreate = OSlotCreate (NewReplicationSlotCreate (Name peer) (Name newNode) (DBName cfg) (conn_of conns (Name peer)));
         s = emit slotCreate s;
         disabledSub = ODisabled (NewDisabledSubscription peer newNode (DBName cfg) (PgEdgeUser cfg) (conn_of conns (Name newNode)));
         s = emit disabledSub s;
         peerSyncEvt = OSyncEvent (NewSyncEvent (Name peer) sourceNode (conn_of conns (Name peer)) [Identifier slotCreate]);
         evt = next_ref s;
         s = emit peerSyncEvt s;
         peerWaitEvt = OWait (NewWaitForSyncEvent (Name peer) sourceNode (Some evt) (conn_of conns sourceNode));
         s = emit peerWaitEvt s;
         peerCatchup = OCatchup (NewPeerCatchup (Name peer) sourceNode (Some evt) (conn_of conns sourceNode));
         s = emit peerCatchup s;
         lagTracker = OLag (NewLagTrackerCommitTimestamp (Name peer) (Name newNode) (conn_of conns (Name newNode))
           [mk_id ResourceTypeWaitForSyncEvent (pair_id sourceNode (Name newNode))]);
         lag = next_ref s;
         s = emit lagTracker s;
         slotAdvance = OSlotAdvance (NewReplicationSlotAdvanceFromCTS (Name peer) (Name newNode) (DBName cfg) (Some lag)
           (conn_of conns (Name peer)));
         adv = next_ref s;
         s = emit slotAdvance s;
         originAdvance = OOriginAdvance (NewReplicationOriginAdvance (Name peer) (Name newNode) (DBName cfg) (Some adv)
           (conn_of conns (Name newNode)));
         s = emit originAdvance s
     in (s, peerWaitForSync @ [Identifier peerWaitEvt, Identifier peerCatchup]))"

definition addPopulateResources :: "config \<Rightarrow> node \<Rightarrow> conns \<Rightarrow> resources \<Rightarrow> resources \<times> ident list" where
  "addPopulateResources cfg newNode conns s =
     (case fold (populate_peer cfg newNode conns) (Nodes cfg) (s, []) of (s, peerWaitForSync) \<Rightarrow>
        let sourceNode = SourceNode (Bootstrap newNode);
            evt = next_ref s;
            s = emit (OSyncEvent (NewSyncEvent sourceNode (Name newNode) (conn_of conns sourceNode) [])) s;
            s = emit (OWait (NewWaitForSyncEvent sourceNode (Name newNode) (Some evt) (conn_of conns (Name newNode)))) s
        in (s, peerWaitForSync))"

text \<open>The end-state slot and subscription of a pair, the body of the nested loops.\<close>

definition pair_resources :: "config \<Rightarrow> conns \<Rightarrow> (string, node) gomap \<Rightarrow> (string, ident list) gomap \<Rightarrow> node \<Rightarrow> node
    \<Rightarrow> resources \<Rightarrow> resources" where
  "pair_resources cfg conns newNodes peerDeps src dst s =
     (if Name src = Name dst then s else
      let s = emit (OSlot (NewReplicationSlot (Name src) (Name dst) (DBName cfg) (conn_of conns (Name src)))) s;
          sub = (\<lambda>sync extraDeps. OSub (NewSubscription src dst (DBName cfg) (PgEdgeUser cfg) sync
                   (conn_of conns (Name dst)) extraDeps));
          from_source = (case map_of newNodes (Name dst) of
              None \<Rightarrow> False
            | Some newNode \<Rightarrow> Name src = SourceNode (Bootstrap newNode))
      in if from_source then emit (sub True (get_or [] peerDeps (Name dst))) s
         else emit (sub False
           ((if has_key newNodes (Name dst)
             then [mk_id ResourceTypeReplicationOriginAdvance (pair_id (Name src) (Name dst))] else [])
            @ (case map_of newNodes (Name src) of
                 None \<Rightarrow> []
               | Some newNode \<Rightarrow>
                   [mk_id ResourceTypeWaitForSyncEvent (pair_id (SourceNode (Bootstrap newNode)) (Name src))]))) s)"

definition new_nodes :: "config \<Rightarrow> (string, node) gomap" where
  "new_nodes cfg = fold (\<lambda>n m. if Mode (Bootstrap n) = ''spock'' \<and> SourceNode (Bootstrap n) \<noteq> '''' then put (Name n) n m else m)
     (Nodes cfg) []"

definition user_and_node :: "config \<Rightarrow> conns \<Rightarrow> node \<Rightarrow> resources \<Rightarrow> resources" where
  "user_and_node cfg conns n s =
     (let s = emit (OUser (NewPgEdgeUser n (DBName cfg) (PgEdgeUser cfg) (conn_of conns (Name n)))) s
      in emit (ONode (NewSpockNode n (DBName cfg) (PgEdgeUser cfg) (conn_of conns (Name n)))) s)"

text \<open>\<open>ord\<close> is the order in which the code ranges over the map of the new nodes.\<close>

definition ComputeDesired :: "(string list \<Rightarrow> string list) \<Rightarrow> config \<Rightarrow> conns \<Rightarrow> heap \<Rightarrow> resources" where
  "ComputeDesired ord cfg conns h =
     (let s = fold (user_and_node cfg conns) (Nodes cfg) (h, []);
          newNodes = new_nodes cfg
      in case fold (\<lambda>name (s, peerDeps).
                 let newNode = the (map_of newNodes name) in
                 case addPopulateResources cfg newNode conns s of (s, deps) \<Rightarrow> (s, put (Name newNode) deps peerDeps))
              (ord (keys newNodes)) (s, []) of
           (s, peerDeps) \<Rightarrow>
             fold (\<lambda>src. fold (pair_resources cfg conns newNodes peerDeps src) (Nodes cfg)) (Nodes cfg) s)"

subsection \<open>The objects the code emits\<close>

text \<open>
  The same as a list: \<open>ComputeDesired\<close> emits \<open>desired_objects\<close>, one after the other. \<open>base\<close> is the
  address of the first of a group.
\<close>

definition is_new :: "node \<Rightarrow> bool" where
  "is_new n \<longleftrightarrow> Mode (Bootstrap n) = ''spock'' \<and> SourceNode (Bootstrap n) \<noteq> ''''"

abbreviation source_of :: "node \<Rightarrow> string" where
  "source_of n \<equiv> SourceNode (Bootstrap n)"

definition is_peer :: "node \<Rightarrow> node \<Rightarrow> bool" where
  "is_peer newNode peer \<longleftrightarrow> Name peer \<noteq> Name newNode \<and> Name peer \<noteq> source_of newNode"

definition peer_objects :: "config \<Rightarrow> node \<Rightarrow> conns \<Rightarrow> ref \<Rightarrow> node \<Rightarrow> object list" where
  "peer_objects cfg nn conns base p =
     (if is_peer nn p then
        [OSlotCreate (NewReplicationSlotCreate (Name p) (Name nn) (DBName cfg) (conn_of conns (Name p))),
         ODisabled (NewDisabledSubscription p nn (DBName cfg) (PgEdgeUser cfg) (conn_of conns (Name nn))),
         OSyncEvent (NewSyncEvent (Name p) (source_of nn) (conn_of conns (Name p))
           [mk_id ResourceTypeReplicationSlotCreate (spock_slot_name (DBName cfg) (Name p) (Name nn))]),
         OWait (NewWaitForSyncEvent (Name p) (source_of nn) (Some (base + 2)) (conn_of conns (source_of nn))),
         OCatchup (NewPeerCatchup (Name p) (source_of nn) (Some (base + 2)) (conn_of conns (source_of nn))),
         OLag (NewLagTrackerCommitTimestamp (Name p) (Name nn) (conn_of conns (Name nn))
           [mk_id ResourceTypeWaitForSyncEvent (pair_id (source_of nn) (Name nn))]),
         OSlotAdvance (NewReplicationSlotAdvanceFromCTS (Name p) (Name nn) (DBName cfg) (Some (base + 5)) (conn_of conns (Name p))),
         OOriginAdvance (NewReplicationOriginAdvance (Name p) (Name nn) (DBName cfg) (Some (base + 6)) (conn_of conns (Name nn)))]
      else [])"

fun peers_objects :: "config \<Rightarrow> node \<Rightarrow> conns \<Rightarrow> ref \<Rightarrow> node list \<Rightarrow> object list" where
  "peers_objects cfg nn conns base [] = []"
| "peers_objects cfg nn conns base (p # ps) =
     peer_objects cfg nn conns base p @
     peers_objects cfg nn conns (base + length (peer_objects cfg nn conns base p)) ps"

definition source_objects :: "node \<Rightarrow> conns \<Rightarrow> ref \<Rightarrow> object list" where
  "source_objects nn conns base =
     [OSyncEvent (NewSyncEvent (source_of nn) (Name nn) (conn_of conns (source_of nn)) []),
      OWait (NewWaitForSyncEvent (source_of nn) (Name nn) (Some base) (conn_of conns (Name nn)))]"

definition populate_objects :: "config \<Rightarrow> node \<Rightarrow> conns \<Rightarrow> ref \<Rightarrow> object list" where
  "populate_objects cfg nn conns base =
     (let ps = peers_objects cfg nn conns base (Nodes cfg) in ps @ source_objects nn conns (base + length ps))"

definition peer_gates :: "node \<Rightarrow> node \<Rightarrow> ident list" where
  "peer_gates nn p = (if is_peer nn p then
     [mk_id ResourceTypeWaitForSyncEvent (pair_id (Name p) (source_of nn)),
      mk_id ResourceTypePeerCatchup (pair_id (Name p) (source_of nn))] else [])"

definition gates :: "config \<Rightarrow> node \<Rightarrow> ident list" where
  "gates cfg nn = concat (map (peer_gates nn) (Nodes cfg))"

definition pair_deps :: "(string, node) gomap \<Rightarrow> string \<Rightarrow> string \<Rightarrow> ident list" where
  "pair_deps newNodes a b =
     (if has_key newNodes b then [mk_id ResourceTypeReplicationOriginAdvance (pair_id a b)] else [])
     @ (case map_of newNodes a of None \<Rightarrow> []
        | Some nn \<Rightarrow> [mk_id ResourceTypeWaitForSyncEvent (pair_id (source_of nn) a)])"

definition from_source :: "(string, node) gomap \<Rightarrow> string \<Rightarrow> string \<Rightarrow> bool" where
  "from_source newNodes a b \<longleftrightarrow> (case map_of newNodes b of None \<Rightarrow> False | Some nn \<Rightarrow> a = source_of nn)"

definition pair_objects :: "config \<Rightarrow> conns \<Rightarrow> (string, node) gomap \<Rightarrow> (string, ident list) gomap \<Rightarrow> node \<Rightarrow> node \<Rightarrow> object list" where
  "pair_objects cfg conns newNodes peerDeps a b =
     (if Name a = Name b then [] else
        [OSlot (NewReplicationSlot (Name a) (Name b) (DBName cfg) (conn_of conns (Name a))),
         OSub (if from_source newNodes (Name a) (Name b)
           then NewSubscription a b (DBName cfg) (PgEdgeUser cfg) True (conn_of conns (Name b)) (get_or [] peerDeps (Name b))
           else NewSubscription a b (DBName cfg) (PgEdgeUser cfg) False (conn_of conns (Name b))
             (pair_deps newNodes (Name a) (Name b)))])"

definition base_objects :: "config \<Rightarrow> conns \<Rightarrow> node \<Rightarrow> object list" where
  "base_objects cfg conns n =
     [OUser (NewPgEdgeUser n (DBName cfg) (PgEdgeUser cfg) (conn_of conns (Name n))),
      ONode (NewSpockNode n (DBName cfg) (PgEdgeUser cfg) (conn_of conns (Name n)))]"

lemma fold_emit: "fst (fold emit obs s) = fst s @ obs"
  by (induction obs arbitrary: s) (auto simp: emit_def split: prod.splits)

lemma populate_peer_emits:
  "populate_peer cfg nn conns p (s, ds) = (fold emit (peer_objects cfg nn conns (next_ref s) p) s, ds @ peer_gates nn p)"
  by (cases s) (simp add: populate_peer_def peer_objects_def peer_gates_def is_peer_def Let_def emit_def new_defs
      create_slotName_def)

lemma populate_peers_emit:
  "fold (populate_peer cfg nn conns) ps (s, ds) =
     (fold emit (peers_objects cfg nn conns (next_ref s) ps) s, ds @ concat (map (peer_gates nn) ps))"
  by (induction ps arbitrary: s ds) (simp_all add: populate_peer_emits fold_emit)

lemma addPopulateResources_emits:
  "addPopulateResources cfg nn conns s = (fold emit (populate_objects cfg nn conns (next_ref s)) s, gates cfg nn)"
  by (simp add: addPopulateResources_def populate_peers_emit populate_objects_def source_objects_def gates_def Let_def fold_emit)

lemma user_and_node_emits: "user_and_node cfg conns n = fold emit (base_objects cfg conns n)"
  by (rule ext) (simp add: user_and_node_def base_objects_def Let_def)

lemma pair_resources_emits:
  "pair_resources cfg conns newNodes peerDeps a b = fold emit (pair_objects cfg conns newNodes peerDeps a b)"
  by (rule ext) (simp add: pair_resources_def pair_objects_def from_source_def pair_deps_def Let_def)

fun all_populate :: "config \<Rightarrow> conns \<Rightarrow> (string, node) gomap \<Rightarrow> ref \<Rightarrow> string list \<Rightarrow> object list" where
  "all_populate cfg conns newNodes base [] = []"
| "all_populate cfg conns newNodes base (name # names) =
     (let os = populate_objects cfg (the (map_of newNodes name)) conns base
      in os @ all_populate cfg conns newNodes (base + length os) names)"

definition peer_deps :: "config \<Rightarrow> (string, node) gomap \<Rightarrow> string list \<Rightarrow> (string, ident list) gomap" where
  "peer_deps cfg newNodes names =
     fold (\<lambda>name. let nn = the (map_of newNodes name) in put (Name nn) (gates cfg nn)) names []"

definition pairs_objects :: "config \<Rightarrow> conns \<Rightarrow> (string, node) gomap \<Rightarrow> (string, ident list) gomap \<Rightarrow> object list" where
  "pairs_objects cfg conns newNodes peerDeps =
     concat (map (\<lambda>a. concat (map (pair_objects cfg conns newNodes peerDeps a) (Nodes cfg))) (Nodes cfg))"

definition desired_objects :: "(string list \<Rightarrow> string list) \<Rightarrow> config \<Rightarrow> conns \<Rightarrow> ref \<Rightarrow> object list" where
  "desired_objects ord cfg conns base =
     (let bs = concat (map (base_objects cfg conns) (Nodes cfg));
          names = ord (keys (new_nodes cfg))
      in bs @ all_populate cfg conns (new_nodes cfg) (base + length bs) names
         @ pairs_objects cfg conns (new_nodes cfg) (peer_deps cfg (new_nodes cfg) names))"

lemma fold_emit_concat: "fold (\<lambda>x. fold emit (f x)) xs s = fold emit (concat (map f xs)) s"
  by (induction xs arbitrary: s) auto

lemma populate_fold_emits:
  "fold (\<lambda>name (s, peerDeps). let newNode = the (map_of newNodes name) in
        case addPopulateResources cfg newNode conns s of (s, deps) \<Rightarrow> (s, put (Name newNode) deps peerDeps)) names (s, ds)
   = (fold emit (all_populate cfg conns newNodes (next_ref s) names) s,
      fold (\<lambda>name. let nn = the (map_of newNodes name) in put (Name nn) (gates cfg nn)) names ds)"
  by (induction names arbitrary: s ds) (simp_all add: addPopulateResources_emits fold_emit Let_def)

lemma ComputeDesired_emits:
  "ComputeDesired ord cfg conns h = fold emit (desired_objects ord cfg conns (length h)) (h, [])"
proof -
  let ?bs = "concat (map (base_objects cfg conns) (Nodes cfg))"
  have users: "fold (user_and_node cfg conns) (Nodes cfg) s = fold emit ?bs s" for s
  proof -
    have "user_and_node cfg conns = (\<lambda>n. fold emit (base_objects cfg conns n))"
      by (rule ext) (rule user_and_node_emits)
    then show ?thesis by (simp only: fold_emit_concat)
  qed
  have pairs: "fold (\<lambda>src. fold (pair_resources cfg conns nn ds src) (Nodes cfg)) (Nodes cfg) s
      = fold emit (pairs_objects cfg conns nn ds) s" for nn ds s
  proof -
    have "pair_resources cfg conns nn ds = (\<lambda>a b. fold emit (pair_objects cfg conns nn ds a b))"
      by (intro ext) (simp add: pair_resources_emits)
    then have "(\<lambda>src. fold (pair_resources cfg conns nn ds src) (Nodes cfg))
        = (\<lambda>a. fold emit (concat (map (pair_objects cfg conns nn ds a) (Nodes cfg))))"
      by (intro ext) (simp add: fold_emit_concat)
    then show ?thesis unfolding pairs_objects_def by (simp only: fold_emit_concat)
  qed
  show ?thesis
    unfolding ComputeDesired_def Let_def users populate_fold_emits[unfolded Let_def] prod.case pairs desired_objects_def
      fold_emit fst_conv length_append
    by (simp add: peer_deps_def Let_def)
qed

subsection \<open>The map is well keyed\<close>

text \<open>
  A pointer leads to an object made before, of the type the field declares, whose identifier is among
  the dependencies of the one that has the pointer; and no field that the methods follow is \<open>nil\<close>.
\<close>

primrec pointee_type :: "object \<Rightarrow> string" where
  "pointee_type (OUser u) = ''''"
| "pointee_type (ONode n) = ''''"
| "pointee_type (OSlot s) = ''''"
| "pointee_type (OSub s) = ''''"
| "pointee_type (OSlotCreate s) = ''''"
| "pointee_type (OSyncEvent e) = ''''"
| "pointee_type (OWait v) = ResourceTypeSyncEvent"
| "pointee_type (OLag t) = ''''"
| "pointee_type (OSlotAdvance a) = ResourceTypeLagTrackerCommitTS"
| "pointee_type (ODisabled s) = ''''"
| "pointee_type (OOriginAdvance a) = ResourceTypeReplicationSlotAdvanceFromCTS"
| "pointee_type (OCatchup v) = ResourceTypeSyncEvent"

definition wired :: "heap \<Rightarrow> object \<Rightarrow> bool" where
  "wired h ob \<longleftrightarrow> (case pointer ob of
       None \<Rightarrow> pointee_type ob = ''''
     | Some q \<Rightarrow> q < length h \<and> Type (Identifier (h ! q)) = pointee_type ob \<and> Identifier (h ! q) \<in> set (Dependencies ob))"

fun all_wired :: "heap \<Rightarrow> object list \<Rightarrow> bool" where
  "all_wired h [] \<longleftrightarrow> True"
| "all_wired h (ob # obs) \<longleftrightarrow> wired h ob \<and> all_wired (h @ [ob]) obs"

definition well_formed :: "resources \<Rightarrow> bool" where
  "well_formed s \<longleftrightarrow> (case s of (h, m) \<Rightarrow>
     distinct (keys m) \<and> (\<forall>(i, r)\<in>set m. r < length h \<and> Identifier (h ! r) = i) \<and> (\<forall>ob\<in>set h. wired h ob))"

lemma wired_append: "wired h ob \<Longrightarrow> wired (h @ obs) ob"
  by (auto simp: wired_def nth_append split: option.splits)

lemma all_wired_append: "all_wired h (xs @ ys) \<longleftrightarrow> all_wired h xs \<and> all_wired (h @ xs) ys"
  by (induction xs arbitrary: h) auto

lemma set_put: "set (put k v m) \<subseteq> insert (k, v) (set m)"
  by (induction m) auto

lemma well_formed_emit:
  assumes "well_formed s" and "wired (fst s) ob"
  shows "well_formed (emit ob s)"
proof -
  obtain h m where s: "s = (h, m)" by fastforce
  from assms have wf: "distinct (keys m)" "\<forall>(i, r)\<in>set m. r < length h \<and> Identifier (h ! r) = i" "\<forall>ob\<in>set h. wired h ob"
    "wired h ob" by (auto simp: well_formed_def s)
  have "\<forall>(i, r)\<in>set (put (Identifier ob) (length h) m). r < length (h @ [ob]) \<and> Identifier ((h @ [ob]) ! r) = i"
    using set_put[of "Identifier ob" "length h" m] wf(2) by (fastforce simp: nth_append)
  moreover have "\<forall>x\<in>set (h @ [ob]). wired (h @ [ob]) x" using wf(3,4) wired_append by auto
  ultimately show ?thesis using wf(1) by (simp add: well_formed_def emit_def s)
qed

lemma well_formed_fold: "well_formed s \<Longrightarrow> all_wired (fst s) obs \<Longrightarrow> well_formed (fold emit obs s)"
proof (induction obs arbitrary: s)
  case (Cons ob obs)
  then have "well_formed (emit ob s)" by (simp add: well_formed_emit)
  moreover have "fst (emit ob s) = fst s @ [ob]" by (simp add: emit_def split: prod.splits)
  ultimately show ?case using Cons by simp
qed simp

lemma unpointed: "\<forall>ob\<in>set obs. pointer ob = None \<and> pointee_type ob = '''' \<Longrightarrow> all_wired h obs"
  by (induction obs arbitrary: h) (auto simp: wired_def)

lemma wired_peer: "length h = base \<Longrightarrow> all_wired h (peer_objects cfg nn conns base p)"
  by (simp add: peer_objects_def wired_def nth_append new_defs)

lemma wired_peers: "all_wired h (peers_objects cfg nn conns (length h) ps)"
proof (induction ps arbitrary: h)
  case (Cons p ps)
  from Cons.IH[of "h @ peer_objects cfg nn conns (length h) p"] wired_peer[OF refl] show ?case
    by (simp add: all_wired_append)
qed simp

lemma wired_populate: "all_wired h (populate_objects cfg nn conns (length h))"
  by (simp add: populate_objects_def source_objects_def Let_def all_wired_append wired_peers wired_def nth_append new_defs)

lemma wired_all_populate: "all_wired h (all_populate cfg conns nns (length h) names)"
proof (induction names arbitrary: h)
  case (Cons name names)
  from Cons.IH[of "h @ populate_objects cfg (the (map_of nns name)) conns (length h)"] wired_populate show ?case
    by (simp add: all_wired_append Let_def)
qed simp

lemma wired_desired: "all_wired h (desired_objects ord cfg conns (length h))"
  unfolding desired_objects_def Let_def all_wired_append
  using wired_all_populate[of "h @ concat (map (base_objects cfg conns) (Nodes cfg))"]
  by (auto intro!: unpointed simp: base_objects_def pairs_objects_def pair_objects_def new_defs split: if_splits)

lemma desired_well_formed: "well_formed (ComputeDesired ord cfg conns [])"
  unfolding ComputeDesired_emits
  by (rule well_formed_fold) (use wired_desired[of "[]"] in \<open>simp_all add: well_formed_def\<close>)

subsection \<open>What is in the map\<close>

lemma new_nodes_inv:
  "(\<And>k n. map_of m k = Some n \<Longrightarrow> Name n = k \<and> n \<in> A \<and> is_new n) \<Longrightarrow> set ns \<subseteq> A \<Longrightarrow>
   map_of (fold (\<lambda>n m. if Mode (Bootstrap n) = ''spock'' \<and> SourceNode (Bootstrap n) \<noteq> '''' then put (Name n) n m else m) ns m) k = Some n
   \<Longrightarrow> Name n = k \<and> n \<in> A \<and> is_new n"
proof (induction ns arbitrary: m)
  case (Cons x ns)
  let ?m = "if Mode (Bootstrap x) = ''spock'' \<and> SourceNode (Bootstrap x) \<noteq> '''' then put (Name x) x m else m"
  have "Name n = k \<and> n \<in> A \<and> is_new n" if "map_of ?m k = Some n" for k n
    using that Cons.prems(1)[of k n] Cons.prems(2) by (auto simp: is_new_def split: if_splits)
  from Cons.IH[of ?m, OF this] Cons.prems(2,3) show ?case by simp
qed simp

lemma new_nodes_lookup:
  "map_of (new_nodes cfg) k = Some n \<Longrightarrow> Name n = k \<and> n \<in> set (Nodes cfg) \<and> is_new n"
  unfolding new_nodes_def by (rule new_nodes_inv[of "[]"]) auto

lemma new_nodes_keys:
  "fst ` set (fold (\<lambda>n m. if Mode (Bootstrap n) = ''spock'' \<and> SourceNode (Bootstrap n) \<noteq> '''' then put (Name n) n m else m) ns m)
     = fst ` set m \<union> {Name n | n. n \<in> set ns \<and> is_new n}"
  by (induction ns arbitrary: m) (auto simp: is_new_def)

lemma has_new_node: "has_key (new_nodes cfg) k \<longleftrightarrow> (\<exists>n\<in>set (Nodes cfg). Name n = k \<and> is_new n)"
  unfolding has_key_iff new_nodes_def set_map new_nodes_keys by auto

lemma new_nodes_distinct: "distinct (keys (new_nodes cfg))"
proof -
  have "distinct (keys m) \<Longrightarrow> distinct (keys (fold (\<lambda>n m. if Mode (Bootstrap n) = ''spock'' \<and> SourceNode (Bootstrap n) \<noteq> ''''
      then put (Name n) n m else m) ns m))" for ns and m :: "(string, node) gomap"
    by (induction ns arbitrary: m) (auto simp: distinct_put)
  then show ?thesis by (simp add: new_nodes_def)
qed

lemma in_peers_objects:
  "ob \<in> set (peers_objects cfg nn conns base ps) \<Longrightarrow> \<exists>p\<in>set ps. \<exists>b. ob \<in> set (peer_objects cfg nn conns b p)"
  by (induction ps arbitrary: base) auto

lemma peers_objects_has:
  "p \<in> set ps \<Longrightarrow> \<exists>b. set (peer_objects cfg nn conns b p) \<subseteq> set (peers_objects cfg nn conns base ps)"
proof (induction ps arbitrary: base)
  case (Cons x ps)
  show ?case
  proof (cases "p = x")
    case False
    with Cons obtain b where "set (peer_objects cfg nn conns b p)
        \<subseteq> set (peers_objects cfg nn conns (base + length (peer_objects cfg nn conns base x)) ps)" by fastforce
    then show ?thesis by auto
  qed auto
qed simp

lemma in_all_populate:
  "ob \<in> set (all_populate cfg conns nns base names) \<Longrightarrow>
   \<exists>name\<in>set names. \<exists>b. ob \<in> set (populate_objects cfg (the (map_of nns name)) conns b)"
  by (induction names arbitrary: base) (auto simp: Let_def)

lemma all_populate_has:
  "name \<in> set names \<Longrightarrow>
   \<exists>b. set (populate_objects cfg (the (map_of nns name)) conns b) \<subseteq> set (all_populate cfg conns nns base names)"
proof (induction names arbitrary: base)
  case (Cons x names)
  show ?case
  proof (cases "name = x")
    case False
    with Cons obtain b where "set (populate_objects cfg (the (map_of nns name)) conns b) \<subseteq>
      set (all_populate cfg conns nns (base + length (populate_objects cfg (the (map_of nns x)) conns base)) names)" by fastforce
    then show ?thesis by (auto simp: Let_def)
  qed (auto simp: Let_def)
qed simp

lemma peer_deps_get:
  assumes "set names = set (keys (new_nodes cfg))" and "map_of (new_nodes cfg) k = Some nn"
  shows "get_or [] (peer_deps cfg (new_nodes cfg) names) k = gates cfg nn"
proof -
  have "get_or [] (fold (\<lambda>name. let nn = the (map_of (new_nodes cfg) name) in put (Name nn) (gates cfg nn)) ns m) k
      = (if k \<in> set ns then gates cfg nn else get_or [] m k)" if "set ns \<subseteq> set (keys (new_nodes cfg))" for ns m
    using that
  proof (induction ns arbitrary: m)
    case (Cons x ns)
    then obtain n where "map_of (new_nodes cfg) x = Some n" "Name n = x"
      using keys_lookup[of x "new_nodes cfg"] new_nodes_lookup by fastforce
    with Cons assms(2) show ?case by (auto simp: Let_def)
  qed simp
  moreover have "k \<in> set names" using assms map_of_in_keys[OF assms(2)] by simp
  ultimately show ?thesis using assms(1) by (simp add: peer_deps_def)
qed

text \<open>The objects, by where they come from.\<close>

lemma in_desired:
  assumes "ob \<in> set (desired_objects ord cfg conns base)" and "\<And>ks. set (ord ks) = set ks"
  obtains (base) n where "n \<in> set (Nodes cfg)" "ob \<in> set (base_objects cfg conns n)"
  | (peer) nn p b where "nn \<in> set (Nodes cfg)" "is_new nn" "map_of (new_nodes cfg) (Name nn) = Some nn"
      "p \<in> set (Nodes cfg)" "ob \<in> set (peer_objects cfg nn conns b p)"
  | (source) nn b where "nn \<in> set (Nodes cfg)" "is_new nn" "map_of (new_nodes cfg) (Name nn) = Some nn"
      "ob \<in> set (source_objects nn conns b)"
  | (pair) a b names where "a \<in> set (Nodes cfg)" "b \<in> set (Nodes cfg)" "set names = set (keys (new_nodes cfg))"
      "ob \<in> set (pair_objects cfg conns (new_nodes cfg) (peer_deps cfg (new_nodes cfg) names) a b)"
proof -
  consider (1) "ob \<in> set (concat (map (base_objects cfg conns) (Nodes cfg)))"
    | (2) b where "ob \<in> set (all_populate cfg conns (new_nodes cfg) b (ord (keys (new_nodes cfg))))"
    | (3) "ob \<in> set (pairs_objects cfg conns (new_nodes cfg) (peer_deps cfg (new_nodes cfg) (ord (keys (new_nodes cfg)))))"
    using assms(1) by (auto simp: desired_objects_def Let_def)
  then show thesis
  proof cases
    case 1
    then show ?thesis using base by auto
  next
    case 2
    from in_all_populate[OF this] obtain name b where nb: "name \<in> set (keys (new_nodes cfg))"
      "ob \<in> set (populate_objects cfg (the (map_of (new_nodes cfg) name)) conns b)" using assms(2) by auto
    then obtain nn where nn: "map_of (new_nodes cfg) name = Some nn" using keys_lookup[of name] by auto
    from new_nodes_lookup[OF nn] have n: "Name nn = name" "nn \<in> set (Nodes cfg)" "is_new nn" by auto
    from nb(2) nn have "ob \<in> set (populate_objects cfg nn conns b)" by simp
    then consider "ob \<in> set (peers_objects cfg nn conns b (Nodes cfg))" | b' where "ob \<in> set (source_objects nn conns b')"
      by (auto simp: populate_objects_def Let_def)
    then show ?thesis
    proof cases
      case 1
      from in_peers_objects[OF this] obtain p b' where "p \<in> set (Nodes cfg)" "ob \<in> set (peer_objects cfg nn conns b' p)"
        by blast
      then show ?thesis using peer n nn by blast
    next
      case (2 b')
      then show ?thesis using source n nn by blast
    qed
  next
    case 3
    then obtain a b where "a \<in> set (Nodes cfg)" "b \<in> set (Nodes cfg)"
      "ob \<in> set (pair_objects cfg conns (new_nodes cfg) (peer_deps cfg (new_nodes cfg) (ord (keys (new_nodes cfg)))) a b)"
      by (auto simp: pairs_objects_def)
    then show ?thesis using pair assms(2) by blast
  qed
qed

text \<open>The other way round, as identifiers.\<close>

abbreviation desired_ids :: "(string list \<Rightarrow> string list) \<Rightarrow> config \<Rightarrow> conns \<Rightarrow> ref \<Rightarrow> ident set" where
  "desired_ids ord cfg conns base \<equiv> Identifier ` set (desired_objects ord cfg conns base)"

definition peer_ids :: "config \<Rightarrow> node \<Rightarrow> node \<Rightarrow> ident list" where
  "peer_ids cfg nn p =
     [mk_id ResourceTypeReplicationSlotCreate (spock_slot_name (DBName cfg) (Name p) (Name nn)),
      mk_id ResourceTypeDisabledSubscription (spock_sub_name (Name p) (Name nn)),
      mk_id ResourceTypeSyncEvent (pair_id (Name p) (source_of nn)),
      mk_id ResourceTypeWaitForSyncEvent (pair_id (Name p) (source_of nn)),
      mk_id ResourceTypePeerCatchup (pair_id (Name p) (source_of nn)),
      mk_id ResourceTypeLagTrackerCommitTS (pair_id (Name p) (Name nn)),
      mk_id ResourceTypeReplicationSlotAdvanceFromCTS (pair_id (Name p) (Name nn)),
      mk_id ResourceTypeReplicationOriginAdvance (pair_id (Name p) (Name nn))]"

lemma peer_objects_ids: "is_peer nn p \<Longrightarrow> map Identifier (peer_objects cfg nn conns b p) = peer_ids cfg nn p"
  by (simp add: peer_objects_def peer_ids_def new_defs create_slotName_def disabled_subName_def)

lemma desired_has:
  assumes "\<And>ks. set (ord ks) = set ks"
  shows base_ids: "n \<in> set (Nodes cfg) \<Longrightarrow>
      {mk_id ResourceTypeUser (Name n), mk_id ResourceTypeNode (Name n)} \<subseteq> desired_ids ord cfg conns base"
    and pair_ids: "a \<in> set (Nodes cfg) \<Longrightarrow> b \<in> set (Nodes cfg) \<Longrightarrow> Name a \<noteq> Name b \<Longrightarrow>
      {mk_id ResourceTypeReplicationSlot (spock_slot_name (DBName cfg) (Name a) (Name b)),
       mk_id ResourceTypeSubscription (spock_sub_name (Name a) (Name b))} \<subseteq> desired_ids ord cfg conns base"
    and peers_ids: "map_of (new_nodes cfg) k = Some nn \<Longrightarrow> p \<in> set (Nodes cfg) \<Longrightarrow> is_peer nn p \<Longrightarrow>
      set (peer_ids cfg nn p) \<subseteq> desired_ids ord cfg conns base"
    and source_ids: "map_of (new_nodes cfg) k = Some nn \<Longrightarrow>
      {mk_id ResourceTypeSyncEvent (pair_id (source_of nn) (Name nn)),
       mk_id ResourceTypeWaitForSyncEvent (pair_id (source_of nn) (Name nn))} \<subseteq> desired_ids ord cfg conns base"
proof -
  let ?names = "ord (keys (new_nodes cfg))"
  show "{mk_id ResourceTypeUser (Name n), mk_id ResourceTypeNode (Name n)} \<subseteq> desired_ids ord cfg conns base"
    if "n \<in> set (Nodes cfg)"
  proof -
    have "Identifier ` set (base_objects cfg conns n) \<subseteq> desired_ids ord cfg conns base"
      using that by (intro image_mono) (auto simp: desired_objects_def Let_def)
    then show ?thesis by (simp add: base_objects_def new_defs)
  qed
  show "{mk_id ResourceTypeReplicationSlot (spock_slot_name (DBName cfg) (Name a) (Name b)),
       mk_id ResourceTypeSubscription (spock_sub_name (Name a) (Name b))} \<subseteq> desired_ids ord cfg conns base"
    if "a \<in> set (Nodes cfg)" "b \<in> set (Nodes cfg)" "Name a \<noteq> Name b"
  proof -
    have "Identifier ` set (pair_objects cfg conns (new_nodes cfg) (peer_deps cfg (new_nodes cfg) ?names) a b)
        \<subseteq> desired_ids ord cfg conns base"
      using that by (intro image_mono) (auto simp: desired_objects_def Let_def pairs_objects_def)
    then show ?thesis using that(3) by (auto simp: pair_objects_def new_defs slotName_def subName_def split: if_splits)
  qed
  have pop: "\<exists>b. set (populate_objects cfg nn conns b) \<subseteq> set (desired_objects ord cfg conns base)"
    if nn: "map_of (new_nodes cfg) k = Some nn" for k nn
  proof -
    have "k \<in> set ?names" using map_of_in_keys[OF nn] assms by simp
    from all_populate_has[OF this, of cfg "new_nodes cfg" conns] nn show ?thesis
      by (fastforce simp: desired_objects_def Let_def)
  qed
  show "set (peer_ids cfg nn p) \<subseteq> desired_ids ord cfg conns base"
    if nn: "map_of (new_nodes cfg) k = Some nn" "p \<in> set (Nodes cfg)" "is_peer nn p"
  proof -
    from pop[OF nn(1)] obtain b where b: "set (populate_objects cfg nn conns b) \<subseteq> set (desired_objects ord cfg conns base)" ..
    from peers_objects_has[OF nn(2)] obtain b'
      where "set (peer_objects cfg nn conns b' p) \<subseteq> set (peers_objects cfg nn conns b (Nodes cfg))" by blast
    with b have "set (peer_objects cfg nn conns b' p) \<subseteq> set (desired_objects ord cfg conns base)"
      by (auto simp: populate_objects_def Let_def)
    from image_mono[OF this, of Identifier] show ?thesis
      by (simp only: set_map[symmetric] peer_objects_ids[OF nn(3)])
  qed
  show "{mk_id ResourceTypeSyncEvent (pair_id (source_of nn) (Name nn)),
       mk_id ResourceTypeWaitForSyncEvent (pair_id (source_of nn) (Name nn))} \<subseteq> desired_ids ord cfg conns base"
    if nn: "map_of (new_nodes cfg) k = Some nn"
  proof -
    from pop[OF nn] obtain b where "set (populate_objects cfg nn conns b) \<subseteq> set (desired_objects ord cfg conns base)" ..
    then obtain b' where "set (source_objects nn conns b') \<subseteq> set (desired_objects ord cfg conns base)"
      by (auto simp: populate_objects_def Let_def)
    from image_mono[OF this, of Identifier] show ?thesis by (simp add: source_objects_def new_defs)
  qed
qed

text \<open>A source node is another node of the configuration.\<close>

definition sources_ok :: "config \<Rightarrow> bool" where
  "sources_ok cfg \<longleftrightarrow>
     list_all (\<lambda>n. is_new n \<longrightarrow> source_of n \<noteq> Name n \<and> source_of n \<in> set (map Name (Nodes cfg))) (Nodes cfg)"

lemma sources_okD:
  "sources_ok cfg \<Longrightarrow> n \<in> set (Nodes cfg) \<Longrightarrow> is_new n \<Longrightarrow>
   \<exists>s\<in>set (Nodes cfg). Name s = source_of n \<and> source_of n \<noteq> Name n"
  unfolding sources_ok_def list_all_iff set_map image_iff by metis

lemma desired_closed:
  assumes ord: "\<And>ks. set (ord ks) = set ks" and src: "sources_ok cfg"
    and ob: "ob \<in> set (desired_objects ord cfg conns base)" and d: "d \<in> set (Dependencies ob)"
  shows "d \<in> desired_ids ord cfg conns base"
proof -
  let ?ids = "desired_ids ord cfg conns base"
  have I1: "mk_id ResourceTypeUser (Name n) \<in> ?ids" "mk_id ResourceTypeNode (Name n) \<in> ?ids" if "n \<in> set (Nodes cfg)" for n
    using base_ids[OF ord that, of conns base] by simp_all
  have I2: "mk_id ResourceTypeReplicationSlot (spock_slot_name (DBName cfg) (Name a) (Name b)) \<in> ?ids"
    "mk_id ResourceTypeSubscription (spock_sub_name (Name a) (Name b)) \<in> ?ids"
    if "a \<in> set (Nodes cfg)" "b \<in> set (Nodes cfg)" "Name a \<noteq> Name b" for a b
    using pair_ids[OF ord that, of conns base] by simp_all
  have I3: "mk_id ResourceTypeSyncEvent (pair_id (source_of nn) (Name nn)) \<in> ?ids"
    "mk_id ResourceTypeWaitForSyncEvent (pair_id (source_of nn) (Name nn)) \<in> ?ids"
    if "map_of (new_nodes cfg) k = Some nn" for k nn
    using source_ids[OF ord that, of conns base] by simp_all
  have I4: "x \<in> ?ids" if "map_of (new_nodes cfg) k = Some nn" "p \<in> set (Nodes cfg)" "is_peer nn p" "x \<in> set (peer_ids cfg nn p)" for k nn p x
    using peers_ids[OF ord that(1-3), of conns base] that(4) by blast
  from ob ord show ?thesis
  proof (cases rule: in_desired)
    case (base n)
    with d I1[of n] show ?thesis by (auto simp: base_objects_def new_defs)
  next
    case (peer nn p b)
    from sources_okD[OF src peer(1,2)] obtain s where s: "s \<in> set (Nodes cfg)" "Name s = source_of nn" by blast
    from peer(5) have p: "is_peer nn p" by (auto simp: peer_objects_def split: if_splits)
    then have ne: "Name p \<noteq> Name s" by (simp add: is_peer_def s)
    from p peer(5) d I1[OF peer(4)] I1[OF peer(1)] I2[OF peer(4) s(1) ne] I3[OF peer(3)] I4[OF peer(3,4) p] s(2)
    show ?thesis by (auto simp: peer_objects_def peer_ids_def new_defs)
  next
    case (source nn b)
    from sources_okD[OF src source(1,2)] obtain s where s: "s \<in> set (Nodes cfg)" "Name s = source_of nn"
      "source_of nn \<noteq> Name nn" by blast
    then have ne: "Name s \<noteq> Name nn" by simp
    from source(4) d I1[OF s(1)] I2[OF s(1) source(1) ne] I3[OF source(3)] s(2) show ?thesis
      by (auto simp: source_objects_def new_defs)
  next
    case (pair a b names)
    from pair(4) have ab: "Name a \<noteq> Name b" by (auto simp: pair_objects_def split: if_splits)
    have gate: "x \<in> desired_ids ord cfg conns base"
      if nn: "map_of (new_nodes cfg) (Name b) = Some nn" and "x \<in> set (gates cfg nn)" for nn x
    proof -
      from that obtain p where p: "p \<in> set (Nodes cfg)" "x \<in> set (peer_gates nn p)" by (auto simp: gates_def)
      then have "is_peer nn p" "x \<in> set (peer_ids cfg nn p)" by (auto simp: peer_gates_def peer_ids_def split: if_splits)
      with peers_ids[OF ord nn p(1)] show ?thesis by blast
    qed
    have deps: "x \<in> desired_ids ord cfg conns base"
      if "x \<in> set (pair_deps (new_nodes cfg) (Name a) (Name b))" "\<not> from_source (new_nodes cfg) (Name a) (Name b)" for x
    proof -
      from that(1) consider "has_key (new_nodes cfg) (Name b)" "x = mk_id ResourceTypeReplicationOriginAdvance (pair_id (Name a) (Name b))"
        | nn where "map_of (new_nodes cfg) (Name a) = Some nn" "x = mk_id ResourceTypeWaitForSyncEvent (pair_id (source_of nn) (Name a))"
        by (cases "map_of (new_nodes cfg) (Name a)") (auto simp: pair_deps_def split: if_splits)
      then show ?thesis
      proof cases
        case 1
        then obtain nn where nn: "map_of (new_nodes cfg) (Name b) = Some nn" by blast
        with that(2) ab new_nodes_lookup[OF nn] have "is_peer nn a" by (auto simp: is_peer_def from_source_def)
        from I4[OF nn pair(1) this, of x] 1(2) new_nodes_lookup[OF nn] show ?thesis
          by (simp add: peer_ids_def)
      next
        case (2 nn)
        with I3(2)[OF 2(1)] new_nodes_lookup[OF 2(1)] show ?thesis by simp
      qed
    qed
    show ?thesis
    proof (cases "from_source (new_nodes cfg) (Name a) (Name b)")
      case True
      then obtain nn where nn: "map_of (new_nodes cfg) (Name b) = Some nn" by (auto simp: from_source_def split: option.splits)
      with True pair(4) d ab gate[OF nn] peer_deps_get[OF pair(3) nn] I1[OF pair(1)] I1[OF pair(2)] I2[OF pair(1,2) ab]
      show ?thesis by (auto simp: pair_objects_def new_defs replicationSlotName_def)
    next
      case False
      with pair(4) d ab deps I1[OF pair(1)] I1[OF pair(2)] I2[OF pair(1,2) ab]
      show ?thesis by (auto simp: pair_objects_def new_defs replicationSlotName_def)
    qed
  qed
qed

subsection \<open>Properties\<close>

lemma emit_map: "fst ` set (snd (fold emit obs s)) = fst ` set (snd s) \<union> Identifier ` set obs"
  by (induction obs arbitrary: s) (auto simp: emit_def split: prod.splits)

lemma desired_heap: "fst (ComputeDesired ord cfg conns []) = desired_objects ord cfg conns 0"
  by (simp add: ComputeDesired_emits fold_emit)

lemma desired_keys: "fst ` set (snd (ComputeDesired ord cfg conns [])) = desired_ids ord cfg conns 0"
  by (simp add: ComputeDesired_emits emit_map)

text \<open>A key of the map leads to an object the code emits, with that identifier.\<close>

lemma desired_at:
  assumes "ComputeDesired ord cfg conns [] = (h, m)" and "map_of m i = Some r"
  shows "r < length h \<and> h ! r \<in> set (desired_objects ord cfg conns 0) \<and> Identifier (h ! r) = i"
proof -
  have "h = desired_objects ord cfg conns 0" using desired_heap[of ord cfg conns] assms(1) by simp
  moreover have "r < length h \<and> Identifier (h ! r) = i"
    using desired_well_formed[of ord cfg conns] assms map_of_SomeD[OF assms(2)] by (auto simp: well_formed_def)
  ultimately show ?thesis by (metis nth_mem)
qed

lemma desired_keyed:
  assumes "ComputeDesired ord cfg conns [] = (h, m)"
  shows "well_keyed (spock_methods fuel) h m" and "list_all (wired h) h"
  using desired_well_formed[of ord cfg conns] assms
  by (auto simp: well_formed_def well_keyed_def list_all_iff)

text \<open>
  Claim C32: \<open>ComputeDesired\<close> makes a sound map, whatever the configuration: each key is the
  identifier of the resource it leads to, which is what \<open>Plan\<close> needs; every pointer between resources
  is set, leads to a resource of the type its field declares, and that one's identifier is among the
  dependencies of the resource that has the pointer.
\<close>

theorem desired_sound:
  "case ComputeDesired ord cfg conns [] of (h, m) \<Rightarrow>
     well_keyed (spock_methods fuel) h m \<and> list_all (wired h) h"
  using desired_keyed[of ord cfg conns] by (simp split: prod.split)

text \<open>
  Claim C15: The keys of the map are exactly these: a user and a node for every node; a slot and a
  subscription for every ordered pair of nodes with different names; and for every node that is to be
  populated from a source the sync event and wait from the source, and for every other node the
  eight resources of its chain. Nothing else, whatever the order in which Go ranges over the nodes.
\<close>

theorem desired_exact:
  assumes "\<And>ks. set (ord ks) = set ks"
  shows "fst ` set (snd (ComputeDesired ord cfg conns [])) =
     (\<Union>n\<in>set (Nodes cfg). {mk_id ResourceTypeUser (Name n), mk_id ResourceTypeNode (Name n)})
     \<union> (\<Union>(a, b)\<in>{(a, b). a \<in> set (Nodes cfg) \<and> b \<in> set (Nodes cfg) \<and> Name a \<noteq> Name b}.
          {mk_id ResourceTypeReplicationSlot (spock_slot_name (DBName cfg) (Name a) (Name b)),
           mk_id ResourceTypeSubscription (spock_sub_name (Name a) (Name b))})
     \<union> (\<Union>nn\<in>{nn. map_of (new_nodes cfg) (Name nn) = Some nn}.
          {mk_id ResourceTypeSyncEvent (pair_id (source_of nn) (Name nn)),
           mk_id ResourceTypeWaitForSyncEvent (pair_id (source_of nn) (Name nn))}
          \<union> (\<Union>p\<in>{p \<in> set (Nodes cfg). is_peer nn p}. set (peer_ids cfg nn p)))"
    (is "_ = ?base \<union> ?pairs \<union> ?new")
proof -
  have only: "desired_ids ord cfg conns 0 \<subseteq> ?base \<union> ?pairs \<union> ?new"
  proof
    fix i
    assume "i \<in> desired_ids ord cfg conns 0"
    then obtain ob where ob: "ob \<in> set (desired_objects ord cfg conns 0)" "i = Identifier ob" by blast
    from ob(1) assms show "i \<in> ?base \<union> ?pairs \<union> ?new"
    proof (cases rule: in_desired)
      case (base n)
      with ob(2) have "i \<in> ?base" by (auto simp: base_objects_def new_defs)
      then show ?thesis by blast
    next
      case (peer nn p b)
      then have p: "is_peer nn p" by (auto simp: peer_objects_def split: if_splits)
      have "i \<in> set (map Identifier (peer_objects cfg nn conns b p))" using peer(5) ob(2) by simp
      then have "i \<in> set (peer_ids cfg nn p)" unfolding peer_objects_ids[OF p] .
      with p peer(3,4) have "i \<in> ?new" by blast
      then show ?thesis by blast
    next
      case (source nn b)
      with ob(2) have "i \<in> ?new" by (auto simp: source_objects_def new_defs)
      then show ?thesis by blast
    next
      case (pair a b names)
      with ob(2) have "Name a \<noteq> Name b"
        "i \<in> {mk_id ResourceTypeReplicationSlot (spock_slot_name (DBName cfg) (Name a) (Name b)),
              mk_id ResourceTypeSubscription (spock_sub_name (Name a) (Name b))}"
        by (auto simp: pair_objects_def new_defs slotName_def subName_def split: if_splits)
      with pair(1,2) show ?thesis by blast
    qed
  qed
  have b: "?base \<subseteq> desired_ids ord cfg conns 0"
    by (rule UN_least) (use base_ids[OF assms, of _ cfg conns 0] in simp)
  have p: "?pairs \<subseteq> desired_ids ord cfg conns 0"
  proof (rule UN_least)
    fix x
    assume "x \<in> {(a, b). a \<in> set (Nodes cfg) \<and> b \<in> set (Nodes cfg) \<and> Name a \<noteq> Name b}"
    then obtain a b where "x = (a, b)" "a \<in> set (Nodes cfg)" "b \<in> set (Nodes cfg)" "Name a \<noteq> Name b" by blast
    then show "(case x of (a, b) \<Rightarrow> {mk_id ResourceTypeReplicationSlot (spock_slot_name (DBName cfg) (Name a) (Name b)),
        mk_id ResourceTypeSubscription (spock_sub_name (Name a) (Name b))}) \<subseteq> desired_ids ord cfg conns 0"
      using pair_ids[OF assms, of a cfg b conns 0] by simp
  qed
  have n: "?new \<subseteq> desired_ids ord cfg conns 0"
  proof (rule UN_least, rule Un_least)
    fix nn
    assume "nn \<in> {nn. map_of (new_nodes cfg) (Name nn) = Some nn}"
    then have nn: "map_of (new_nodes cfg) (Name nn) = Some nn" by simp
    show "{mk_id ResourceTypeSyncEvent (pair_id (source_of nn) (Name nn)),
        mk_id ResourceTypeWaitForSyncEvent (pair_id (source_of nn) (Name nn))} \<subseteq> desired_ids ord cfg conns 0"
      using source_ids[OF assms nn, of conns 0] .
    show "(\<Union>p\<in>{p \<in> set (Nodes cfg). is_peer nn p}. set (peer_ids cfg nn p)) \<subseteq> desired_ids ord cfg conns 0"
      by (rule UN_least) (use peers_ids[OF assms nn, of _ conns 0] in simp)
  qed
  show ?thesis unfolding desired_keys by (intro subset_antisym only Un_least b p n)
qed

text \<open>Two nodes, and the same with a third that is added from the first.\<close>

definition plain_node :: "string \<Rightarrow> node" where
  "plain_node n = \<lparr>Name = n, Hostname = n @ ''-rw'', InternalHostname = '''', Bootstrap = \<lparr>Mode = '''', SourceNode = ''''\<rparr>\<rparr>"

definition added_node :: "string \<Rightarrow> string \<Rightarrow> node" where
  "added_node n src = \<lparr>Name = n, Hostname = n @ ''-rw'', InternalHostname = '''',
     Bootstrap = \<lparr>Mode = ''spock'', SourceNode = src\<rparr>\<rparr>"

definition sample_config :: "node list \<Rightarrow> config" where
  "sample_config ns = \<lparr>AppName = ''pgedge'', DBName = ''app'', Namespace = ''default'', AdminUser = ''admin'',
     PgEdgeUser = ''pgedge'', ResetSpock = False, Nodes = ns\<rparr>"

abbreviation add_node_config :: config where
  "add_node_config \<equiv> sample_config [plain_node ''n1'', plain_node ''n2'', added_node ''n3'' ''n1'']"

abbreviation add_node_conns :: conns where
  "add_node_conns \<equiv> [(''n1'', 0), (''n2'', 1), (''n3'', 2)]"

theorem desired_exact_witness:
  "mk_id ResourceTypePeerCatchup ''n2_n1'' \<in> fst ` set (snd (ComputeDesired (\<lambda>ks. ks) add_node_config add_node_conns []))"
proof -
  have "map_of (new_nodes add_node_config) ''n3'' = Some (added_node ''n3'' ''n1'')"
    "is_peer (added_node ''n3'' ''n1'') (plain_node ''n2'')"
    "mk_id ResourceTypePeerCatchup ''n2_n1'' \<in> set (peer_ids add_node_config (added_node ''n3'' ''n1'') (plain_node ''n2''))"
    "plain_node ''n2'' \<in> set (Nodes add_node_config)"
    by code_simp+
  then show ?thesis
    unfolding desired_exact[of "\<lambda>ks. ks", OF refl]
    by (intro UnI2 UN_I[of "added_node ''n3'' ''n1''"] UN_I[of "plain_node ''n2''"]) (auto simp: added_node_def)
qed

text \<open>
  The graph is closed. If the source of every added node is another node of the
  configuration, every dependency of a resource of the map is a key of the map, so nothing waits for
  a resource that is never made.
\<close>

lemma desired_dependencies_closed:
  assumes "\<And>ks. set (ord ks) = set ks" and "sources_ok cfg"
    and "ComputeDesired ord cfg conns [] = (h, m)" and "(i, r) \<in> set m"
  shows "list_all (has_key m) (Dependencies (h ! r))"
proof -
  have "map_of m i = Some r"
    using assms(4) desired_keyed(1)[OF assms(3), of 0] by (simp add: well_keyed_def)
  from desired_at[OF assms(3) this] desired_closed[OF assms(1,2)]
  have "\<forall>d\<in>set (Dependencies (h ! r)). d \<in> fst ` set m"
    using desired_keys[of ord cfg conns] assms(3) by auto
  then show ?thesis unfolding list_all_iff has_key_iff by simp
qed

definition sample_resources :: resources where
  "sample_resources = ComputeDesired (\<lambda>ks. ks) add_node_config add_node_conns []"

subsection \<open>Names with dashes\<close>

text \<open>A subscription of the map from one node to another.\<close>

definition subscribes :: "resources \<Rightarrow> string \<Rightarrow> string \<Rightarrow> bool" where
  "subscribes s provider subscriber \<longleftrightarrow> list_ex (\<lambda>(i, r). case fst s ! r of
       OSub u \<Rightarrow> Name (su_src u) = provider \<and> Name (su_dst u) = subscriber
     | _ \<Rightarrow> False) (snd s)"

lemma subscribes_key:
  assumes "ComputeDesired ord cfg conns [] = (h, m)" and "subscribes (h, m) p d"
  obtains r u where "map_of m (mk_id ResourceTypeSubscription (spock_sub_name p d)) = Some r" "h ! r = OSub u"
    "Name (su_src u) = p" "Name (su_dst u) = d"
proof -
  from assms(2) obtain i r where ir: "(i, r) \<in> set m"
    and sub: "case h ! r of OSub u \<Rightarrow> Name (su_src u) = p \<and> Name (su_dst u) = d | _ \<Rightarrow> False"
    by (auto simp: subscribes_def list_ex_iff)
  from sub obtain u where u: "(i, r) \<in> set m" "h ! r = OSub u" "Name (su_src u) = p" "Name (su_dst u) = d"
    using ir by (cases "h ! r") auto
  from desired_keyed(1)[OF assms(1), of 0] u(1) have "Identifier (h ! r) = i" "map_of m i = Some r"
    by (auto simp: well_keyed_def)
  moreover from u(2-4) this(1) have "i = mk_id ResourceTypeSubscription (spock_sub_name p d)" by (simp add: subName_def)
  ultimately show thesis using that u(2-4) by simp
qed

text \<open>
  Claim C34: With dashes in the names of nodes, which Kubernetes allows, a subscription gets lost. Two pairs
  of configured nodes whose names join to the same text with a dash between them, such as \<open>a\<close> and \<open>b-c\<close>,
  and \<open>a-b\<close> and \<open>c\<close>, have one subscription name and so one key of the map of desired resources: there is
  such a key, but the map never has the subscriptions of both pairs, whatever the configuration and the order
  in which Go ranges over its maps; so one of the two subscribers gets no subscription to its provider.
\<close>

theorem dashed_pair_lost:
  assumes "\<And>ks. set (ord ks) = set ks" and "ComputeDesired ord cfg conns [] = (h, m)"
    and "{a, b @ ''-'' @ c, a @ ''-'' @ b, c} \<subseteq> set (map Name (Nodes cfg))"
    and "a \<noteq> b @ ''-'' @ c"
  shows "has_key m (mk_id ResourceTypeSubscription (spock_sub_name a (b @ ''-'' @ c)))
    \<and> spock_sub_name (a @ ''-'' @ b) c = spock_sub_name a (b @ ''-'' @ c)
    \<and> \<not> (subscribes (h, m) a (b @ ''-'' @ c) \<and> subscribes (h, m) (a @ ''-'' @ b) c)"
proof -
  from assms(3) obtain x y where xy: "x \<in> set (Nodes cfg)" "y \<in> set (Nodes cfg)" "Name x = a" "Name y = b @ ''-'' @ c" by auto
  with assms(4) have "Name x \<noteq> Name y" by simp
  from pair_ids[OF assms(1) xy(1,2) this, of conns 0] xy(3,4)
  have "mk_id ResourceTypeSubscription (spock_sub_name a (b @ ''-'' @ c)) \<in> desired_ids ord cfg conns 0" by simp
  then have "has_key m (mk_id ResourceTypeSubscription (spock_sub_name a (b @ ''-'' @ c)))"
    using desired_keys[of ord cfg conns] assms(2) unfolding has_key_iff set_map by simp
  moreover have False if both: "subscribes (h, m) a (b @ ''-'' @ c)" "subscribes (h, m) (a @ ''-'' @ b) c"
  proof -
    from subscribes_key[OF assms(2) both(1)] obtain r u where
      one: "map_of m (mk_id ResourceTypeSubscription (spock_sub_name a (b @ ''-'' @ c))) = Some r" "h ! r = OSub u"
      "Name (su_src u) = a" .
    from subscribes_key[OF assms(2) both(2)] obtain r' u' where
      two: "map_of m (mk_id ResourceTypeSubscription (spock_sub_name (a @ ''-'' @ b) c)) = Some r'" "h ! r' = OSub u'"
      "Name (su_src u') = a @ ''-'' @ b" .
    from one two(1)[folded sub_name_dash] two(2,3) show False by simp
  qed
  ultimately show ?thesis using sub_name_dash[of a b c] by fastforce
qed

definition dashed_config :: config where
  "dashed_config = sample_config [plain_node ''a'', plain_node ''b-c'', plain_node ''a-b'', plain_node ''c'']"

theorem dashed_pair_lost_witness:
  "\<not> (subscribes (ComputeDesired (\<lambda>ks. ks) dashed_config [] []) ''a'' ''b-c''
      \<and> subscribes (ComputeDesired (\<lambda>ks. ks) dashed_config [] []) ''a-b'' ''c'')"
proof -
  obtain h m where c: "ComputeDesired (\<lambda>ks. ks) dashed_config [] [] = (h, m)" by fastforce
  have "{''a'', ''b'' @ ''-'' @ ''c'', ''a'' @ ''-'' @ ''b'', ''c''} \<subseteq> set (map Name (Nodes dashed_config))"
    by (simp add: dashed_config_def sample_config_def plain_node_def)
  from dashed_pair_lost[OF refl c this] show ?thesis unfolding c by simp
qed

end
