(* ===== verification/Acyclic.thy ===== *)
theory Acyclic
  imports Desired
begin

text \<open>
  The dependencies among the resources that \<open>ComputeDesired\<close> makes: with at most one node to be
  populated they have no cycle (\<open>chain_rank\<close> grows along them), so the phases of a plan follow
  the chain of adding a node; with two such nodes of one source they have one.
\<close>

subsection \<open>A rank\<close>

definition chain_rank :: "config \<Rightarrow> ident \<Rightarrow> nat" where
  "chain_rank cfg x = (let names = map Name (Nodes cfg); T = Type x; i = ID x in
     if T = ResourceTypeUser then 0
     else if T = ResourceTypeNode then 1
     else if T = ResourceTypeReplicationSlot \<or> T = ResourceTypeReplicationSlotCreate then 2
     else case new_nodes cfg of
         [] \<Rightarrow> 3
       | (N, nn) # _ \<Rightarrow>
           if T = ResourceTypeSubscription then
             (if i = spock_sub_name (source_of nn) N then 6
              else if i \<in> set (map (spock_sub_name N) names) then 9
              else if i \<in> set (map (\<lambda>a. spock_sub_name a N) names) then 12
              else 3)
           else if T = ResourceTypeSyncEvent then (if i = pair_id (source_of nn) N then 7 else 4)
           else if T = ResourceTypeWaitForSyncEvent then (if i = pair_id (source_of nn) N then 8 else 5)
           else if T = ResourceTypePeerCatchup then 5
           else if T = ResourceTypeLagTrackerCommitTS then 9
           else if T = ResourceTypeReplicationSlotAdvanceFromCTS then 10
           else if T = ResourceTypeReplicationOriginAdvance then 11
           else 3)"

text \<open>
  A configuration the code handles without a cycle: the names of its nodes have neither a dash nor an
  underscore, a node to be populated has another node of the configuration for its source, and there is
  at most one node to be populated.
\<close>

definition plain_config :: "config \<Rightarrow> bool" where
  "plain_config cfg \<longleftrightarrow> list_all (\<lambda>n. plain_name (Name n)) (Nodes cfg) \<and> sources_ok cfg \<and> length (new_nodes cfg) \<le> 1"

lemma pair_id_eq:
  "plain_name a \<Longrightarrow> plain_name a' \<Longrightarrow> pair_id a b = pair_id a' b' \<longleftrightarrow> a = a' \<and> b = b'"
  unfolding pair_id_def plain_name_def using append_sep_inject[of "CHR ''_''" a a' b b'] by simp

lemma rank_fixed:
  "chain_rank cfg (mk_id ResourceTypeUser i) = 0" "chain_rank cfg (mk_id ResourceTypeNode i) = 1"
  "chain_rank cfg (mk_id ResourceTypeReplicationSlot i) = 2"
  "chain_rank cfg (mk_id ResourceTypeReplicationSlotCreate i) = 2"
  "chain_rank cfg (mk_id ResourceTypeDisabledSubscription i) = 3"
  by (simp_all add: chain_rank_def type_defs Let_def split: list.split)

lemma rank_no_new: "new_nodes cfg = [] \<Longrightarrow> chain_rank cfg (mk_id ResourceTypeSubscription i) = 3"
  by (simp add: chain_rank_def type_defs)

lemma rank_new:
  assumes "new_nodes cfg = [(N, nn)]"
  shows "chain_rank cfg (mk_id ResourceTypeSubscription i) =
      (if i = spock_sub_name (source_of nn) N then 6
       else if i \<in> set (map (spock_sub_name N) (map Name (Nodes cfg))) then 9
       else if i \<in> set (map (\<lambda>a. spock_sub_name a N) (map Name (Nodes cfg))) then 12 else 3)"
    "chain_rank cfg (mk_id ResourceTypeSyncEvent i) = (if i = pair_id (source_of nn) N then 7 else 4)"
    "chain_rank cfg (mk_id ResourceTypeWaitForSyncEvent i) = (if i = pair_id (source_of nn) N then 8 else 5)"
    "chain_rank cfg (mk_id ResourceTypePeerCatchup i) = 5"
    "chain_rank cfg (mk_id ResourceTypeLagTrackerCommitTS i) = 9"
    "chain_rank cfg (mk_id ResourceTypeReplicationSlotAdvanceFromCTS i) = 10"
    "chain_rank cfg (mk_id ResourceTypeReplicationOriginAdvance i) = 11"
  using assms by (simp_all add: chain_rank_def type_defs Let_def image_image)

lemma rank_sub:
  assumes "new_nodes cfg = [(N, nn)]" and "\<forall>n\<in>set (Nodes cfg). plain_name (Name n)"
    and "plain_name N" and "plain_name (source_of nn)"
    and "a \<in> set (Nodes cfg)" and "b \<in> set (Nodes cfg)" and "Name a \<noteq> Name b"
  shows "chain_rank cfg (mk_id ResourceTypeSubscription (spock_sub_name (Name a) (Name b))) =
      (if Name a = source_of nn \<and> Name b = N then 6 else if Name a = N then 9 else if Name b = N then 12 else 3)"
proof -
  have p: "plain_name (Name a)" "plain_name (Name b)" using assms by auto
  have "spock_sub_name (Name a) (Name b) = spock_sub_name (source_of nn) N \<longleftrightarrow> Name a = source_of nn \<and> Name b = N"
    by (rule sub_name_eq) (use p assms in auto)
  moreover have "spock_sub_name (Name a) (Name b) \<in> set (map (spock_sub_name N) (map Name (Nodes cfg))) \<longleftrightarrow> Name a = N"
    using sub_name_eq[OF p assms(3)] assms(2,6) by auto
  moreover have "spock_sub_name (Name a) (Name b) \<in> set (map (\<lambda>a. spock_sub_name a N) (map Name (Nodes cfg))) \<longleftrightarrow> Name b = N"
    using sub_name_eq[OF p _ assms(3)] assms(2,5) by auto
  ultimately show ?thesis by (simp only: rank_new(1)[OF assms(1)])
qed

subsection \<open>Dependencies go down\<close>

lemma one_new:
  assumes "length (new_nodes cfg) \<le> 1" and "map_of (new_nodes cfg) k = Some nn"
  shows "new_nodes cfg = [(Name nn, nn)]"
proof (cases "new_nodes cfg")
  case Nil
  with assms(2) show ?thesis by simp
next
  case (Cons x xs)
  with assms new_nodes_lookup[OF assms(2)] show ?thesis by (cases x) (auto split: if_splits)
qed

lemma desired_descends:
  assumes "plain_config cfg" and ord: "\<And>ks. set (ord ks) = set ks"
    and "ob \<in> set (desired_objects ord cfg conns base)" and "d \<in> set (Dependencies ob)"
  shows "chain_rank cfg d < chain_rank cfg (Identifier ob)"
proof -
  have plain: "\<forall>n\<in>set (Nodes cfg). plain_name (Name n)" and src: "sources_ok cfg" and one: "length (new_nodes cfg) \<le> 1"
    using assms(1) by (auto simp: plain_config_def list_all_iff)
  have source: "\<exists>s\<in>set (Nodes cfg). Name s = source_of nn \<and> source_of nn \<noteq> Name nn \<and> plain_name (source_of nn) \<and> plain_name (Name nn)"
    if "nn \<in> set (Nodes cfg)" "is_new nn" for nn
    using sources_okD[OF src that] plain that(1) by metis
  from assms(3) ord show ?thesis
  proof (cases rule: in_desired)
    case (base n)
    with assms(4) show ?thesis by (auto simp: base_objects_def new_defs rank_fixed)
  next
    case (peer nn p b)
    note nn = one_new[OF one peer(3)]
    from source[OF peer(1,2)] obtain s where s: "s \<in> set (Nodes cfg)" "Name s = source_of nn"
      "source_of nn \<noteq> Name nn" "plain_name (source_of nn)" "plain_name (Name nn)" by blast
    from peer(5) have p: "Name p \<noteq> Name nn" "Name p \<noteq> source_of nn" by (auto simp: peer_objects_def is_peer_def split: if_splits)
    have pp: "plain_name (Name p)" using plain peer(4) by blast
    have sub: "chain_rank cfg (mk_id ResourceTypeSubscription (spock_sub_name (Name p) (source_of nn))) = 3"
      using rank_sub[OF nn plain s(5,4) peer(4) s(1)] p s by simp
    have ids: "pair_id (Name p) (source_of nn) \<noteq> pair_id (source_of nn) (Name nn)"
      using pair_id_eq[OF pp s(4)] p by simp
    show ?thesis
      using peer(5) assms(4) p
      by (auto simp: peer_objects_def new_defs rank_fixed rank_new(2-7)[OF nn] sub ids create_slotName_def split: if_splits)
  next
    case (source nn b)
    note nn = one_new[OF one source(3)]
    from \<open>nn \<in> set (Nodes cfg)\<close> \<open>is_new nn\<close> obtain s where s: "s \<in> set (Nodes cfg)" "Name s = source_of nn"
      "source_of nn \<noteq> Name nn" "plain_name (source_of nn)" "plain_name (Name nn)"
      using \<open>\<And>nn. nn \<in> set (Nodes cfg) \<Longrightarrow> is_new nn \<Longrightarrow> \<exists>s\<in>set (Nodes cfg). Name s = source_of nn \<and> source_of nn \<noteq> Name nn
        \<and> plain_name (source_of nn) \<and> plain_name (Name nn)\<close> by blast
    have sub: "chain_rank cfg (mk_id ResourceTypeSubscription (spock_sub_name (source_of nn) (Name nn))) = 6"
      using rank_sub[OF nn plain s(5,4,1) source(1)] s by simp
    show ?thesis
      using source(4) assms(4) by (auto simp: source_objects_def new_defs rank_fixed rank_new(2-7)[OF nn] sub)
  next
    case (pair a b names)
    from pair(4) have ab: "Name a \<noteq> Name b" by (auto simp: pair_objects_def split: if_splits)
    show ?thesis
    proof (cases "new_nodes cfg")
      case Nil
      with pair(4) assms(4) ab show ?thesis
        by (auto simp: pair_objects_def from_source_def pair_deps_def new_defs rank_fixed rank_no_new subName_def)
    next
      case (Cons x xs)
      then have "map_of (new_nodes cfg) (fst x) = Some (snd x)" by (cases x) simp
      then obtain N nn where "map_of (new_nodes cfg) N = Some nn" by blast
      note nn = one_new[OF one this] and new = new_nodes_lookup[OF this]
      from source[of nn] new obtain s where s: "s \<in> set (Nodes cfg)" "Name s = source_of nn"
        "source_of nn \<noteq> Name nn" "plain_name (source_of nn)" "plain_name (Name nn)" by blast
      let ?rank = "\<lambda>a b. chain_rank cfg (mk_id ResourceTypeSubscription (spock_sub_name a b))"
      note sub = rank_sub[OF nn plain s(5,4) pair(1,2) ab]
      have sub': "Name a = source_of nn \<Longrightarrow> Name b = Name nn \<Longrightarrow> ?rank (source_of nn) (Name nn) = 6"
        "Name a = Name nn \<Longrightarrow> ?rank (Name nn) (Name b) = 9"
        "Name b = Name nn \<Longrightarrow> Name a \<noteq> source_of nn \<Longrightarrow> ?rank (Name a) (Name nn) = 12"
        using sub ab by auto
      have gates: "chain_rank cfg x = 5" if "x \<in> set (gates cfg nn)" for x
      proof -
        from that obtain p where p: "p \<in> set (Nodes cfg)" "is_peer nn p"
          "x \<in> {mk_id ResourceTypeWaitForSyncEvent (pair_id (Name p) (source_of nn)),
                mk_id ResourceTypePeerCatchup (pair_id (Name p) (source_of nn))}"
          by (auto simp: gates_def peer_gates_def split: if_splits)
        have "plain_name (Name p)" using plain p(1) by blast
        then have "pair_id (Name p) (source_of nn) \<noteq> pair_id (source_of nn) (Name nn)"
          using pair_id_eq[of "Name p" "source_of nn" "source_of nn" "Name nn"] p(2) s(4) by (simp add: is_peer_def)
        with p(3) show ?thesis by (auto simp: rank_new(2-7)[OF nn])
      qed
      have deps: "get_or [] (peer_deps cfg (new_nodes cfg) names) (Name nn) = gates cfg nn"
        by (rule peer_deps_get[OF pair(3)]) (simp add: nn)
      show ?thesis
        using pair(4) assms(4) ab s(3) gates deps
        by (auto simp: pair_objects_def from_source_def pair_deps_def new_defs rank_fixed rank_new(2-7)[OF nn] sub sub' subName_def nn
            split: if_splits)
    qed
  qed
qed

subsection \<open>The chain of adding a node\<close>

text \<open>The objects of the graph of three types, by how they were made.\<close>

lemma desired_sync:
  assumes "OSyncEvent e \<in> set (desired_objects ord cfg conns base)" and "\<And>ks. set (ord ks) = set ks"
  obtains (peer) nn p where "map_of (new_nodes cfg) (Name nn) = Some nn" "p \<in> set (Nodes cfg)" "is_peer nn p"
      "e = NewSyncEvent (Name p) (source_of nn) (conn_of conns (Name p))
         [mk_id ResourceTypeReplicationSlotCreate (spock_slot_name (DBName cfg) (Name p) (Name nn))]"
  | (source) nn where "map_of (new_nodes cfg) (Name nn) = Some nn"
      "e = NewSyncEvent (source_of nn) (Name nn) (conn_of conns (source_of nn)) []"
  using assms by (cases rule: in_desired)
    (auto simp: base_objects_def peer_objects_def source_objects_def pair_objects_def split: if_splits)

lemma desired_lag:
  assumes "OLag t \<in> set (desired_objects ord cfg conns base)" and "\<And>ks. set (ord ks) = set ks"
  obtains nn p where "map_of (new_nodes cfg) (Name nn) = Some nn" "p \<in> set (Nodes cfg)" "is_peer nn p"
      "t = NewLagTrackerCommitTimestamp (Name p) (Name nn) (conn_of conns (Name nn))
         [mk_id ResourceTypeWaitForSyncEvent (pair_id (source_of nn) (Name nn))]"
  using assms by (cases rule: in_desired)
    (auto simp: base_objects_def peer_objects_def source_objects_def pair_objects_def split: if_splits)

lemma desired_sub:
  assumes "OSub s \<in> set (desired_objects ord cfg conns base)" and "\<And>ks. set (ord ks) = set ks"
  obtains a b names where "a \<in> set (Nodes cfg)" "b \<in> set (Nodes cfg)" "Name a \<noteq> Name b"
      "set names = set (keys (new_nodes cfg))" "su_src s = a" "su_dst s = b" "su_dbName s = DBName cfg"
      "su_conn s = conn_of conns (Name b)" "su_sync s = from_source (new_nodes cfg) (Name a) (Name b)"
      "su_extraDeps s = (if from_source (new_nodes cfg) (Name a) (Name b)
         then get_or [] (peer_deps cfg (new_nodes cfg) names) (Name b)
         else pair_deps (new_nodes cfg) (Name a) (Name b))"
  using assms
proof (cases rule: in_desired)
  case (pair a b names)
  then have "Name a \<noteq> Name b" by (auto simp: pair_objects_def split: if_splits)
  with pair show ?thesis
    by (intro that[of a b names]) (auto simp: pair_objects_def new_defs split: if_splits)
qed (auto simp: base_objects_def peer_objects_def source_objects_def split: if_splits)

lemma object_of_type:
  "Type (Identifier ob) = ResourceTypeSyncEvent \<Longrightarrow> \<exists>e. ob = OSyncEvent e"
  "Type (Identifier ob) = ResourceTypeWaitForSyncEvent \<Longrightarrow> \<exists>v. ob = OWait v"
  "Type (Identifier ob) = ResourceTypePeerCatchup \<Longrightarrow> \<exists>v. ob = OCatchup v"
  "Type (Identifier ob) = ResourceTypeSubscription \<Longrightarrow> \<exists>s. ob = OSub s"
  "Type (Identifier ob) = ResourceTypeLagTrackerCommitTS \<Longrightarrow> \<exists>t. ob = OLag t"
  "Type (Identifier ob) = ResourceTypeReplicationSlotAdvanceFromCTS \<Longrightarrow> \<exists>a. ob = OSlotAdvance a"
  "Type (Identifier ob) = ResourceTypeReplicationOriginAdvance \<Longrightarrow> \<exists>a. ob = OOriginAdvance a"
  by (cases ob; simp add: type_defs)+

text \<open>
  The creates on the way of a new node \<open>nn\<close> and one of the other nodes \<open>p\<close>, each of which must
  wait for the one before: the slot on the peer, the peer's sync event, the source's confirmation
  (of the event or of the progress), the copy from the source, the source's sync event, its
  confirmation, the reading of the lag tracker, the advance of the slot and of the origin, and the
  enabling of the subscription. The one more resource of a peer, its disabled subscription
  (\<open>disabled_id\<close>), is not part of the chain: nothing depends on it.
\<close>

definition disabled_id :: "node \<Rightarrow> node \<Rightarrow> ident" where
  "disabled_id nn p = mk_id ResourceTypeDisabledSubscription (spock_sub_name (Name p) (Name nn))"

definition add_chain :: "config \<Rightarrow> node \<Rightarrow> node \<Rightarrow> bool \<Rightarrow> ident list" where
  "add_chain cfg nn p catchup =
     [mk_id ResourceTypeReplicationSlotCreate (spock_slot_name (DBName cfg) (Name p) (Name nn)),
      mk_id ResourceTypeSyncEvent (pair_id (Name p) (source_of nn)),
      mk_id (if catchup then ResourceTypePeerCatchup else ResourceTypeWaitForSyncEvent) (pair_id (Name p) (source_of nn)),
      mk_id ResourceTypeSubscription (spock_sub_name (source_of nn) (Name nn)),
      mk_id ResourceTypeSyncEvent (pair_id (source_of nn) (Name nn)),
      mk_id ResourceTypeWaitForSyncEvent (pair_id (source_of nn) (Name nn)),
      mk_id ResourceTypeLagTrackerCommitTS (pair_id (Name p) (Name nn)),
      mk_id ResourceTypeReplicationSlotAdvanceFromCTS (pair_id (Name p) (Name nn)),
      mk_id ResourceTypeReplicationOriginAdvance (pair_id (Name p) (Name nn)),
      mk_id ResourceTypeSubscription (spock_sub_name (Name p) (Name nn))]"

text \<open>Each of the chain depends on the one before, whatever object of the graph has its identifier.\<close>

definition depends_in :: "object list \<Rightarrow> ident \<Rightarrow> ident \<Rightarrow> bool" where
  "depends_in obs x y \<longleftrightarrow> (\<forall>ob\<in>set obs. Identifier ob = y \<longrightarrow> x \<in> set (Dependencies ob))"

lemma depends_same_pair:
  "depends_in obs (mk_id ResourceTypeSyncEvent i) (mk_id ResourceTypeWaitForSyncEvent i)"
  "depends_in obs (mk_id ResourceTypeSyncEvent i) (mk_id ResourceTypePeerCatchup i)"
  "depends_in obs (mk_id ResourceTypeLagTrackerCommitTS i) (mk_id ResourceTypeReplicationSlotAdvanceFromCTS i)"
  "depends_in obs (mk_id ResourceTypeReplicationSlotAdvanceFromCTS i) (mk_id ResourceTypeReplicationOriginAdvance i)"
proof -
  have "Identifier ob = mk_id T i \<Longrightarrow> Type (Identifier ob) = T" for ob T by simp
  note type = object_of_type[OF this]
  show "depends_in obs (mk_id ResourceTypeSyncEvent i) (mk_id ResourceTypeWaitForSyncEvent i)"
    unfolding depends_in_def using type(2) by fastforce
  show "depends_in obs (mk_id ResourceTypeSyncEvent i) (mk_id ResourceTypePeerCatchup i)"
    unfolding depends_in_def using type(3) by fastforce
  show "depends_in obs (mk_id ResourceTypeLagTrackerCommitTS i) (mk_id ResourceTypeReplicationSlotAdvanceFromCTS i)"
    unfolding depends_in_def using type(6) by fastforce
  show "depends_in obs (mk_id ResourceTypeReplicationSlotAdvanceFromCTS i) (mk_id ResourceTypeReplicationOriginAdvance i)"
    unfolding depends_in_def using type(7) by fastforce
qed

lemma chain_depends:
  assumes cfg: "plain_config cfg" and ord: "\<And>ks. set (ord ks) = set ks"
    and nn: "map_of (new_nodes cfg) (Name nn) = Some nn"
    and p: "p \<in> set (Nodes cfg)" "is_peer nn p"
  shows "successively (depends_in (desired_objects ord cfg conns base)) (add_chain cfg nn p catchup)"
proof -
  let ?dep = "depends_in (desired_objects ord cfg conns base)"
  have plain: "\<forall>n\<in>set (Nodes cfg). plain_name (Name n)" and src: "sources_ok cfg" and one: "length (new_nodes cfg) \<le> 1"
    using cfg by (auto simp: plain_config_def list_all_iff)
  note new = one_new[OF one nn] and n = new_nodes_lookup[OF nn]
  have only: "nn' = nn" if "map_of (new_nodes cfg) k = Some nn'" for nn' k
    using that by (simp add: new split: if_splits)
  from sources_okD[OF src] n have "source_of nn \<noteq> Name nn" "plain_name (source_of nn)" "plain_name (Name nn)" "plain_name (Name p)"
    using plain p(1) by metis+
  note pl = this
  have type: "Identifier ob = mk_id T i \<Longrightarrow> Type (Identifier ob) = T" for ob T i by simp
  have "?dep (mk_id ResourceTypeReplicationSlotCreate (spock_slot_name (DBName cfg) (Name p) (Name nn)))
      (mk_id ResourceTypeSyncEvent (pair_id (Name p) (source_of nn)))"
    unfolding depends_in_def
  proof (intro ballI impI)
    fix ob
    assume ob: "ob \<in> set (desired_objects ord cfg conns base)"
      and id: "Identifier ob = mk_id ResourceTypeSyncEvent (pair_id (Name p) (source_of nn))"
    from object_of_type(1)[OF type[OF id]] obtain e where e: "ob = OSyncEvent e" by blast
    from ob[unfolded e] ord show "mk_id ResourceTypeReplicationSlotCreate (spock_slot_name (DBName cfg) (Name p) (Name nn))
      \<in> set (Dependencies ob)"
    proof (cases rule: desired_sync)
      case (peer nn' q)
      have "plain_name (Name q)" using plain peer(2) by blast
      from pair_id_eq[OF this pl(4)] id e peer(4) only[OF peer(1)] have "Name q = Name p" by (simp add: new_defs)
      with e peer(4) only[OF peer(1)] show ?thesis by (simp add: new_defs)
    next
      case (source nn')
      with id e only[OF source(1)] pair_id_eq[OF pl(2,4)] p(2) show ?thesis by (simp add: new_defs is_peer_def)
    qed
  qed
  moreover have "?dep (mk_id (if catchup then ResourceTypePeerCatchup else ResourceTypeWaitForSyncEvent) (pair_id (Name p) (source_of nn)))
      (mk_id ResourceTypeSubscription (spock_sub_name (source_of nn) (Name nn)))"
    unfolding depends_in_def
  proof (intro ballI impI)
    fix ob
    assume ob: "ob \<in> set (desired_objects ord cfg conns base)"
      and id: "Identifier ob = mk_id ResourceTypeSubscription (spock_sub_name (source_of nn) (Name nn))"
    from object_of_type(4)[OF type[OF id]] obtain s where s: "ob = OSub s" by blast
    from ob[unfolded s] ord show "mk_id (if catchup then ResourceTypePeerCatchup else ResourceTypeWaitForSyncEvent)
        (pair_id (Name p) (source_of nn)) \<in> set (Dependencies ob)"
    proof (cases rule: desired_sub)
      case (1 a b names)
      have "plain_name (Name a)" "plain_name (Name b)" using plain 1(1,2) by blast+
      from sub_name_eq[OF this pl(2,3)] id s 1(5,6) have ab: "Name a = source_of nn" "Name b = Name nn"
        by (simp_all add: subName_def)
      then have "from_source (new_nodes cfg) (Name a) (Name b)" by (simp add: from_source_def nn)
      with 1(10) peer_deps_get[OF 1(4) nn] ab(2) have "su_extraDeps s = gates cfg nn" by simp
      moreover have "mk_id (if catchup then ResourceTypePeerCatchup else ResourceTypeWaitForSyncEvent)
          (pair_id (Name p) (source_of nn)) \<in> set (gates cfg nn)"
        using p by (auto simp: gates_def peer_gates_def)
      ultimately show ?thesis by (simp add: s)
    qed
  qed
  moreover have "?dep (mk_id ResourceTypeSubscription (spock_sub_name (source_of nn) (Name nn)))
      (mk_id ResourceTypeSyncEvent (pair_id (source_of nn) (Name nn)))"
    unfolding depends_in_def
  proof (intro ballI impI)
    fix ob
    assume ob: "ob \<in> set (desired_objects ord cfg conns base)"
      and id: "Identifier ob = mk_id ResourceTypeSyncEvent (pair_id (source_of nn) (Name nn))"
    from object_of_type(1)[OF type[OF id]] obtain e where e: "ob = OSyncEvent e" by blast
    from ob[unfolded e] ord show "mk_id ResourceTypeSubscription (spock_sub_name (source_of nn) (Name nn)) \<in> set (Dependencies ob)"
    proof (cases rule: desired_sync)
      case (peer nn' q)
      have "plain_name (Name q)" using plain peer(2) by blast
      from pair_id_eq[OF this pl(2)] id e peer(4) only[OF peer(1)] pl(1) show ?thesis by (simp add: new_defs)
    next
      case (source nn')
      with e only[OF source(1)] show ?thesis by (simp add: new_defs)
    qed
  qed
  moreover have "?dep (mk_id ResourceTypeWaitForSyncEvent (pair_id (source_of nn) (Name nn)))
      (mk_id ResourceTypeLagTrackerCommitTS (pair_id (Name p) (Name nn)))"
    unfolding depends_in_def
  proof (intro ballI impI)
    fix ob
    assume ob: "ob \<in> set (desired_objects ord cfg conns base)"
      and id: "Identifier ob = mk_id ResourceTypeLagTrackerCommitTS (pair_id (Name p) (Name nn))"
    from object_of_type(5)[OF type[OF id]] obtain t where t: "ob = OLag t" by blast
    from ob[unfolded t] ord show "mk_id ResourceTypeWaitForSyncEvent (pair_id (source_of nn) (Name nn)) \<in> set (Dependencies ob)"
    proof (cases rule: desired_lag)
      case (1 nn' q)
      with t only[OF 1(1)] show ?thesis by (simp add: new_defs)
    qed
  qed
  moreover have "?dep (mk_id ResourceTypeReplicationOriginAdvance (pair_id (Name p) (Name nn)))
      (mk_id ResourceTypeSubscription (spock_sub_name (Name p) (Name nn)))"
    unfolding depends_in_def
  proof (intro ballI impI)
    fix ob
    assume ob: "ob \<in> set (desired_objects ord cfg conns base)"
      and id: "Identifier ob = mk_id ResourceTypeSubscription (spock_sub_name (Name p) (Name nn))"
    from object_of_type(4)[OF type[OF id]] obtain s where s: "ob = OSub s" by blast
    from ob[unfolded s] ord show "mk_id ResourceTypeReplicationOriginAdvance (pair_id (Name p) (Name nn)) \<in> set (Dependencies ob)"
    proof (cases rule: desired_sub)
      case (1 a b names)
      have "plain_name (Name a)" "plain_name (Name b)" using plain 1(1,2) by blast+
      from sub_name_eq[OF this pl(4,3)] id s 1(5,6) have ab: "Name a = Name p" "Name b = Name nn"
        by (simp_all add: subName_def)
      then have "\<not> from_source (new_nodes cfg) (Name a) (Name b)" using p(2) by (simp add: from_source_def nn is_peer_def)
      with 1(10) have "su_extraDeps s = pair_deps (new_nodes cfg) (Name p) (Name nn)" by (simp add: ab)
      then show ?thesis by (simp add: s pair_deps_def nn)
    qed
  qed
  ultimately show ?thesis
    using depends_same_pair by (simp add: add_chain_def)
qed

subsection \<open>Properties\<close>

text \<open>
  Claim C24: The dependencies are closed and have no cycle, if the names of the nodes have neither a dash
  nor an underscore, at most one node is to be populated, and that from another node of the configuration
  (\<open>plain_config\<close>): every resource ranks above all it depends on, and these are in the map too. So nothing
  waits for a resource that is never made, and \<open>topoSort\<close> never meets the case of a cycle.
\<close>

theorem desired_acyclic:
  assumes "plain_config cfg" and "\<And>ks. set (ord ks) = set ks"
    and "ComputeDesired ord cfg conns [] = (h, m)" and "(i, r) \<in> set m"
  shows "list_all (\<lambda>d. has_key m d \<and> chain_rank cfg d < chain_rank cfg i) (Dependencies (h ! r))"
proof -
  have "sources_ok cfg" using assms(1) by (simp add: plain_config_def)
  note closed = desired_dependencies_closed[OF assms(2) this assms(3,4)]
  have "map_of m i = Some r"
    using assms(4) desired_keyed(1)[OF assms(3), of 0] by (simp add: well_keyed_def)
  from desired_at[OF assms(3) this] desired_descends[OF assms(1,2), of "h ! r" conns 0]
  have "list_all (\<lambda>d. chain_rank cfg d < chain_rank cfg i) (Dependencies (h ! r))" by (auto simp: list_all_iff)
  with closed show ?thesis unfolding list_all_iff by blast
qed

lemma sample_plain: "plain_config add_node_config"
  by code_simp

theorem desired_acyclic_witness:
  "list_all (\<lambda>d. has_key (snd sample_resources) d \<and>
       chain_rank add_node_config d < chain_rank add_node_config (fst (hd (snd sample_resources))))
     (Dependencies (fst sample_resources ! snd (hd (snd sample_resources))))"
proof (rule desired_acyclic[of _ "\<lambda>ks. ks" add_node_conns, OF sample_plain])
  show "ComputeDesired (\<lambda>ks. ks) add_node_config add_node_conns [] = (fst sample_resources, snd sample_resources)"
    by (simp add: sample_resources_def)
  have "snd sample_resources \<noteq> []" by code_simp
  then show "(fst (hd (snd sample_resources)), snd (hd (snd sample_resources))) \<in> set (snd sample_resources)" by simp
qed simp

text \<open>A heap that \<open>Refresh\<close> has changed and orphans were added to.\<close>

definition refreshed :: "heap \<Rightarrow> heap \<Rightarrow> bool" where
  "refreshed h0 h \<longleftrightarrow> list_all2 same_identity h0 (take (length h0) h)"

lemma refreshed_at: "refreshed h0 h \<Longrightarrow> r < length h0 \<Longrightarrow> same_identity (h0 ! r) (h ! r)"
  unfolding refreshed_def by (metis list_all2_lengthD list_all2_nthD nth_take)

lemma refreshed_self: "refreshed h h"
  by (simp add: refreshed_def list_all2_refl same_identity_def)

lemma refreshed_desired:
  assumes "ComputeDesired ord cfg conns [] = (h0, m)" and "refreshed h0 h" and "map_of m i = Some r"
  shows "h0 ! r \<in> set (desired_objects ord cfg conns 0)" and "Identifier (h ! r) = i"
    and "Dependencies (h ! r) = Dependencies (h0 ! r)" and "Identifier (h0 ! r) = i"
  using desired_at[OF assms(1,3)] refreshed_at[OF assms(2), of r] by (auto simp: same_identity_def)

lemma refreshed_keyed:
  assumes "ComputeDesired ord cfg conns [] = (h0, m)" and "refreshed h0 h"
  shows "well_keyed (spock_methods fuel) h m"
  using desired_keyed(1)[OF assms(1), of fuel] refreshed_desired(2)[OF assms]
  by (auto simp: well_keyed_def)

lemma chain_in_map:
  assumes cfg: "plain_config cfg" and ord: "\<And>ks. set (ord ks) = set ks"
    and nn: "map_of (new_nodes cfg) (Name nn) = Some nn" and p: "p \<in> set (Nodes cfg)" "is_peer nn p"
    and m: "ComputeDesired ord cfg conns [] = (h0, m)" and x: "x \<in> set (add_chain cfg nn p catchup)"
  shows "has_key m x"
proof -
  note n = new_nodes_lookup[OF nn]
  from sources_okD[of cfg nn] cfg n obtain s where s: "s \<in> set (Nodes cfg)" "Name s = source_of nn" "source_of nn \<noteq> Name nn"
    by (auto simp: plain_config_def)
  have sn: "Name s \<noteq> Name nn" "Name p \<noteq> Name nn" using s p(2) by (auto simp: is_peer_def)
  have nn': "nn \<in> set (Nodes cfg)" using n by blast
  note ids = peers_ids[OF ord nn p, of conns 0] source_ids[OF ord nn, of conns 0]
    pair_ids[OF ord s(1) nn' sn(1), of conns 0] pair_ids[OF ord p(1) nn' sn(2), of conns 0]
  have "set (add_chain cfg nn p catchup) \<subseteq> desired_ids ord cfg conns 0"
    using ids s(2) by (simp add: add_chain_def peer_ids_def)
  with x show ?thesis
    unfolding has_key_iff set_map using desired_keys[of ord cfg conns] m by auto
qed

text \<open>The peer's disabled subscription is desired, too, and depends on the slot.\<close>

lemma disabled_in_map:
  assumes "plain_config cfg" and ord: "\<And>ks. set (ord ks) = set ks"
    and nn: "map_of (new_nodes cfg) (Name nn) = Some nn" and p: "p \<in> set (Nodes cfg)" "is_peer nn p"
    and m: "ComputeDesired ord cfg conns [] = (h0, m)"
  shows "has_key m (disabled_id nn p)"
  using peers_ids[OF ord nn p, of conns 0] desired_keys[of ord cfg conns] m
  unfolding has_key_iff set_map by (auto simp: peer_ids_def disabled_id_def)

lemma disabled_depends:
  assumes ob: "ob \<in> set (desired_objects ord cfg conns base)" "Identifier ob = disabled_id nn p"
    and ord: "\<And>ks. set (ord ks) = set ks" and plain: "\<forall>n\<in>set (Nodes cfg). plain_name (Name n)"
    and n: "nn \<in> set (Nodes cfg)" "p \<in> set (Nodes cfg)"
  shows "mk_id ResourceTypeReplicationSlotCreate (spock_slot_name (DBName cfg) (Name p) (Name nn)) \<in> set (Dependencies ob)"
proof -
  have "\<exists>s. ob = ODisabled s" using ob(2) by (cases ob; simp add: disabled_id_def type_defs)
  then obtain s where s: "ob = ODisabled s" by blast
  from ob(1)[unfolded s] ord show ?thesis
  proof (cases rule: in_desired)
    case (peer nn' q b)
    then have e: "s = NewDisabledSubscription q nn' (DBName cfg) (PgEdgeUser cfg) (conn_of conns (Name nn'))"
      by (auto simp: peer_objects_def split: if_splits)
    have "spock_sub_name (Name q) (Name nn') = spock_sub_name (Name p) (Name nn)"
      using ob(2) by (simp add: s e new_defs disabled_id_def disabled_subName_def)
    with sub_name_eq plain peer(1,4) n have "Name q = Name p" "Name nn' = Name nn" by blast+
    then show ?thesis by (simp add: s e new_defs)
  qed (auto simp: base_objects_def source_objects_def pair_objects_def split: if_splits)
qed

text \<open>
  It is created after the slot, on which it depends, and though nothing depends on it not later than the
  third phase after it, which is before the source's sync event for the new node.
\<close>

lemma disabled_between:
  assumes "plain_config cfg" and "\<And>ks. set (ord ks) = set ks"
    and "map_of (new_nodes cfg) (Name nn) = Some nn" and "p \<in> set (Nodes cfg)" and "is_peer nn p"
    and "ComputeDesired ord cfg conns [] = (h0, m)" and "refreshed h0 h"
    and "go_order pord"
    and "plan pord (spock_methods fuel) h actual m = Some phases"
    and "\<not> has_key actual (disabled_id nn p)"
    and js: "sorted_wrt (<) js" "list_all2 (created_in (spock_methods fuel) h phases) js (add_chain cfg nn p catchup)"
  obtains d where "created_in (spock_methods fuel) h phases d (disabled_id nn p)" "js ! 0 < d" "d < js ! 4"
proof -
  let ?vt = "spock_methods fuel"
  let ?slot = "mk_id ResourceTypeReplicationSlotCreate (spock_slot_name (DBName cfg) (Name p) (Name nn))"
  note keyed = refreshed_keyed[OF assms(6,7), of fuel] and at = refreshed_desired[OF assms(6,7)]
  have plain: "\<forall>n\<in>set (Nodes cfg). plain_name (Name n)" and nn: "nn \<in> set (Nodes cfg)"
    using assms(1) new_nodes_lookup[OF assms(3)] by (auto simp: plain_config_def list_all_iff)
  have rank: "chain_rank cfg x < chain_rank cfg y"
    if "(y, r) \<in> set m" "x \<in> set (m_Dependencies ?vt h r)" for x r y
  proof -
    have "map_of m y = Some r" using that(1) keyed by (simp add: well_keyed_def)
    from at[OF this] that(2) desired_descends[OF assms(1,2), of "h0 ! r" conns 0 x] show ?thesis by simp
  qed
  have planned: "planned ?vt h actual m ActionCreate (disabled_id nn p)"
    using disabled_in_map[OF assms(1-6)] assms(10) by simp
  from planned_created[OF assms(8) keyed assms(9) planned] obtain d where d: "created_in ?vt h phases d (disabled_id nn p)" ..
  have len: "length js = 10" using list_all2_lengthD[OF js(2)] by (simp add: add_chain_def)
  have first: "created_in ?vt h phases (js ! 0) ?slot"
    using list_all2_nthD[OF js(2), of 0] len by (simp add: add_chain_def)
  have "?slot \<in> set (add_chain cfg nn p catchup)" by (simp add: add_chain_def)
  from chain_in_map[OF assms(1-6) this] obtain q where q: "map_of m ?slot = Some q" by blast
  have slot: "\<forall>r. map_of m (disabled_id nn p) = Some r \<longrightarrow> ?slot \<in> set (m_Dependencies ?vt h r)"
    using at disabled_depends[OF _ _ assms(2) plain nn assms(4), of _ conns 0] by auto
  have "js ! 0 < d"
  proof -
    from d obtain e where e: "d < length phases" "e \<in> set (phases ! d)" "Action e = ActionCreate" "event_id ?vt h e = disabled_id nn p"
      by (auto simp: created_in_def list_ex_iff)
    from created_at_key[OF assms(8) keyed assms(9) in_concat_nth[OF e(1,2)] e(3)] slot e(4)
    have dep: "?slot \<in> set (event_deps ?vt h e)" by simp
    from first have made: "planned ?vt h actual m ActionCreate ?slot"
      using plan_counts_desired[OF assms(8) keyed assms(9), of ActionCreate ?slot] created_in_counted[of ?vt h phases "js ! 0" ?slot]
      by (simp del: planned.simps split: if_splits)
    have "\<exists>j<d. \<exists>e'\<in>set (phases ! j). Action e' = ActionCreate \<and> event_id ?vt h e' = ?slot"
      by (rule creates_in_order[where rank = "chain_rank cfg", OF assms(8) keyed assms(9) _ e(1-3) dep made]) (rule rank)
    then obtain j e' where "j < d" "e' \<in> set (phases ! j)" "Action e' = ActionCreate" "event_id ?vt h e' = ?slot" by blast
    with e(1) have "created_in ?vt h phases j ?slot" by (auto simp: created_in_def list_ex_iff)
    with created_in_unique[OF assms(8) keyed assms(9) first] \<open>j < d\<close> show ?thesis by simp
  qed
  moreover have "d < js ! 4"
  proof (rule creates_within_rank[where rank = "chain_rank cfg", OF assms(8) keyed assms(9) rank])
    fix base
    assume base: "\<And>i e. i < length phases \<Longrightarrow> e \<in> set (phases ! i) \<Longrightarrow> Action e = ActionCreate \<Longrightarrow>
      base \<le> i \<and> i \<le> base + chain_rank cfg (event_id ?vt h e)"
    have "d \<le> base + 3" "base \<le> js ! 0"
      using d first base by (fastforce simp: created_in_def list_ex_iff disabled_id_def rank_fixed)+
    moreover have "js ! 0 < js ! 1" "js ! 1 < js ! 2" "js ! 2 < js ! 3" "js ! 3 < js ! 4"
      using sorted_wrt_nth_less[OF js(1)] len by simp_all
    ultimately show ?thesis by linarith
  qed
  ultimately show thesis using that d by blast
qed

lemma chain_created:
  assumes "plain_config cfg" and "\<And>ks. set (ord ks) = set ks"
    and "map_of (new_nodes cfg) (Name nn) = Some nn" and "p \<in> set (Nodes cfg)" and "is_peer nn p"
    and "ComputeDesired ord cfg conns [] = (h0, m)" and "refreshed h0 h"
    and "go_order pord"
    and "plan pord (spock_methods fuel) h actual m = Some phases"
    and "\<forall>x\<in>set (disabled_id nn p # add_chain cfg nn p catchup). \<not> has_key actual x"
  shows "\<exists>is d. sorted_wrt (<) is \<and> list_all2 (created_in (spock_methods fuel) h phases) is (add_chain cfg nn p catchup)
    \<and> created_in (spock_methods fuel) h phases d (disabled_id nn p) \<and> is ! 0 < d \<and> d < is ! 4"
proof -
  let ?vt = "spock_methods fuel" and ?chain = "add_chain cfg nn p catchup"
  note keyed = refreshed_keyed[OF assms(6,7), of fuel] and at = refreshed_desired[OF assms(6,7)]
  have planned: "planned ?vt h actual m ActionCreate x" if "x \<in> set ?chain" for x
    using chain_in_map[OF assms(1-6) that] assms(10) that by simp
  have "butlast ?chain @ [last ?chain] = ?chain" by (simp add: add_chain_def)
  note split = this
  have rank: "chain_rank cfg d < chain_rank cfg x"
    if "(x, r) \<in> set m" "d \<in> set (m_Dependencies ?vt h r)" for x r d
  proof -
    have "map_of m x = Some r" using that(1) keyed by (simp add: well_keyed_def)
    from at[OF this] that(2) desired_descends[OF assms(1,2), of "h0 ! r" conns 0 d] show ?thesis by simp
  qed
  have chain: "successively (\<lambda>x y. \<forall>r. map_of m y = Some r \<longrightarrow> x \<in> set (m_Dependencies ?vt h r)) ?chain"
    using chain_depends[OF assms(1-5), of conns 0 catchup]
    by (rule successively_mono) (use at in \<open>auto simp: depends_in_def\<close>)
  have "last ?chain \<in> set ?chain" by (simp add: add_chain_def)
  from planned_created[OF assms(8) keyed assms(9) planned[OF this]]
  obtain i where i: "created_in ?vt h phases i (last ?chain)" ..
  have "\<exists>is. sorted_wrt (<) (is @ [i]) \<and> list_all2 (created_in ?vt h phases) is (butlast ?chain)"
    by (rule chain_in_order[where rank = "chain_rank cfg", OF assms(8) keyed assms(9) rank _ _ i])
      (use chain planned split in \<open>auto simp: in_set_butlastD\<close>)
  then obtain ks where "sorted_wrt (<) (ks @ [i])" "list_all2 (created_in ?vt h phases) ks (butlast ?chain)" by blast
  with i have all: "list_all2 (created_in ?vt h phases) (ks @ [i]) (butlast ?chain @ [last ?chain])"
    by (intro list_all2_appendI) simp_all
  define js where "js = ks @ [i]"
  have js: "sorted_wrt (<) js" "list_all2 (created_in ?vt h phases) js ?chain"
    using \<open>sorted_wrt (<) (ks @ [i])\<close> all split by (simp_all add: js_def)
  obtain d where d: "created_in ?vt h phases d (disabled_id nn p)" "js ! 0 < d" "d < js ! 4"
    by (rule disabled_between[OF assms(1-9) _ js]) (use assms(10) in simp)
  with js show ?thesis by blast
qed

text \<open>
  Claim C7: The order in which a node is added. Let the names of the nodes have neither a dash nor an
  underscore and \<open>nn\<close> be the only node to be populated, from another node of the configuration
  (\<open>plain_config\<close>), and let \<open>p\<close> be a further node. Whatever else exists and however Go
  ranges over its maps, the plan creates the ten resources from the slot on the peer \<open>p\<close> to \<open>p\<close>'s
  subscription (\<open>add_chain\<close>, one for each of the two ways the source confirms a peer) in strictly
  increasing phases: the copy from the source starts only after the source has confirmed the peer's
  sync event and its progress, and the peer's subscription is made or enabled only after the slot and the
  origin were advanced. The peer's disabled subscription, on which nothing depends, is created after the
  slot (position 0) and before the source's sync event (position 4), so before the lag tracker is read,
  as the code's comment wants it. (The populate resources are never in \<open>actual\<close>, as their
  \<open>Refresh\<close> says; the two subscriptions are not when the node is new.)
\<close>

theorem add_node_order:
  assumes "plain_config cfg" and "\<And>ks. set (ord ks) = set ks"
    and "map_of (new_nodes cfg) (Name nn) = Some nn" and "p \<in> set (Nodes cfg)" and "is_peer nn p"
    and "ComputeDesired ord cfg conns [] = (h0, m)" and "refreshed h0 h"
    and "go_order pord"
    and "plan pord (spock_methods fuel) h actual m = Some phases"
    and "\<forall>x\<in>set (disabled_id nn p # add_chain cfg nn p catchup). \<not> has_key actual x"
  shows "\<exists>is d. sorted_wrt (<) is \<and> list_all2 (created_in (spock_methods fuel) h phases) is (add_chain cfg nn p catchup)
    \<and> created_in (spock_methods fuel) h phases d (disabled_id nn p) \<and> is ! 0 < d \<and> d < is ! 4"
  by (rule chain_created[OF assms])

theorem add_node_order_witness:
  "\<exists>is d. sorted_wrt (<) is \<and> list_all2 (created_in (spock_methods 0) (fst sample_resources)
     (the (plan (\<lambda>n ks. ks) (spock_methods 0) (fst sample_resources) [] (snd sample_resources)))) is
     (add_chain add_node_config (added_node ''n3'' ''n1'') (plain_node ''n2'') True)
   \<and> created_in (spock_methods 0) (fst sample_resources)
     (the (plan (\<lambda>n ks. ks) (spock_methods 0) (fst sample_resources) [] (snd sample_resources))) d
     (disabled_id (added_node ''n3'' ''n1'') (plain_node ''n2''))
   \<and> is ! 0 < d \<and> d < is ! 4"
proof (rule add_node_order[of _ "\<lambda>ks. ks" _ _ add_node_conns "fst sample_resources" "snd sample_resources",
      OF sample_plain refl _ _ _ _ refreshed_self go_order_id])
  show "map_of (new_nodes add_node_config) (Name (added_node ''n3'' ''n1'')) = Some (added_node ''n3'' ''n1'')"
    "plain_node ''n2'' \<in> set (Nodes add_node_config)" "is_peer (added_node ''n3'' ''n1'') (plain_node ''n2'')"
    by code_simp+
  show "ComputeDesired (\<lambda>ks. ks) add_node_config add_node_conns [] = (fst sample_resources, snd sample_resources)"
    by (simp add: sample_resources_def)
  obtain ds us cs where "plan (\<lambda>n ks. ks) (spock_methods 0) (fst sample_resources) [] (snd sample_resources) = Some (ds @ us @ cs)"
    by (rule plan_sections[OF go_order_id, of "spock_methods 0" "fst sample_resources" "[]" "snd sample_resources"]) (rule that; assumption)
  then show "plan (\<lambda>n ks. ks) (spock_methods 0) (fst sample_resources) [] (snd sample_resources) =
      Some (the (plan (\<lambda>n ks. ks) (spock_methods 0) (fst sample_resources) [] (snd sample_resources)))" by simp
qed (simp_all add: well_keyed_def)

subsection \<open>Two nodes at once\<close>

text \<open>
  With two nodes \<open>a\<close> and \<open>b\<close> populated from one source in the same run each copy waits for the other:
  the copy to \<open>a\<close> for the source to have seen \<open>b\<close>'s sync event, that event for \<open>b\<close>'s subscription at the
  source, this one for the source's event to have arrived at \<open>b\<close>, and so for the copy to \<open>b\<close>.
\<close>

definition half_circle :: "string \<Rightarrow> string \<Rightarrow> string \<Rightarrow> ident list" where
  "half_circle s a b =
     [mk_id ResourceTypeSubscription (spock_sub_name s a),
      mk_id ResourceTypeWaitForSyncEvent (pair_id b s),
      mk_id ResourceTypeSyncEvent (pair_id b s),
      mk_id ResourceTypeSubscription (spock_sub_name b s),
      mk_id ResourceTypeWaitForSyncEvent (pair_id s b),
      mk_id ResourceTypeSyncEvent (pair_id s b)]"

definition circle :: "node \<Rightarrow> node \<Rightarrow> ident list" where
  "circle a b = half_circle (source_of a) (Name a) (Name b) @ half_circle (source_of a) (Name b) (Name a)"

definition depends_on :: "resources \<Rightarrow> ident \<Rightarrow> ident \<Rightarrow> bool" where
  "depends_on s y x \<longleftrightarrow> (case map_of (snd s) y of None \<Rightarrow> False | Some r \<Rightarrow> x \<in> set (Dependencies (fst s ! r)))"

text \<open>Two nodes to be populated from one source, which is not itself to be populated.\<close>

definition populated_together :: "config \<Rightarrow> node \<Rightarrow> node \<Rightarrow> bool" where
  "populated_together cfg a b \<longleftrightarrow> list_all (\<lambda>n. plain_name (Name n)) (Nodes cfg) \<and> sources_ok cfg
     \<and> map_of (new_nodes cfg) (Name a) = Some a \<and> map_of (new_nodes cfg) (Name b) = Some b
     \<and> Name a \<noteq> Name b \<and> source_of a = source_of b \<and> \<not> has_key (new_nodes cfg) (source_of a)"

lemma populated_together_sym: "populated_together cfg a b \<Longrightarrow> populated_together cfg b a"
  unfolding populated_together_def by metis

lemma sync_depends:
  assumes "\<forall>n\<in>set (Nodes cfg). plain_name (Name n)" and "sources_ok cfg" and "\<And>ks. set (ord ks) = set ks" and "plain_name x"
  shows "depends_in (desired_objects ord cfg conns base) (mk_id ResourceTypeSubscription (spock_sub_name x y))
    (mk_id ResourceTypeSyncEvent (pair_id x y))"
  unfolding depends_in_def
proof (intro ballI impI)
  fix ob
  assume ob: "ob \<in> set (desired_objects ord cfg conns base)" and id: "Identifier ob = mk_id ResourceTypeSyncEvent (pair_id x y)"
  then have "Type (Identifier ob) = ResourceTypeSyncEvent" by simp
  from object_of_type(1)[OF this] obtain e where e: "ob = OSyncEvent e" by blast
  have "plain_name (se_providerName e)"
    using ob[unfolded e] assms(3)
  proof (cases rule: desired_sync)
    case (peer nn p)
    with assms(1) show ?thesis by (simp add: new_defs)
  next
    case (source nn)
    from sources_okD[OF assms(2)] new_nodes_lookup[OF source(1)] assms(1) have "plain_name (source_of nn)" by metis
    with source(2) show ?thesis by (simp add: new_defs)
  qed
  from pair_id_eq[OF this assms(4)] id e show "mk_id ResourceTypeSubscription (spock_sub_name x y) \<in> set (Dependencies ob)"
    by simp
qed

lemma half_circle_depends:
  assumes t: "populated_together cfg a b" and ord: "\<And>ks. set (ord ks) = set ks" and s: "s = source_of a"
  shows "list_all2 (\<lambda>y x. depends_in (desired_objects ord cfg conns base) x y) (half_circle s (Name a) (Name b))
    (tl (half_circle s (Name a) (Name b)) @ [mk_id ResourceTypeSubscription (spock_sub_name s (Name b))])"
proof -
  let ?dep = "depends_in (desired_objects ord cfg conns base)"
  have plain: "\<forall>n\<in>set (Nodes cfg). plain_name (Name n)" and src: "sources_ok cfg"
    and a: "map_of (new_nodes cfg) (Name a) = Some a" and b: "map_of (new_nodes cfg) (Name b) = Some b"
    and ab: "Name a \<noteq> Name b" "source_of b = s" "map_of (new_nodes cfg) s = None"
    using t by (auto simp: populated_together_def list_all_iff s)
  note n = new_nodes_lookup[OF a] new_nodes_lookup[OF b]
  from sources_okD[OF src] n ab(2) s have sb: "s \<noteq> Name b" "plain_name s" "plain_name (Name a)" "plain_name (Name b)"
    using plain by metis+
  have type: "Identifier ob = mk_id T i \<Longrightarrow> Type (Identifier ob) = T" for ob T i by simp
  have "?dep (mk_id ResourceTypeWaitForSyncEvent (pair_id (Name b) s)) (mk_id ResourceTypeSubscription (spock_sub_name s (Name a)))"
    unfolding depends_in_def
  proof (intro ballI impI)
    fix ob
    assume ob: "ob \<in> set (desired_objects ord cfg conns base)"
      and id: "Identifier ob = mk_id ResourceTypeSubscription (spock_sub_name s (Name a))"
    from object_of_type(4)[OF type[OF id]] obtain u where u: "ob = OSub u" by blast
    from ob[unfolded u] ord show "mk_id ResourceTypeWaitForSyncEvent (pair_id (Name b) s) \<in> set (Dependencies ob)"
    proof (cases rule: desired_sub)
      case (1 x y names)
      have "plain_name (Name x)" "plain_name (Name y)" using plain 1(1,2) by blast+
      from sub_name_eq[OF this sb(2,3)] id u 1(5,6) have xy: "Name x = s" "Name y = Name a" by (simp_all add: subName_def)
      then have "from_source (new_nodes cfg) (Name x) (Name y)" by (simp add: from_source_def a s)
      with 1(10) peer_deps_get[OF 1(4) a] xy(2) have "su_extraDeps u = gates cfg a" by simp
      moreover have "mk_id ResourceTypeWaitForSyncEvent (pair_id (Name b) s) \<in> set (gates cfg a)"
        using n(2) ab(1) sb(1) by (auto simp: gates_def peer_gates_def is_peer_def s)
      ultimately show ?thesis by (simp add: u)
    qed
  qed
  moreover have "?dep (mk_id ResourceTypeWaitForSyncEvent (pair_id s (Name b))) (mk_id ResourceTypeSubscription (spock_sub_name (Name b) s))"
    unfolding depends_in_def
  proof (intro ballI impI)
    fix ob
    assume ob: "ob \<in> set (desired_objects ord cfg conns base)"
      and id: "Identifier ob = mk_id ResourceTypeSubscription (spock_sub_name (Name b) s)"
    from object_of_type(4)[OF type[OF id]] obtain u where u: "ob = OSub u" by blast
    from ob[unfolded u] ord show "mk_id ResourceTypeWaitForSyncEvent (pair_id s (Name b)) \<in> set (Dependencies ob)"
    proof (cases rule: desired_sub)
      case (1 x y names)
      have "plain_name (Name x)" "plain_name (Name y)" using plain 1(1,2) by blast+
      from sub_name_eq[OF this sb(4,2)] id u 1(5,6) have xy: "Name x = Name b" "Name y = s" by (simp_all add: subName_def)
      then have "\<not> from_source (new_nodes cfg) (Name x) (Name y)" by (simp add: from_source_def ab(3))
      with 1(10) xy have "su_extraDeps u = pair_deps (new_nodes cfg) (Name b) s" by simp
      then show ?thesis by (simp add: u pair_deps_def b ab(2))
    qed
  qed
  ultimately show ?thesis
    using depends_same_pair(1) sync_depends[OF plain src ord sb(4)] sync_depends[OF plain src ord sb(2)]
    by (simp add: half_circle_def)
qed

lemma circle_depends_in:
  assumes "populated_together cfg a b" and "\<And>ks. set (ord ks) = set ks"
  shows "list_all2 (\<lambda>y x. depends_in (desired_objects ord cfg conns base) x y) (circle a b) (rotate1 (circle a b))"
proof -
  have "source_of b = source_of a" using assms(1) by (simp add: populated_together_def)
  with half_circle_depends[OF assms refl] half_circle_depends[OF populated_together_sym[OF assms(1)] assms(2), of "source_of a"]
  have "list_all2 (\<lambda>y x. depends_in (desired_objects ord cfg conns base) x y) (circle a b)
    ((tl (half_circle (source_of a) (Name a) (Name b)) @ [mk_id ResourceTypeSubscription (spock_sub_name (source_of a) (Name b))]) @
     (tl (half_circle (source_of a) (Name b) (Name a)) @ [mk_id ResourceTypeSubscription (spock_sub_name (source_of a) (Name a))]))"
    unfolding circle_def by (intro list_all2_appendI) simp_all
  then show ?thesis by (simp add: circle_def half_circle_def)
qed

lemma circle_in_map:
  assumes t: "populated_together cfg a b" and ord: "\<And>ks. set (ord ks) = set ks"
    and m: "ComputeDesired ord cfg conns [] = (h0, m)" and x: "x \<in> set (circle a b)"
  shows "has_key m x"
proof -
  have half: "set (half_circle (source_of a) (Name a) (Name b)) \<subseteq> desired_ids ord cfg conns 0"
    if t: "populated_together cfg a b" for a b
  proof -
    have src: "sources_ok cfg" and a: "map_of (new_nodes cfg) (Name a) = Some a" and b: "map_of (new_nodes cfg) (Name b) = Some b"
      and ab: "Name a \<noteq> Name b" "source_of b = source_of a"
      using t by (auto simp: populated_together_def)
    note n = new_nodes_lookup[OF a] new_nodes_lookup[OF b]
    then have nodes: "a \<in> set (Nodes cfg)" "b \<in> set (Nodes cfg)" by blast+
    from sources_okD[OF src] n ab(2) obtain s where s: "s \<in> set (Nodes cfg)" "Name s = source_of a" "source_of a \<noteq> Name b"
      "source_of a \<noteq> Name a" by metis
    then have peer: "is_peer a b" using ab by (auto simp: is_peer_def)
    have ne: "Name s \<noteq> Name a" "Name b \<noteq> Name s" using s by auto
    show ?thesis
      using pair_ids[OF ord s(1) nodes(1) ne(1), of conns 0] pair_ids[OF ord nodes(2) s(1) ne(2), of conns 0]
        peers_ids[OF ord a nodes(2) peer, of conns 0] source_ids[OF ord b, of conns 0] ab(2) s(2)
      by (simp add: half_circle_def peer_ids_def)
  qed
  have "source_of b = source_of a" using t by (simp add: populated_together_def)
  with half[OF t] half[OF populated_together_sym[OF t]] x have "x \<in> desired_ids ord cfg conns 0"
    by (auto simp: circle_def)
  then show ?thesis
    unfolding has_key_iff set_map using desired_keys[of ord cfg conns] m by auto
qed

text \<open>
  Claim C36: Two nodes that are populated from the same source in one run (that is not populated itself)
  make a circle of twelve dependencies, through the two copies, for any configuration whose names have
  neither a dash nor an underscore and whose sources are other configured nodes. So the code plans no
  order at all for them: when none of the twelve exists yet, and whatever else does and whatever the
  orders Go picks, the creates of the circle all stand in the last phase, where the two copies, the sync events they should follow
  and the waits for those run at the same time.
\<close>

theorem two_added_unordered:
  assumes "populated_together cfg a b" and "\<And>ks. set (ord ks) = set ks"
    and "ComputeDesired ord cfg conns [] = (h0, m)" and "refreshed h0 h" and "go_order pord"
    and "plan pord (spock_methods fuel) h actual m = Some phases"
    and "\<forall>x\<in>set (circle a b). \<not> has_key actual x"
  shows "list_all2 (depends_on (h, m)) (circle a b) (rotate1 (circle a b))
    \<and> (\<forall>x\<in>set (circle a b). \<forall>i. created_in (spock_methods fuel) h phases i x \<longleftrightarrow> Suc i = length phases)"
proof -
  let ?vt = "spock_methods fuel"
  note keyed = refreshed_keyed[OF assms(3,4), of fuel] and at = refreshed_desired[OF assms(3,4)]
  have deps: "list_all2 (depends_on (h, m)) (circle a b) (rotate1 (circle a b))"
  proof (rule list_all2_all_nthI)
    fix k
    assume k: "k < length (circle a b)"
    then have "circle a b ! k \<in> set (circle a b)" by simp
    from circle_in_map[OF assms(1-3) this] obtain r where r: "map_of m (circle a b ! k) = Some r" by blast
    from list_all2_nthD[OF circle_depends_in[OF assms(1,2), of conns 0] k] at[OF r] r
    show "depends_on (h, m) (circle a b ! k) (rotate1 (circle a b) ! k)"
      by (simp add: depends_on_def depends_in_def)
  qed simp
  have planned: "planned ?vt h actual m ActionCreate x" if "x \<in> set (circle a b)" for x
    using circle_in_map[OF assms(1-3) that] assms(7) that by simp
  have last: "Suc i = length phases" if x: "x \<in> set (circle a b)" "created_in ?vt h phases i x" for i x
  proof (rule circular_creates_last[OF assms(5) keyed assms(6) _ x])
    fix y
    assume y: "y \<in> set (circle a b)"
    then obtain k where k: "k < length (circle a b)" "y = circle a b ! k" by (auto simp: in_set_conv_nth)
    have "depends_on (h, m) y (rotate1 (circle a b) ! k)" using list_all2_nthD[OF deps k(1)] k(2) by simp
    moreover have "rotate1 (circle a b) ! k \<in> set (circle a b)"
      using k(1) by (metis length_rotate1 nth_mem set_rotate1)
    ultimately show "planned ?vt h actual m ActionCreate y \<and>
        (\<exists>x\<in>set (circle a b). \<forall>r. map_of m y = Some r \<longrightarrow> x \<in> set (m_Dependencies ?vt h r))"
      using planned[OF y] by (auto simp: depends_on_def split: option.splits)
  qed
  have "created_in ?vt h phases i x" if x: "x \<in> set (circle a b)" "Suc i = length phases" for i x
  proof -
    obtain j where j: "created_in ?vt h phases j x"
      using planned_created[OF assms(5) keyed assms(6) planned[OF x(1)]] ..
    from last[OF x(1) j] x(2) have "j = i" by linarith
    with j show ?thesis by simp
  qed
  with deps last show ?thesis by blast
qed

definition two_added :: config where
  "two_added = sample_config [plain_node ''n1'', added_node ''n3'' ''n1'', added_node ''n4'' ''n1'']"

definition two_added_conns :: conns where
  "two_added_conns = [(''n1'', 0), (''n3'', 2), (''n4'', 3)]"

abbreviation two_circle :: "ident list" where
  "two_circle \<equiv> circle (added_node ''n3'' ''n1'') (added_node ''n4'' ''n1'')"

theorem two_added_unordered_witness:
  "let s = ComputeDesired (\<lambda>ks. ks) two_added two_added_conns [];
       phases = the (plan (\<lambda>n ks. ks) (spock_methods 0) (fst s) [] (snd s))
   in list_all2 (depends_on s) two_circle (rotate1 two_circle)
     \<and> created_in (spock_methods 0) (fst s) phases (length phases - 1) (hd two_circle)"
proof -
  let ?s = "ComputeDesired (\<lambda>ks. ks) two_added two_added_conns []"
  obtain ds us cs where p: "plan (\<lambda>n ks. ks) (spock_methods 0) (fst ?s) [] (snd ?s) = Some (ds @ us @ cs)"
    by (rule plan_sections[OF go_order_id, of "spock_methods 0" "fst ?s" "[]" "snd ?s"]) (rule that; assumption)
  have t: "populated_together two_added (added_node ''n3'' ''n1'') (added_node ''n4'' ''n1'')" by code_simp
  have s: "?s = (fst ?s, snd ?s)" by simp
  have e: "\<forall>x\<in>set two_circle. \<not> has_key [] x" by simp
  note r = two_added_unordered[OF t refl s refreshed_self go_order_id p e]
  have "hd two_circle \<in> set two_circle" by (simp add: circle_def half_circle_def)
  moreover have "depends_on ?s (hd two_circle) (hd (rotate1 two_circle))"
    using r by (simp add: circle_def half_circle_def)
  then have "\<exists>i. created_in (spock_methods 0) (fst ?s) (ds @ us @ cs) i (hd two_circle)"
    by (intro planned_created[OF go_order_id refreshed_keyed[OF s refreshed_self] p])
      (auto simp: depends_on_def split: option.splits)
  then have "length (ds @ us @ cs) \<noteq> 0" by (auto simp: created_in_def)
  ultimately show ?thesis
    using r unfolding Let_def p option.sel by simp
qed

end
