(* ===== verification/Map_Order.thy ===== *)
theory Map_Order
  imports Plan
begin

text \<open>
  What Go's order of \<open>range\<close> over maps can change in a plan: the order of the events
  inside a phase, which run at the same time anyway, and, where two keys of \<open>actual\<close> have one
  identifier, which of the two resources the one event for it carries.
\<close>

subsection \<open>Admissible phases are unique\<close>

lemma layered_ConsD:
  assumes "layered succs R (xs # ps)" and "\<exists>x\<in>R. \<forall>p\<in>R. x \<notin> set (succs p)"
  shows "set xs = {x\<in>R. \<forall>p\<in>R. x \<notin> set (succs p)} \<and> layered succs (R - set xs) ps"
  using assms(1)
proof cases
  case cyclic
  with assms(2) show ?thesis by blast
qed simp

lemma layered_unique:
  "layered succs R ps \<Longrightarrow> layered succs' R ps' \<Longrightarrow> (\<And>p x. x \<in> set (succs p) \<longleftrightarrow> x \<in> set (succs' p)) \<Longrightarrow>
    map set ps = map set ps'"
proof (induction arbitrary: ps' rule: layered.induct)
  case finished
  have "set (concat ps') = {}" by (rule layered_set[OF finished.prems(1)])
  moreover have "[] \<notin> set ps'" using layered_nonempty[OF finished.prems(1)] by blast
  ultimately show ?case by (cases ps') auto
next
  case (cyclic R xs)
  from cyclic.prems(1) show ?case
  proof cases
    case finished
    with cyclic.hyps(1) show ?thesis by simp
  next
    case (cyclic ys)
    with \<open>set xs = R\<close> show ?thesis by simp
  next
    case (round ys qs)
    then obtain y where "y \<in> R" "\<forall>p\<in>R. y \<notin> set (succs' p)" by (metis (mono_tags, lifting) hd_in_set mem_Collect_eq)
    with cyclic.hyps(2) cyclic.prems(2) show ?thesis by blast
  qed
next
  case (round xs R ps)
  then obtain x where x: "x \<in> R" "\<forall>p\<in>R. x \<notin> set (succs p)" by (metis (mono_tags, lifting) hd_in_set mem_Collect_eq)
  with round.prems(2) have x': "\<exists>x\<in>R. \<forall>p\<in>R. x \<notin> set (succs' p)" by blast
  have "ps' \<noteq> []"
  proof
    assume "ps' = []"
    with layered_set[OF round.prems(1)] x(1) show False by simp
  qed
  then obtain ys qs where ps': "ps' = ys # qs" by (cases ps') auto
  from layered_ConsD[OF round.prems(1)[unfolded ps'] x'] round.hyps(1) round.prems(2)
  have "set ys = set xs" "layered succs' (R - set xs) qs" by auto
  with round.IH[OF this(2) round.prems(2)] ps' show ?case by simp
qed

subsection \<open>Sorted events\<close>

text \<open>The same phases, each with its events in some order.\<close>

definition same_phases :: "'r event list list \<Rightarrow> 'r event list list \<Rightarrow> bool" where
  "same_phases ps ps' \<longleftrightarrow> map mset ps = map mset ps'"

lemma same_phases_append: "same_phases ps ps' \<Longrightarrow> same_phases qs qs' \<Longrightarrow> same_phases (ps @ qs) (ps' @ qs')"
  by (simp add: same_phases_def)

text \<open>A phase of a sorted list is determined by the set of its identifiers.\<close>

lemma phase_by_ids:
  assumes "go_order ord" and "topo_sort ord vt h events reverse = Some phases"
    and "distinct (map (event_id vt h) events)" and "phase \<in> set phases"
  shows "mset phase = mset_set {e \<in> set events. event_id vt h e \<in> event_ids vt h phase}"
proof -
  note ids = topo_sort_ids[OF assms(1,2)]
  have "distinct (concat phases)" using ids(1) by (metis distinct_map)
  with assms(4) have d: "distinct phase" by (metis distinct_concat_iff)
  have sub: "set phase \<subseteq> set events" using ids(3) assms(4) by auto
  have "e \<in> set phase" if "e \<in> set events" "event_id vt h e \<in> event_ids vt h phase" for e
  proof -
    from that(2) obtain e' where e': "e' \<in> set phase" "event_id vt h e' = event_id vt h e" by auto
    with sub that(1) assms(3) have "e' = e" by (auto simp: distinct_map inj_on_def)
    with e' show ?thesis by simp
  qed
  with sub have "set phase = {e \<in> set events. event_id vt h e \<in> event_ids vt h phase}" by auto
  with d show ?thesis by (metis mset_set_set)
qed

lemma topo_sort_same_ids:
  assumes "go_order ord" and "go_order ord'"
    and "topo_sort ord vt h events reverse = Some phases" and "topo_sort ord' vt h events' reverse = Some phases'"
    and "mset events = mset events'"
  shows "map (event_ids vt h) phases = map (event_ids vt h) phases'"
proof -
  have set: "set events = set events'" using assms(5) by (metis set_mset_mset)
  have pre: "precedes reverse vt h events = precedes reverse vt h events'"
    by (simp add: fun_eq_iff precedes_def set)
  obtain succs where s: "layered succs (event_ids vt h events) (map (map (event_id vt h)) phases)"
    "\<And>p x. x \<in> set (succs p) \<longleftrightarrow> precedes reverse vt h events p x"
    by (rule topo_sort_SomeE[OF assms(1,3)]) (rule that; assumption)
  obtain succs' where s': "layered succs' (event_ids vt h events') (map (map (event_id vt h)) phases')"
    "\<And>p x. x \<in> set (succs' p) \<longleftrightarrow> precedes reverse vt h events' p x"
    by (rule topo_sort_SomeE[OF assms(2,4)]) (rule that; assumption)
  show ?thesis
    using layered_unique[OF s(1) s'(1)[folded set]] s(2) s'(2) pre by (simp add: comp_def)
qed

lemma topo_sort_same:
  assumes "go_order ord" and "go_order ord'"
    and "topo_sort ord vt h events reverse = Some phases" and "topo_sort ord' vt h events' reverse = Some phases'"
    and "mset events = mset events'" and "distinct (map (event_id vt h) events)"
  shows "same_phases phases phases'"
proof -
  have set: "set events = set events'" using assms(5) by (metis set_mset_mset)
  have "mset (map (event_id vt h) events) = mset (map (event_id vt h) events')" using assms(5) by simp
  then have d': "distinct (map (event_id vt h) events')" using assms(6) mset_eq_imp_distinct_iff by blast
  let ?f = "\<lambda>ids. mset_set {e \<in> set events. event_id vt h e \<in> ids}"
  have "map mset phases = map ?f (map (event_ids vt h) phases)"
    using phase_by_ids[OF assms(1,3,6)] by simp
  also have "\<dots> = map ?f (map (event_ids vt h) phases')" unfolding topo_sort_same_ids[OF assms(1-5)] ..
  also have "\<dots> = map mset phases'"
    using phase_by_ids[OF assms(2,4) d'] by (simp add: set)
  finally show ?thesis unfolding same_phases_def .
qed

text \<open>The same phases by what they do to which identifier, each event once.\<close>

definition work :: "('q, 's, 'o, 'r) methods \<Rightarrow> 'o list \<Rightarrow> 'r event list \<Rightarrow> (action \<times> ident) multiset" where
  "work vt h phase = mset (map (\<lambda>e. (Action e, event_id vt h e)) phase)"

lemma phase_work:
  assumes "distinct (map (event_id vt h) phase)" and "\<And>e. e \<in> set phase \<Longrightarrow> Action e = a"
  shows "work vt h phase = mset_set (Pair a ` event_ids vt h phase)"
proof -
  have "map (\<lambda>e. (Action e, event_id vt h e)) phase = map (Pair a) (map (event_id vt h) phase)"
    using assms(2) by simp
  moreover have "distinct (map (Pair a) (map (event_id vt h) phase))"
    unfolding distinct_map[of "Pair a"] using assms(1) by (simp add: inj_on_def)
  ultimately have "work vt h phase = mset_set (set (map (Pair a) (map (event_id vt h) phase)))"
    unfolding work_def by (simp only: mset_set_set)
  then show ?thesis by (simp add: image_image)
qed

lemma sorted_work:
  assumes "go_order ord" and "topo_sort ord vt h events reverse = Some phases"
    and "\<And>e. e \<in> set events \<Longrightarrow> Action e = a"
  shows "map (work vt h) phases = map (\<lambda>ids. mset_set (Pair a ` ids)) (map (event_ids vt h) phases)"
proof -
  note ids = topo_sort_ids[OF assms(1,2)]
  have "work vt h phase = mset_set (Pair a ` event_ids vt h phase)" if "phase \<in> set phases" for phase
  proof (rule phase_work)
    from that obtain before after where "phases = before @ phase # after" by (auto dest: split_list)
    with ids(1) show "distinct (map (event_id vt h) phase)" by simp
    show "Action e = a" if "e \<in> set phase" for e
      using that \<open>phase \<in> set phases\<close> ids(3) assms(3) by auto
  qed
  then show ?thesis by simp
qed

lemma topo_sort_same_work:
  assumes "go_order ord" and "go_order ord'"
    and "topo_sort ord vt h events reverse = Some phases" and "topo_sort ord' vt h events' reverse = Some phases'"
    and "mset events = mset events'" and "\<And>e. e \<in> set events \<Longrightarrow> Action e = a"
  shows "map (work vt h) phases = map (work vt h) phases'"
proof -
  have "Action e = a" if "e \<in> set events'" for e
    using that assms(5,6) by (metis set_mset_mset)
  then show ?thesis
    using sorted_work[OF assms(2,4), of a] sorted_work[OF assms(1,3,6)] topo_sort_same_ids[OF assms(1-5)] by simp
qed

subsection \<open>The plan\<close>

lemma plan_lists_same:
  assumes "go_order ord" and "go_order ord'"
  shows "mset (plan_deletes ord vt h actual desired) = mset (plan_deletes ord' vt h actual desired)"
    and "mset (plan_updates ord vt h actual desired) = mset (plan_updates ord' vt h actual desired)"
    and "mset (plan_creates ord vt h actual desired) = mset (plan_creates ord' vt h actual desired)"
proof -
  have "mset (ord n ks) = mset (ord' n ks)" for n ks using assms by (simp add: go_order_def)
  then show "mset (plan_deletes ord vt h actual desired) = mset (plan_deletes ord' vt h actual desired)"
    "mset (plan_updates ord vt h actual desired) = mset (plan_updates ord' vt h actual desired)"
    "mset (plan_creates ord vt h actual desired) = mset (plan_creates ord' vt h actual desired)"
    by (simp_all add: plan_deletes_def plan_updates_def plan_creates_def mset_filter)
qed

lemma plan_same_phases:
  assumes "go_order ord" and "go_order ord'" and "well_keyed vt h actual" and "well_keyed vt h desired"
    and "plan ord vt h actual desired = Some phases" and "plan ord' vt h actual desired = Some phases'"
  shows "same_phases phases phases'"
proof (rule plan_phase_sections[OF assms(1,5)], rule plan_phase_sections[OF assms(2,6)])
  fix ds us cs ds' us' cs'
  assume a: "phases = ds @ us @ cs"
    "topo_sort (\<lambda>n. ord (3 * n + 2)) vt h (plan_deletes ord vt h actual desired) True = Some ds"
    "topo_sort (\<lambda>n. ord (3 * n + 3)) vt h (plan_updates ord vt h actual desired) False = Some us"
    "topo_sort (\<lambda>n. ord (3 * n + 4)) vt h (plan_creates ord vt h actual desired) False = Some cs"
    and b: "phases' = ds' @ us' @ cs'"
    "topo_sort (\<lambda>n. ord' (3 * n + 2)) vt h (plan_deletes ord' vt h actual desired) True = Some ds'"
    "topo_sort (\<lambda>n. ord' (3 * n + 3)) vt h (plan_updates ord' vt h actual desired) False = Some us'"
    "topo_sort (\<lambda>n. ord' (3 * n + 4)) vt h (plan_creates ord' vt h actual desired) False = Some cs'"
  note shifted = go_order_shift[OF assms(1)] go_order_shift[OF assms(2)]
  note same = plan_lists_same[OF assms(1,2)]
  show ?thesis unfolding a(1) b(1)
    by (intro same_phases_append
      topo_sort_same[OF shifted a(2) b(2) same(1) plan_lists_deletes(1)[OF assms(1,3,4)]]
      topo_sort_same[OF shifted a(3) b(3) same(2) plan_lists_desired(1)[OF assms(1,4)]]
      topo_sort_same[OF shifted a(4) b(4) same(3) plan_lists_desired(2)[OF assms(1,4)]])
qed

lemma plan_same_work:
  assumes "go_order ord" and "go_order ord'"
    and "plan ord vt h actual desired = Some phases" and "plan ord' vt h actual desired = Some phases'"
  shows "map (work vt h) phases = map (work vt h) phases'"
proof (rule plan_phase_sections[OF assms(1,3)], rule plan_phase_sections[OF assms(2,4)])
  fix ds us cs ds' us' cs'
  assume a: "phases = ds @ us @ cs"
    "topo_sort (\<lambda>n. ord (3 * n + 2)) vt h (plan_deletes ord vt h actual desired) True = Some ds"
    "topo_sort (\<lambda>n. ord (3 * n + 3)) vt h (plan_updates ord vt h actual desired) False = Some us"
    "topo_sort (\<lambda>n. ord (3 * n + 4)) vt h (plan_creates ord vt h actual desired) False = Some cs"
    and b: "phases' = ds' @ us' @ cs'"
    "topo_sort (\<lambda>n. ord' (3 * n + 2)) vt h (plan_deletes ord' vt h actual desired) True = Some ds'"
    "topo_sort (\<lambda>n. ord' (3 * n + 3)) vt h (plan_updates ord' vt h actual desired) False = Some us'"
    "topo_sort (\<lambda>n. ord' (3 * n + 4)) vt h (plan_creates ord' vt h actual desired) False = Some cs'"
  note shifted = go_order_shift[OF assms(1)] go_order_shift[OF assms(2)]
  note same = plan_lists_same[OF assms(1,2)] and actions = plan_lists_action[of _ ord vt h actual desired]
  show ?thesis
    using topo_sort_same_work[OF shifted a(2) b(2) same(1) actions(1)]
      topo_sort_same_work[OF shifted a(3) b(3) same(2) actions(2)]
      topo_sort_same_work[OF shifted a(4) b(4) same(3) actions(3)]
    unfolding a(1) b(1) map_append by simp
qed

text \<open>
  Claim C14: Planning is deterministic up to the order inside a phase. For every two maps, however they are
  keyed, and every two orders in which Go may range over them, \<open>Plan\<close> returns equally many phases with the same
  actions on the same identifiers in each (\<open>work\<close>): the random order of maps never decides what is done before
  what. If moreover both maps are keyed by identifier, the phases hold the very same events. (In a map with an
  orphan node under two keys the order does choose which of the two resources the one delete event carries.)
\<close>

theorem plan_order_free:
  assumes "go_order ord" and "go_order ord'"
    and "plan ord vt h actual desired = Some phases" and "plan ord' vt h actual desired = Some phases'"
  shows "map (work vt h) phases = map (work vt h) phases'
    \<and> (well_keyed vt h actual \<and> well_keyed vt h desired \<longrightarrow> same_phases phases phases')"
  using plan_same_work[OF assms] plan_same_phases[OF assms(1,2) _ _ assms(3,4)] by blast

text \<open>Two users and a node of the second one, planned in both directions.\<close>

definition order_sample :: "mock resource_map" where
  "order_sample =
     [(mk_id ''user'' ''n1'', (mk_id ''user'' ''n1'', [], zero_status)),
      (mk_id ''node'' ''n2'', (mk_id ''node'' ''n2'', [mk_id ''user'' ''n2''], zero_status)),
      (mk_id ''user'' ''n2'', (mk_id ''user'' ''n2'', [], zero_status))]"

definition other_order :: "ident order" where
  "other_order n ks = (if n < 2 then rev ks else ks)"

lemma other_order: "go_order other_order"
  by (simp add: go_order_def other_order_def)

lemma order_sample_plans:
  "map_option (map (map (\<lambda>e. ID (fst (Resource e))))) (plan (\<lambda>n ks. ks) mock_methods [] [] order_sample)
     = Some [[''n1'', ''n2''], [''n2'']]"
  "map_option (map (map (\<lambda>e. ID (fst (Resource e))))) (plan other_order mock_methods [] [] order_sample)
     = Some [[''n2'', ''n1''], [''n2'']]"
  by code_simp+

text \<open>The witness plans an orphan of two keys away, and the sample in.\<close>

theorem plan_order_free_witness:
  "map (work mock_methods []) (the (plan (\<lambda>n ks. ks) mock_methods [] keyed_twice order_sample))
     = map (work mock_methods []) (the (plan other_order mock_methods [] keyed_twice order_sample))
   \<and> same_phases (the (plan (\<lambda>n ks. ks) mock_methods [] [] order_sample)) (the (plan other_order mock_methods [] [] order_sample))"
proof
  have returns: "plan ord mock_methods [] m order_sample = Some (the (plan ord mock_methods [] m order_sample))"
    if "go_order ord" for ord m
    by (rule plan_sections[OF that, of mock_methods "[]" m order_sample]) simp
  note plans = returns[OF go_order_id] returns[OF other_order]
  show "map (work mock_methods []) (the (plan (\<lambda>n ks. ks) mock_methods [] keyed_twice order_sample))
     = map (work mock_methods []) (the (plan other_order mock_methods [] keyed_twice order_sample))"
    using plan_order_free[OF go_order_id other_order plans] by (rule conjunct1)
  have "well_keyed mock_methods [] [] \<and> well_keyed mock_methods [] order_sample"
    by (simp add: well_keyed_def order_sample_def mock_methods_def)
  then show "same_phases (the (plan (\<lambda>n ks. ks) mock_methods [] [] order_sample)) (the (plan other_order mock_methods [] [] order_sample))"
    using plan_order_free[OF go_order_id other_order plans] by blast
qed

end
