(* ===== verification/Actual.thy ===== *)
theory Actual
  imports Handoff Desired
begin

text \<open>
  \<open>internal/spock/refresh.go\<close>: the map of what exists. Every desired resource is refreshed, then the
  catalogs of every node are searched for nodes and slots the configuration does not have, and at
  last each subscription is checked for its slot on the provider. The functions that make objects
  pass the heap and the map on explicitly; their value is None where a call panics.
\<close>

subsection \<open>Queries for rows\<close>

text \<open>
  \<open>conn.Query\<close> and the rows until \<open>rows.Next()\<close> is false; none where the query fails, which
  \<open>refresh.go\<close> only logs, as it does an error at the end of the rows.
\<close>

definition query_rows :: "conn \<Rightarrow> stmt \<Rightarrow> (object, row list) program" where
  "query_rows c q = ask (PoolQuery c q) (\<lambda>s. case s of RRows rows err \<Rightarrow> Return rows | _ \<Rightarrow> Return [])"

definition returned :: "'a outcome \<times> 'h \<times> 'w \<Rightarrow> ('a \<times> 'h \<times> 'w) option" where
  "returned x = (case x of (Returned a, h, w) \<Rightarrow> Some (a, h, w) | _ \<Rightarrow> None)"

text \<open>\<open>actual[id] = &ob\<close>: \<open>emit\<close> with a key that need not be the identifier.\<close>

definition emit_at :: "ident \<Rightarrow> object \<Rightarrow> resources \<Rightarrow> resources" where
  "emit_at i ob s = (case s of (h, m) \<Rightarrow> (h @ [ob], put i (length h) m))"

subsection \<open>Orphan nodes\<close>

definition orphan_config :: "string \<Rightarrow> node" where
  "orphan_config name =
     \<lparr>Name = name, Hostname = '''', InternalHostname = '''', Bootstrap = \<lparr>Mode = '''', SourceNode = ''''\<rparr>\<rparr>"

definition orphan_node :: "config \<Rightarrow> conn \<Rightarrow> node \<Rightarrow> string \<Rightarrow> resources \<Rightarrow> resources" where
  "orphan_node cfg c survivor orphanName s =
     (let orphanCfg = orphan_config orphanName;
          nodeID = mk_id ResourceTypeNode (orphanName @ ''@'' @ Name survivor);
          n = set_status (existing True) (ONode (NewSpockNode orphanCfg (DBName cfg) (PgEdgeUser cfg) c));
          s = emit_at nodeID n s;
          sub = set_status (existing True) (OSub (NewSubscription orphanCfg survivor (DBName cfg) (PgEdgeUser cfg) False c []))
      in emit_at (Identifier sub) sub s)"

text \<open>The row's \<open>Scan\<close>, whose error skips the row, and the rest of the loop's body.\<close>

definition orphan_node_row :: "config \<Rightarrow> conn \<Rightarrow> node \<Rightarrow> row \<Rightarrow> resources \<Rightarrow> resources" where
  "orphan_node_row cfg c survivor rw s = (case rw of RowText name \<Rightarrow> orphan_node cfg c survivor name s | _ \<Rightarrow> s)"

definition discoverOrphanNodes :: "('w, request, reply) env \<Rightarrow> config \<Rightarrow> conn \<Rightarrow> node \<Rightarrow> string list
    \<Rightarrow> resources \<Rightarrow> 'w \<Rightarrow> (resources \<times> 'w) option" where
  "discoverOrphanNodes env cfg c survivor configNames s w = do {
     (rows, h, w) \<leftarrow> returned (run env False (query_rows c (OrphanNodes configNames)) (fst s) w);
     Some (fold (orphan_node_row cfg c survivor) rows (h, snd s), w)
   }"

subsection \<open>Orphan slots\<close>

definition expected_slots :: "config \<Rightarrow> (string, bool) gomap" where
  "expected_slots cfg = fold (\<lambda>src. fold (\<lambda>dst m.
       if Name src = Name dst then m
       else put (slotName (NewReplicationSlot (Name src) (Name dst) (DBName cfg) None)) True m)
     (Nodes cfg)) (Nodes cfg) []"

definition orphan_slot :: "config \<Rightarrow> conn \<Rightarrow> node \<Rightarrow> (string, bool) gomap \<Rightarrow> string \<Rightarrow> resources \<Rightarrow> resources" where
  "orphan_slot cfg c survivor expectedSlots slot s =
     (let slotID = mk_id ResourceTypeReplicationSlot slot in
      if get_or False expectedSlots slot then s
      else if \<not> has_key (snd s) slotID then
        emit_at slotID (OSlot \<lparr>sl_providerName = Name survivor, sl_subscriberName = '''', sl_dbName = DBName cfg,
          sl_nameOverride = slot, sl_conn = c, sl_status = existing True\<rparr>) s
      else s)"

definition orphan_slot_row :: "config \<Rightarrow> conn \<Rightarrow> node \<Rightarrow> (string, bool) gomap \<Rightarrow> row \<Rightarrow> resources \<Rightarrow> resources" where
  "orphan_slot_row cfg c survivor expectedSlots rw s =
     (case rw of RowText slot \<Rightarrow> orphan_slot cfg c survivor expectedSlots slot s | _ \<Rightarrow> s)"

definition discoverOrphanSlots :: "('w, request, reply) env \<Rightarrow> config \<Rightarrow> conn \<Rightarrow> node \<Rightarrow> (string, bool) gomap
    \<Rightarrow> resources \<Rightarrow> 'w \<Rightarrow> (resources \<times> 'w) option" where
  "discoverOrphanSlots env cfg c survivor expectedSlots s w = do {
     (rows, h, w) \<leftarrow> returned (run env False (query_rows c SpockSlots) (fst s) w);
     Some (fold (orphan_slot_row cfg c survivor expectedSlots) rows (h, snd s), w)
   }"

fun discover_each :: "('w, request, reply) env \<Rightarrow> config \<Rightarrow> conns \<Rightarrow> node list \<Rightarrow> resources \<Rightarrow> 'w
    \<Rightarrow> (resources \<times> 'w) option" where
  "discover_each env cfg conns [] s w = Some (s, w)"
| "discover_each env cfg conns (n # ns) s w = do {
     (s, w) \<leftarrow> discoverOrphanNodes env cfg (conn_of conns (Name n)) n (map Name (Nodes cfg)) s w;
     (s, w) \<leftarrow> discoverOrphanSlots env cfg (conn_of conns (Name n)) n (expected_slots cfg) s w;
     discover_each env cfg conns ns s w
   }"

definition discoverOrphans :: "('w, request, reply) env \<Rightarrow> config \<Rightarrow> conns \<Rightarrow> resources \<Rightarrow> 'w
    \<Rightarrow> (resources \<times> 'w) option" where
  "discoverOrphans env cfg conns s w = discover_each env cfg conns (Nodes cfg) s w"

subsection \<open>Slot health\<close>

definition slot_missing :: status where
  "slot_missing = zero_status\<lparr>Exists := True, NeedsRecreate := True, Reason := ''provider-side replication slot missing''\<rparr>"

definition slot_health :: "ref resource_map \<Rightarrow> ident \<Rightarrow> heap \<Rightarrow> heap" where
  "slot_health actual i h =
     (let r = at_key actual i in
      if Type i \<noteq> ResourceTypeSubscription then h
      else case h ! r of
          OSub s \<Rightarrow> if has_key actual (mk_id ResourceTypeReplicationSlot (replicationSlotName s)) then h
                    else h[r := set_status slot_missing (h ! r)]
        | _ \<Rightarrow> h)"

definition checkSlotHealth :: "(ident list \<Rightarrow> ident list) \<Rightarrow> ref resource_map \<Rightarrow> heap \<Rightarrow> heap" where
  "checkSlotHealth ord actual h = fold (slot_health actual) (ord (keys actual)) h"

subsection \<open>RefreshActual\<close>

fun refresh_desired :: "('w, request, reply) env \<Rightarrow> ref resource_map \<Rightarrow> ident list \<Rightarrow> ref resource_map \<Rightarrow> heap \<Rightarrow> 'w
    \<Rightarrow> ((goerror + ref resource_map) \<times> heap \<times> 'w) option" where
  "refresh_desired env desired [] actual h w = Some (Inr actual, h, w)"
| "refresh_desired env desired (i # is) actual h w = do {
     let r = at_key desired i;
     (err, h, w) \<leftarrow> returned (run env False (Refresh r) h w);
     case err of
       Some e \<Rightarrow> Some (Inl (Wrapf (''refresh '' @ Type i @ ''/'' @ ID i) e), h, w)
     | None \<Rightarrow> refresh_desired env desired is (if Exists (Status (h ! r)) then put i r actual else actual) h w
   }"

text \<open>\<open>ord 0\<close> is the order of the loop over \<open>desired\<close>, \<open>ord 1\<close> that of \<open>checkSlotHealth\<close>.\<close>

definition RefreshActual :: "ident order \<Rightarrow> ('w, request, reply) env \<Rightarrow> config \<Rightarrow> conns \<Rightarrow> ref resource_map \<Rightarrow> heap \<Rightarrow> 'w
    \<Rightarrow> ((goerror + ref resource_map) \<times> heap \<times> 'w) option" where
  "RefreshActual ord env cfg conns desired h w = do {
     (res, h, w) \<leftarrow> refresh_desired env desired (ord 0 (keys desired)) [] h w;
     case res of
       Inl e \<Rightarrow> Some (Inl e, h, w)
     | Inr actual \<Rightarrow> do {
         (s, w) \<leftarrow> discoverOrphans env cfg conns (h, actual) w;
         Some (Inr (snd s), checkSlotHealth (ord 1) (snd s) (fst s), w)
       }
   }"

subsection \<open>What Refresh reports\<close>

text \<open>
  The status a \<open>Refresh\<close> without an error leaves, by its calls and their replies: what the catalog
  says of the resource, and never that it needs to be recreated.
\<close>

abbreviation asked :: "conn \<Rightarrow> stmt \<Rightarrow> bool \<Rightarrow> request \<times> reply" where
  "asked c q b \<equiv> (PoolQueryRow c q, RBool b)"

primrec reported :: "object \<Rightarrow> (request \<times> reply) list \<Rightarrow> status \<Rightarrow> bool" where
  "reported (OUser u) qs st \<longleftrightarrow> (\<exists>b. qs = [asked (pu_conn u) (RoleExists (pu_pgedgeUser u)) b] \<and> st = existing b)"
| "reported (ONode n) qs st \<longleftrightarrow> (\<exists>b. qs = [asked (sn_conn n) (LocalNodeExists (Name (sn_node n))) b] \<and> st = existing b)"
| "reported (OSlot s) qs st \<longleftrightarrow> (\<exists>b. qs = [asked (sl_conn s) (SlotExists (slotName s)) b] \<and> st = existing b)"
| "reported (OSub s) qs st \<longleftrightarrow>
     qs = [asked (su_conn s) (SubExists (subName s)) False] \<and> st = existing False \<or>
     (\<exists>b. qs = [asked (su_conn s) (SubExists (subName s)) True, asked (su_conn s) (SubEnabled (subName s)) b] \<and>
        st = (if b then existing True
              else zero_status\<lparr>Exists := True, NeedsUpdate := True, Reason := ''subscription is disabled''\<rparr>))"
| "reported (OSlotCreate r) qs st \<longleftrightarrow> qs = [] \<and> st = existing False"
| "reported (OSyncEvent r) qs st \<longleftrightarrow> qs = [] \<and> st = existing False"
| "reported (OWait r) qs st \<longleftrightarrow> qs = [] \<and> st = existing False"
| "reported (OLag r) qs st \<longleftrightarrow> qs = [] \<and> st = existing False"
| "reported (OSlotAdvance r) qs st \<longleftrightarrow> qs = [] \<and> st = existing False"
| "reported (ODisabled r) qs st \<longleftrightarrow> qs = [] \<and> st = existing False"
| "reported (OOriginAdvance r) qs st \<longleftrightarrow> qs = [] \<and> st = existing False"
| "reported (OCatchup r) qs st \<longleftrightarrow> qs = [] \<and> st = existing False"

text \<open>The replies are ones the environment gave.\<close>

definition answers :: "('w, request, reply) env \<Rightarrow> (request \<times> reply) list \<Rightarrow> bool" where
  "answers env qs \<longleftrightarrow> list_all (\<lambda>(q, s). \<exists>w. fst (env False q w) = s) qs"

lemma trace_answers: "answers env (trace env False p h w)"
  unfolding answers_def
proof (induction p arbitrary: h w rule: prog_induct)
  case (Call q k)
  obtain s w' where e: "env False q w = (s, w')" by fastforce
  then have "\<exists>w. fst (env False q w) = s" by (metis fst_conv)
  with e Call show ?case by simp
qed auto

lemma reported_no_recreate: "reported ob qs st \<Longrightarrow> \<not> NeedsRecreate st"
  by (cases ob) (auto simp: existing_def split: if_splits)

lemma refresh_outcomes:
  "outcomes (refresh_of r ob) h (\<lambda>qs res h'. case res of
       Some e \<Rightarrow> h' = h
     | None \<Rightarrow> \<exists>st. h' = h[r := set_status st (h ! r)] \<and> reported ob qs st)"
  by (cases ob; simp only: refresh_of.simps end_state_refresh_defs ephemeral_Refresh_def;
      intro outcome_intros; auto)

lemma run_Refresh:
  assumes "run env c (Refresh r) h w = (Returned res, h', w')"
  shows "r < length h" and "case res of Some e \<Rightarrow> h' = h
    | None \<Rightarrow> \<exists>st. h' = h[r := set_status st (h ! r)] \<and> reported (h ! r) (trace env c (Refresh r) h w) st"
proof -
  show r: "r < length h" using assms by (simp add: Refresh_def split: if_splits)
  with assms have "run env c (refresh_of r (h ! r)) h w = (Returned res, h', w')" by (simp add: Refresh_def)
  note run = this
  have trace: "trace env c (Refresh r) h w = trace env c (refresh_of r (h ! r)) h w"
    using r by (simp add: Refresh_def)
  show "case res of Some e \<Rightarrow> h' = h
    | None \<Rightarrow> \<exists>st. h' = h[r := set_status st (h ! r)] \<and> reported (h ! r) (trace env c (Refresh r) h w) st"
    unfolding trace by (rule outcomes_run[OF refresh_outcomes run])
qed

subsection \<open>The loop over the desired resources\<close>

lemma returned_Some: "returned x = Some (a, h, w) \<longleftrightarrow> x = (Returned a, h, w)"
  by (auto simp: returned_def split: prod.splits outcome.splits)

definition same_but_status :: "object \<Rightarrow> object \<Rightarrow> bool" where
  "same_but_status a b \<longleftrightarrow> a = b \<or> (\<exists>st. b = set_status st a)"

lemma set_status_twice [simp]: "set_status s (set_status t ob) = set_status s ob"
  by (cases ob) simp_all

lemma same_but_status_refl [simp]: "same_but_status a a"
  by (simp add: same_but_status_def)

lemma same_but_status_set [simp]: "same_but_status a (set_status st a)"
  by (auto simp: same_but_status_def)

lemma same_but_status_trans: "same_but_status a b \<Longrightarrow> same_but_status b c \<Longrightarrow> same_but_status a c"
  by (auto simp: same_but_status_def)

lemma same_but_status_identity: "same_but_status a b \<Longrightarrow> same_identity a b"
  by (auto simp: same_but_status_def, simp add: same_identity_def)

text \<open>
  After the loop every object of the list has a status that \<open>Refresh\<close> reported, the others are
  untouched, and the map has exactly those that exist.
\<close>

lemma refresh_desired_spec:
  assumes "refresh_desired env desired is actual h w = Some (Inr actual', h', w')"
    and "distinct is" and "inj_on (at_key desired) (set is)"
  shows "length h' = length h \<and> (\<forall>r. r \<notin> at_key desired ` set is \<longrightarrow> h' ! r = h ! r) \<and>
    (\<forall>i\<in>set is. at_key desired i < length h \<and>
      (\<exists>qs st. answers env qs \<and> reported (h ! at_key desired i) qs st \<and>
        h' ! at_key desired i = set_status st (h ! at_key desired i))) \<and>
    map_of actual' = (\<lambda>i. if i \<in> set is \<and> Exists (Status (h' ! at_key desired i)) then Some (at_key desired i)
      else map_of actual i)"
  using assms
proof (induction "is" arbitrary: actual h w)
  case (Cons j js)
  let ?r = "at_key desired j"
  have fresh: "at_key desired i \<noteq> ?r" if "i \<in> set js" for i
    using Cons.prems(2,3) that by (auto simp: inj_on_def)
  obtain h1 w1 where run: "run env False (Refresh ?r) h w = (Returned None, h1, w1)"
    and rest: "refresh_desired env desired js (if Exists (Status (h1 ! ?r)) then put j ?r actual else actual) h1 w1
      = Some (Inr actual', h', w')"
    using Cons.prems(1) by (auto simp: Let_def bind_eq_Some_conv returned_Some split: option.splits)
  from run_Refresh[OF run] obtain st where st: "?r < length h" "h1 = h[?r := set_status st (h ! ?r)]"
    "reported (h ! ?r) (trace env False (Refresh ?r) h w) st" by auto
  note st' = trace_answers[of env "Refresh ?r" h w]
  have "distinct js" "inj_on (at_key desired) (set js)" using Cons.prems by (auto simp: inj_on_def)
  note IH = Cons.IH[OF rest this]
  have "?r \<notin> at_key desired ` set js" using fresh by (metis imageE)
  with IH have "h' ! ?r = h1 ! ?r" by blast
  with st(1,2) have r: "h' ! ?r = set_status st (h ! ?r)" "h1 ! ?r = set_status st (h ! ?r)" by simp_all
  show ?case
  proof (intro conjI)
    show "length h' = length h" using IH st(2) by simp
    show "\<forall>r. r \<notin> at_key desired ` set (j # js) \<longrightarrow> h' ! r = h ! r" using IH st(2) by auto
    show "\<forall>i\<in>set (j # js). at_key desired i < length h \<and> (\<exists>qs st. answers env qs \<and> reported (h ! at_key desired i) qs st \<and>
        h' ! at_key desired i = set_status st (h ! at_key desired i))"
    proof
      fix i
      assume i: "i \<in> set (j # js)"
      show "at_key desired i < length h \<and> (\<exists>qs st. answers env qs \<and> reported (h ! at_key desired i) qs st \<and>
        h' ! at_key desired i = set_status st (h ! at_key desired i))"
      proof (cases "i = j")
        case True
        then show ?thesis using st(1,3) st' r(1) by blast
      next
        case False
        with i have i: "i \<in> set js" by simp
        from fresh[OF this] st(2) have same: "h1 ! at_key desired i = h ! at_key desired i" "length h1 = length h"
          by simp_all
        from IH i have "at_key desired i < length h1 \<and> (\<exists>qs st. answers env qs \<and> reported (h1 ! at_key desired i) qs st \<and>
          h' ! at_key desired i = set_status st (h1 ! at_key desired i))" by blast
        then show ?thesis unfolding same .
      qed
    qed
    show "map_of actual' = (\<lambda>i. if i \<in> set (j # js) \<and> Exists (Status (h' ! at_key desired i))
        then Some (at_key desired i) else map_of actual i)"
      using IH r Cons.prems(2) by (auto simp: fun_eq_iff)
  qed
qed simp

subsection \<open>What discovery adds\<close>

text \<open>
  From \<open>s\<close> to \<open>s'\<close> objects have been added at the end of the heap and keys \<open>K\<close> to the map; a key
  leads where it did, or to a new object.
\<close>

definition grows :: "ident set \<Rightarrow> resources \<Rightarrow> resources \<Rightarrow> bool" where
  "grows K s s' \<longleftrightarrow> (\<exists>obs. fst s' = fst s @ obs) \<and> fst ` set (snd s') = fst ` set (snd s) \<union> K \<and>
     (\<forall>i. map_of (snd s') i = map_of (snd s) i \<or>
        i \<in> K \<and> (\<exists>r. length (fst s) \<le> r \<and> map_of (snd s') i = Some r))"

lemma grows_refl: "grows {} s s"
  by (simp add: grows_def)

lemma grows_trans:
  assumes "grows K s s'" and "grows L s' s''"
  shows "grows (K \<union> L) s s''"
proof -
  from assms obtain xs where "fst s' = fst s @ xs" by (auto simp: grows_def)
  then have le: "length (fst s) \<le> length (fst s')" by simp
  have "map_of (snd s'') i = map_of (snd s) i \<or>
      i \<in> K \<union> L \<and> (\<exists>r. length (fst s) \<le> r \<and> map_of (snd s'') i = Some r)" for i
  proof -
    from assms(1) have "map_of (snd s') i = map_of (snd s) i \<or>
      i \<in> K \<and> (\<exists>r. length (fst s) \<le> r \<and> map_of (snd s') i = Some r)" by (simp add: grows_def)
    moreover from assms(2) have "map_of (snd s'') i = map_of (snd s') i \<or>
      i \<in> L \<and> (\<exists>r. length (fst s') \<le> r \<and> map_of (snd s'') i = Some r)" by (simp add: grows_def)
    ultimately show ?thesis using le by (auto intro: le_trans)
  qed
  with assms show ?thesis by (auto simp: grows_def)
qed

lemma grows_emit_at: "grows {i} s (emit_at i ob s)"
  by (cases s) (auto simp: grows_def emit_at_def)

lemma grows_keep: "i \<in> fst ` set (snd s) \<Longrightarrow> grows {i} s s"
  by (auto simp: grows_def)

definition orphan_node_ids :: "node \<Rightarrow> string \<Rightarrow> ident set" where
  "orphan_node_ids survivor x =
     {mk_id ResourceTypeNode (x @ ''@'' @ Name survivor), mk_id ResourceTypeSubscription (spock_sub_name x (Name survivor))}"

lemma grows_orphan_node: "grows (orphan_node_ids survivor x) s (orphan_node cfg c survivor x s)"
proof -
  have "grows ({mk_id ResourceTypeNode (x @ ''@'' @ Name survivor)} \<union>
      {mk_id ResourceTypeSubscription (spock_sub_name x (Name survivor))}) s (orphan_node cfg c survivor x s)"
    unfolding orphan_node_def Let_def
    by (rule grows_trans[OF grows_emit_at])
      (use grows_emit_at[of "mk_id ResourceTypeSubscription (spock_sub_name x (Name survivor))"] in
        \<open>simp add: subName_def NewSubscription_def orphan_config_def\<close>)
  then show ?thesis by (simp add: orphan_node_ids_def insert_commute)
qed

text \<open>The texts of the rows whose \<open>Scan\<close> succeeds.\<close>

fun row_texts :: "row list \<Rightarrow> string list" where
  "row_texts [] = []"
| "row_texts (RowText t # rs) = t # row_texts rs"
| "row_texts (_ # rs) = row_texts rs"

lemma grows_orphan_nodes:
  "grows (\<Union>x\<in>set (row_texts rows). orphan_node_ids survivor x) s (fold (orphan_node_row cfg c survivor) rows s)"
proof (induction rows arbitrary: s)
  case (Cons r rows)
  then show ?case
    using grows_trans[OF grows_orphan_node Cons.IH] by (cases r) (simp_all add: orphan_node_row_def)
qed (simp add: grows_refl)

definition orphan_slot_ids :: "config \<Rightarrow> string \<Rightarrow> ident set" where
  "orphan_slot_ids cfg slot =
     (if get_or False (expected_slots cfg) slot then {} else {mk_id ResourceTypeReplicationSlot slot})"

lemma grows_orphan_slots:
  "grows (\<Union>x\<in>set (row_texts rows). orphan_slot_ids cfg x) s
     (fold (orphan_slot_row cfg c survivor (expected_slots cfg)) rows s)"
proof (induction rows arbitrary: s)
  case (Cons r rows)
  show ?case
  proof (cases r)
    case (RowText slot)
    have "grows (orphan_slot_ids cfg slot) s (orphan_slot cfg c survivor (expected_slots cfg) slot s)"
      using grows_refl grows_emit_at grows_keep[of _ s]
      by (auto simp: orphan_slot_def orphan_slot_ids_def Let_def intro!: grows_keep map_of_in_keys)
    from grows_trans[OF this Cons.IH] RowText show ?thesis by (simp add: orphan_slot_row_def)
  qed (use Cons.IH in \<open>simp_all add: orphan_slot_row_def\<close>)
qed (simp add: grows_refl)

text \<open>
  The catalogs, as long as they do not change during the discovery: the rows each pool gives for the
  two queries.
\<close>

definition catalogs :: "('w, request, reply) env \<Rightarrow> string list \<Rightarrow> (conn \<Rightarrow> row list) \<Rightarrow> (conn \<Rightarrow> row list) \<Rightarrow> bool" where
  "catalogs env names orphans slots \<longleftrightarrow> (\<forall>c w.
     (\<exists>err. fst (env False (PoolQuery c (OrphanNodes names)) w) = RRows (orphans c) err) \<and>
     (\<exists>err. fst (env False (PoolQuery c SpockSlots) w) = RRows (slots c) err))"

definition orphan_ids :: "config \<Rightarrow> conns \<Rightarrow> (conn \<Rightarrow> row list) \<Rightarrow> (conn \<Rightarrow> row list) \<Rightarrow> node \<Rightarrow> ident set" where
  "orphan_ids cfg conns orphans slots n =
     (\<Union>x\<in>set (row_texts (orphans (conn_of conns (Name n)))). orphan_node_ids n x) \<union>
     (\<Union>x\<in>set (row_texts (slots (conn_of conns (Name n)))). orphan_slot_ids cfg x)"

lemma run_query_rows:
  assumes "\<And>w. \<exists>err. fst (env False (PoolQuery c q) w) = RRows rows err"
    and "run env False (query_rows c q) h w = (Returned rs, h', w')"
  shows "rs = rows \<and> h' = h"
  using assms(1)[of w] assms(2) by (auto simp: query_rows_def ask_def split: prod.splits)

lemma discovered_rows:
  assumes "\<And>w. \<exists>err. fst (env False (PoolQuery c q) w) = RRows rows err"
    and "do { (rs, h, w) \<leftarrow> returned (run env False (query_rows c q) (fst s) w); Some (fold f rs (h, snd s), w) } = Some (s', w')"
  shows "s' = fold f rows s"
proof -
  from assms(2) obtain rs h where run: "run env False (query_rows c q) (fst s) w = (Returned rs, h, w')"
    and s': "s' = fold f rs (h, snd s)" by (auto simp: bind_eq_Some_conv returned_Some)
  from run_query_rows[OF assms(1) run] s' show ?thesis by simp
qed

lemma discover_each_grows:
  assumes "catalogs env (map Name (Nodes cfg)) orphans slots"
    and "discover_each env cfg conns ns s w = Some (s', w')"
  shows "grows (\<Union>n\<in>set ns. orphan_ids cfg conns orphans slots n) s s'"
  using assms(2)
proof (induction ns arbitrary: s w)
  case (Cons n ns)
  let ?c = "conn_of conns (Name n)"
  from Cons.prems obtain s1 w1 s2 w2 where
    nodes: "discoverOrphanNodes env cfg ?c n (map Name (Nodes cfg)) s w = Some (s1, w1)" and
    slots: "discoverOrphanSlots env cfg ?c n (expected_slots cfg) s1 w1 = Some (s2, w2)" and
    rest: "discover_each env cfg conns ns s2 w2 = Some (s', w')"
    by (auto simp: bind_eq_Some_conv)
  have "s1 = fold (orphan_node_row cfg ?c n) (orphans ?c) s"
    by (rule discovered_rows[OF _ nodes[unfolded discoverOrphanNodes_def]]) (use assms(1) in \<open>simp add: catalogs_def\<close>)
  moreover have "s2 = fold (orphan_slot_row cfg ?c n (expected_slots cfg)) (slots ?c) s1"
    by (rule discovered_rows[OF _ slots[unfolded discoverOrphanSlots_def]]) (use assms(1) in \<open>simp add: catalogs_def\<close>)
  ultimately have "grows (orphan_ids cfg conns orphans slots n) s s2"
    using grows_trans[OF grows_orphan_nodes grows_orphan_slots] by (simp add: orphan_ids_def)
  from grows_trans[OF this Cons.IH[OF rest]] show ?case by simp
qed (simp add: grows_refl)

lemma discover_each_grows_some:
  "discover_each env cfg conns ns s w = Some (s', w') \<Longrightarrow> \<exists>K. grows K s s'"
proof (induction ns arbitrary: s w)
  case (Cons n ns)
  let ?c = "conn_of conns (Name n)"
  from Cons.prems obtain s1 w1 s2 w2 where
    nodes: "discoverOrphanNodes env cfg ?c n (map Name (Nodes cfg)) s w = Some (s1, w1)" and
    slots: "discoverOrphanSlots env cfg ?c n (expected_slots cfg) s1 w1 = Some (s2, w2)" and
    rest: "discover_each env cfg conns ns s2 w2 = Some (s', w')"
    by (auto simp: bind_eq_Some_conv)
  have heap: "h' = h" if "run env False (query_rows c q) h w = (Returned rs, h', w')" for c q h w rs h' w'
    using that by (auto simp: query_rows_def ask_def split: prod.splits reply.splits)
  from nodes obtain rows where "s1 = fold (orphan_node_row cfg ?c n) rows s"
    unfolding discoverOrphanNodes_def by (auto simp: bind_eq_Some_conv returned_Some dest: heap)
  moreover from slots obtain rows' where "s2 = fold (orphan_slot_row cfg ?c n (expected_slots cfg)) rows' s1"
    unfolding discoverOrphanSlots_def by (auto simp: bind_eq_Some_conv returned_Some dest: heap)
  ultimately obtain K where "grows K s s2" using grows_trans[OF grows_orphan_nodes grows_orphan_slots] by blast
  with Cons.IH[OF rest] show ?case using grows_trans by blast
qed (auto intro: grows_refl)

subsection \<open>What the slot check changes\<close>

definition broken :: "ref resource_map \<Rightarrow> ident \<Rightarrow> object \<Rightarrow> bool" where
  "broken actual i ob \<longleftrightarrow> Type i = ResourceTypeSubscription \<and>
     (case ob of OSub s \<Rightarrow> \<not> has_key actual (mk_id ResourceTypeReplicationSlot (replicationSlotName s)) | _ \<Rightarrow> False)"

lemma broken_set_status [simp]: "broken actual i (set_status st ob) = broken actual i ob"
  by (cases ob) (simp_all add: broken_def replicationSlotName_def)

lemma slot_health_alt:
  "slot_health actual i h =
     (if broken actual i (h ! at_key actual i)
      then h[at_key actual i := set_status slot_missing (h ! at_key actual i)] else h)"
  by (auto simp: slot_health_def broken_def Let_def split: object.split)

lemma slot_health_nth:
  "r < length h \<Longrightarrow> slot_health actual i h ! r =
     (if at_key actual i = r \<and> broken actual i (h ! r) then set_status slot_missing (h ! r) else h ! r)"
  unfolding slot_health_alt by (cases "at_key actual i = r") simp_all

lemma length_slot_health [simp]: "length (slot_health actual i h) = length h"
  by (simp add: slot_health_alt)

lemma length_fold_slot_health [simp]: "length (fold (slot_health actual) is h) = length h"
  by (induction "is" arbitrary: h) simp_all

lemma fold_slot_health:
  "r < length h \<Longrightarrow> fold (slot_health actual) is h ! r =
     (if \<exists>i\<in>set is. at_key actual i = r \<and> broken actual i (h ! r) then set_status slot_missing (h ! r) else h ! r)"
  by (induction "is" arbitrary: h) (auto simp: slot_health_nth)

lemma checkSlotHealth_nth:
  assumes "\<And>ks. set (ord ks) = set ks" and "r < length h"
  shows "checkSlotHealth ord actual h ! r =
    (if \<exists>i\<in>set (keys actual). at_key actual i = r \<and> broken actual i (h ! r) then set_status slot_missing (h ! r) else h ! r)"
  unfolding checkSlotHealth_def fold_slot_health[OF assms(2)] assms(1) ..

lemma checkSlotHealth_length: "length (checkSlotHealth ord actual h) = length h"
  by (simp add: checkSlotHealth_def)

subsection \<open>RefreshActual as a whole\<close>

lemma well_keyed_inj: "well_keyed vt h m \<Longrightarrow> inj_on (at_key m) (fst ` set m)"
  by (rule inj_onI) (metis well_keyed_at)

lemma refresh_actual_parts:
  assumes run: "RefreshActual ord env cfg conns m h w = Some (Inr actual, h', w')"
    and keyed: "well_keyed (spock_methods fuel) h m" and ord: "go_order ord"
  obtains h1 actual1 w1 obs where
    "length h1 = length h" "\<And>r. r \<notin> at_key m ` fst ` set m \<Longrightarrow> h1 ! r = h ! r"
    "\<And>i. i \<in> fst ` set m \<Longrightarrow> at_key m i < length h \<and>
       (\<exists>qs st. answers env qs \<and> reported (h ! at_key m i) qs st \<and> h1 ! at_key m i = set_status st (h ! at_key m i))"
    "\<And>i. map_of actual1 i = (if i \<in> fst ` set m \<and> Exists (Status (h1 ! at_key m i)) then Some (at_key m i) else None)"
    "discover_each env cfg conns (Nodes cfg) (h1, actual1) w1 = Some ((h1 @ obs, actual), w')"
    "h' = checkSlotHealth (ord 1) actual (h1 @ obs)"
proof -
  from run obtain res h1 w1 where
    refreshed: "refresh_desired env m (ord 0 (keys m)) [] h w = Some (res, h1, w1)"
    unfolding RefreshActual_def by (auto simp: bind_eq_Some_conv)
  with run obtain actual1 where res: "res = Inr actual1"
    by (cases res) (auto simp: RefreshActual_def)
  note first = refreshed[unfolded res]
  from run first obtain s where
    disc: "discoverOrphans env cfg conns (h1, actual1) w1 = Some (s, w')" and
    s: "actual = snd s" "h' = checkSlotHealth (ord 1) (snd s) (fst s)"
    by (auto simp: RefreshActual_def bind_eq_Some_conv)
  have keys: "set (ord 0 (keys m)) = fst ` set m" "distinct (ord 0 (keys m))"
    using go_order_set[OF ord] go_order_distinct[OF ord] keyed by (simp_all add: well_keyed_def)
  from discover_each_grows_some[OF disc[unfolded discoverOrphans_def]] obtain obs where "fst s = h1 @ obs"
    by (auto simp: grows_def)
  with s disc have "discover_each env cfg conns (Nodes cfg) (h1, actual1) w1 = Some ((h1 @ obs, actual), w')"
    "h' = checkSlotHealth (ord 1) actual (h1 @ obs)"
    by (simp_all add: discoverOrphans_def) (metis prod.collapse)
  with refresh_desired_spec[OF first keys(2)] well_keyed_inj[OF keyed] show ?thesis
    unfolding keys(1) by (intro that[of h1 actual1 w1 obs]) auto
qed

lemma actual_keys:
  assumes "RefreshActual ord env cfg conns m h w = Some (Inr actual, h', w')"
    and "well_keyed (spock_methods fuel) h m" and "go_order ord"
    and "catalogs env (map Name (Nodes cfg)) orphans slots"
  shows "set (keys actual) = {i \<in> set (keys m). Exists (Status (h' ! at_key m i))}
    \<union> (\<Union>n\<in>set (Nodes cfg). orphan_ids cfg conns orphans slots n)"
proof (rule refresh_actual_parts[OF assms(1-3)])
  fix h1 actual1 w1 obs
  assume h1: "length h1 = length h"
    and at: "\<And>i. i \<in> fst ` set m \<Longrightarrow> at_key m i < length h \<and>
       (\<exists>qs st. answers env qs \<and> reported (h ! at_key m i) qs st \<and> h1 ! at_key m i = set_status st (h ! at_key m i))"
    and m1: "\<And>i. map_of actual1 i = (if i \<in> fst ` set m \<and> Exists (Status (h1 ! at_key m i)) then Some (at_key m i) else None)"
    and disc: "discover_each env cfg conns (Nodes cfg) (h1, actual1) w1 = Some ((h1 @ obs, actual), w')"
    and h': "h' = checkSlotHealth (ord 1) actual (h1 @ obs)"
  note grows = discover_each_grows[OF assms(4) disc]
  have lookup: "map_of actual i = map_of actual1 i \<or> (\<exists>r\<ge>length h1. map_of actual i = Some r)" for i
    using grows by (auto simp: grows_def)
  have status: "Exists (Status (h' ! at_key m i)) = Exists (Status (h1 ! at_key m i))" if i: "i \<in> fst ` set m" for i
  proof -
    let ?r = "at_key m i"
    have r: "?r < length (h1 @ obs)" "(h1 @ obs) ! ?r = h1 ! ?r" using at[OF i] h1 by (simp_all add: nth_append)
    have "Exists (Status (h1 ! ?r))" if "j \<in> set (keys actual)" "at_key actual j = ?r" for j
    proof -
      from keys_lookup[of j actual] that have "map_of actual j = Some ?r" by auto
      with lookup[of j] at[OF i] h1 have "map_of actual1 j = Some ?r" by auto
      then show ?thesis by (auto simp: m1 split: if_splits)
    qed
    with checkSlotHealth_nth[OF go_order_set[OF assms(3)] r(1)] r(2) h' show ?thesis
      by (auto simp: slot_missing_def)
  qed
  have "set (keys actual1) = {i \<in> fst ` set m. Exists (Status (h1 ! at_key m i))}"
    unfolding set_eq_iff has_key_iff[symmetric] using m1 by (simp del: set_map)
  with grows status show ?thesis by (auto simp: grows_def)
qed

subsection \<open>It returns\<close>

lemma panic_free_refresh_of: "r < n \<Longrightarrow> panic_free n (refresh_of r ob)"
  by (cases ob; simp only: refresh_of.simps end_state_refresh_defs ephemeral_Refresh_def;
      intro panic_free_intros; simp)

text \<open>The statements of the \<open>Refresh\<close> methods, and an environment that answers them all.\<close>

fun inspects :: "stmt \<Rightarrow> bool" where
  "inspects (RoleExists u) \<longleftrightarrow> True"
| "inspects (LocalNodeExists n) \<longleftrightarrow> True"
| "inspects (SlotExists s) \<longleftrightarrow> True"
| "inspects (SubExists s) \<longleftrightarrow> True"
| "inspects (SubEnabled s) \<longleftrightarrow> True"
| "inspects q \<longleftrightarrow> False"

definition inspectable :: "('w, request, reply) env \<Rightarrow> bool" where
  "inspectable env \<longleftrightarrow> (\<forall>k q w. inspects q \<longrightarrow> (\<exists>b. fst (env False (PoolQueryRow k q) w) = RBool b))"

lemma inspectableI: "(\<And>k q w. \<exists>b. fst (env False (PoolQueryRow k q) w) = RBool b) \<Longrightarrow> inspectable env"
  by (simp add: inspectable_def)

lemma answered_refresh:
  assumes "inspectable env" and "r < length h"
  shows "\<exists>h' w'. run env False (Refresh r) h w = (Returned None, h', w')"
proof -
  from assms(1) obtain b where b: "\<And>k q w. inspects q \<Longrightarrow> fst (env False (PoolQueryRow k q) w) = RBool (b k q w)"
    unfolding inspectable_def by metis
  have ask: "inspects q \<Longrightarrow> run env False (query_bool (PoolQueryRow k q) msg f) h w =
      run env False (f (b k q w)) h (snd (env False (PoolQueryRow k q) w))" for k q msg w and f :: "bool \<Rightarrow> object_op"
    using b[of q k w] by (cases "env False (PoolQueryRow k q) w") (simp add: query_bool_def ask_def scanned_def scan_bool_def)
  show ?thesis
    using assms(2)
    by (cases "h ! r") (simp_all add: Refresh_def end_state_refresh_defs ephemeral_Refresh_def ask)
qed

lemma refresh_desired_runs:
  assumes "\<forall>q w. fst (env False q w) \<noteq> RPanic" and "\<forall>i\<in>set ks. at_key m i < length h"
  shows "\<exists>res h' w'. refresh_desired env m ks actual h w = Some (res, h', w') \<and>
    (case res of Inl err \<Rightarrow> \<exists>i e. i \<in> set ks \<and> err = Wrapf (''refresh '' @ Type i @ ''/'' @ ID i) e | Inr _ \<Rightarrow> True) \<and>
    (inspectable env \<longrightarrow> \<not> isl res)"
  using assms(2)
proof (induction ks arbitrary: actual h w)
  case (Cons i js)
  let ?r = "at_key m i"
  have r: "?r < length h" using Cons.prems by simp
  then have "panic_free (length h) (Refresh ?r)" by (simp add: Refresh_def panic_free_refresh_of)
  from run_panic_free[OF this, of env False w] assms(1) obtain res h1 w1 where
    run: "run env False (Refresh ?r) h w = (Returned res, h1, w1)" by blast
  show ?case
  proof (cases res)
    case None
    from run_Refresh(2)[OF run] None have "length h1 = length h" by auto
    then have "\<forall>i\<in>set js. at_key m i < length h1" using Cons.prems by simp
    from Cons.IH[OF this, of "if Exists (Status (h1 ! ?r)) then put i ?r actual else actual" w1] run None show ?thesis
      by (fastforce simp: returned_def split: sum.split_asm)
  next
    case (Some e)
    have "\<not> inspectable env"
    proof
      assume "inspectable env"
      then have "\<exists>h' w'. run env False (Refresh ?r) h w = (Returned None, h', w')"
        by (intro answered_refresh r) simp
      with run Some show False by simp
    qed
    with run Some show ?thesis by (auto simp: returned_def)
  qed
qed simp

lemma discover_each_runs:
  assumes "\<forall>q w. fst (env False q w) \<noteq> RPanic"
  shows "\<exists>s' w'. discover_each env cfg conns ns s w = Some (s', w')"
proof (induction ns arbitrary: s w)
  case (Cons n ns)
  have rows: "\<exists>rs h' w'. run env False (query_rows c q) h w = (Returned rs, h', w')" for c q h w
  proof (rule run_panic_free)
    show "panic_free (length h) (query_rows c q)"
      unfolding query_rows_def by (intro panic_free_intros) (simp split: reply.split)
  qed (use assms in simp)
  let ?c = "conn_of conns (Name n)"
  obtain rs h1 w1 where "run env False (query_rows ?c (OrphanNodes (map Name (Nodes cfg)))) (fst s) w = (Returned rs, h1, w1)"
    using rows by blast
  then obtain s1 where nodes: "discoverOrphanNodes env cfg ?c n (map Name (Nodes cfg)) s w = Some (s1, w1)"
    by (simp only: discoverOrphanNodes_def returned_def) simp
  obtain rs' h2 w2 where "run env False (query_rows ?c SpockSlots) (fst s1) w1 = (Returned rs', h2, w2)"
    using rows by blast
  then obtain s2 where slots: "discoverOrphanSlots env cfg ?c n (expected_slots cfg) s1 w1 = Some (s2, w2)"
    by (simp only: discoverOrphanSlots_def returned_def) simp
  from nodes slots Cons.IH[of s2 w2] show ?case by simp
qed simp

lemma refresh_actual_runs:
  assumes "\<forall>q w. fst (env False q w) \<noteq> RPanic" and "\<forall>(i, r)\<in>set m. r < length h" and "go_order ord"
  shows "\<exists>res h' w'. RefreshActual ord env cfg conns m h w = Some (res, h', w') \<and>
    (case res of Inl err \<Rightarrow> \<exists>i e. has_key m i \<and> err = Wrapf (''refresh '' @ Type i @ ''/'' @ ID i) e | Inr _ \<Rightarrow> True) \<and>
    (inspectable env \<longrightarrow> \<not> isl res)"
proof -
  have at: "\<forall>i\<in>set (ord 0 (keys m)). at_key m i < length h"
  proof
    fix i
    assume "i \<in> set (ord 0 (keys m))"
    then have "i \<in> fst ` set m" using go_order_set[OF assms(3), of 0 "keys m"] by simp
    from keys_lookup[OF this] obtain r where "map_of m i = Some r" ..
    then have "(i, r) \<in> set m" "at_key m i = r" by (simp_all add: map_of_SomeD)
    with assms(2) show "at_key m i < length h" by (simp add: split_beta) (metis snd_conv)
  qed
  from refresh_desired_runs[where ks = "ord 0 (keys m)" and m = m and h = h and env = env, OF assms(1) at] obtain res h1 w1 where
    first: "refresh_desired env m (ord 0 (keys m)) [] h w = Some (res, h1, w1)" and
    err: "case res of Inl err \<Rightarrow> \<exists>i e. i \<in> set (ord 0 (keys m)) \<and> err = Wrapf (''refresh '' @ Type i @ ''/'' @ ID i) e | Inr _ \<Rightarrow> True"
      "inspectable env \<longrightarrow> \<not> isl res" by blast
  show ?thesis
  proof (cases res)
    case (Inl e)
    with err(1) obtain i e' where "i \<in> set (ord 0 (keys m))" "e = Wrapf (''refresh '' @ Type i @ ''/'' @ ID i) e'"
      by auto
    then have "\<exists>i e'. has_key m i \<and> e = Wrapf (''refresh '' @ Type i @ ''/'' @ ID i) e'"
      unfolding has_key_iff go_order_set[OF assms(3)] by blast
    with first err(2) Inl show ?thesis by (simp add: RefreshActual_def)
  next
    case (Inr actual1)
    obtain s w2 where "discover_each env cfg conns (Nodes cfg) (h1, actual1) w1 = Some (s, w2)"
      using discover_each_runs[where env = env, OF assms(1)] by blast
    with first Inr show ?thesis by (simp add: RefreshActual_def discoverOrphans_def)
  qed
qed

text \<open>Two nodes of which the first lost its slot, and at both of which \<open>n3\<close> is left over.\<close>

definition survivors :: config where
  "survivors = sample_config [plain_node ''n1'', plain_node ''n2'']"

abbreviation survivors_conns :: conns where
  "survivors_conns \<equiv> [(''n1'', 0), (''n2'', 1)]"

definition survivors_desired :: resources where
  "survivors_desired = ComputeDesired (\<lambda>ks. ks) survivors survivors_conns []"

definition survey_env :: "(unit, request, reply) env" where
  "survey_env c q w = ((case q of
      PoolQueryRow k (SlotExists s) \<Rightarrow> RBool (s \<noteq> spock_slot_name ''app'' ''n1'' ''n2'')
    | PoolQueryRow k st \<Rightarrow> RBool True
    | PoolQuery k (OrphanNodes ns) \<Rightarrow> RRows [RowText ''n3''] None
    | PoolQuery k SpockSlots \<Rightarrow> RRows [RowText (spock_slot_name ''app'' ''n1'' ''n3'')] None
    | _ \<Rightarrow> ROk), w)"

abbreviation survey :: "((goerror + ref resource_map) \<times> heap \<times> unit) option" where
  "survey \<equiv> RefreshActual (\<lambda>n ks. ks) survey_env survivors survivors_conns (snd survivors_desired) (fst survivors_desired) ()"

definition survey_actual :: "ref resource_map" where
  "survey_actual = (case survey of Some (Inr actual, h, w) \<Rightarrow> actual | _ \<Rightarrow> [])"

definition survey_heap :: heap where
  "survey_heap = (case survey of Some (res, h, w) \<Rightarrow> h | _ \<Rightarrow> [])"

lemma survivors_keyed: "well_keyed (spock_methods fuel) (fst survivors_desired) (snd survivors_desired)"
  by (rule desired_keyed(1)[of "\<lambda>ks. ks" survivors survivors_conns]) (simp add: survivors_desired_def)

lemma survivors_refs: "\<forall>(i, r)\<in>set (snd survivors_desired). r < length (fst survivors_desired)"
  using desired_well_formed[of "\<lambda>ks. ks" survivors survivors_conns]
  by (auto simp: well_formed_def survivors_desired_def split: prod.splits)

lemma survey_returns: "survey = Some (Inr survey_actual, survey_heap, ())"
proof -
  have "\<forall>q w. fst (survey_env False q w) \<noteq> RPanic" "inspectable survey_env"
    by (auto simp: survey_env_def split: request.split stmt.split intro!: inspectableI)
  note env = this
  have "\<exists>res h w. survey = Some (res, h, w) \<and> (case res of Inl err \<Rightarrow> \<exists>i e. has_key (snd survivors_desired) i \<and>
      err = Wrapf (''refresh '' @ Type i @ ''/'' @ ID i) e | Inr _ \<Rightarrow> True) \<and>
    (inspectable survey_env \<longrightarrow> \<not> isl res)"
    by (rule refresh_actual_runs[where env = survey_env and m = "snd survivors_desired"
        and h = "fst survivors_desired", OF env(1) survivors_refs go_order_id])
  with env(2) obtain res h w where s: "survey = Some (res, h, w)" "\<not> isl res" by blast
  then show ?thesis by (cases res) (simp_all add: survey_actual_def survey_heap_def)
qed

lemma survey_catalogs:
  "catalogs survey_env ns (\<lambda>c. [RowText ''n3'']) (\<lambda>c. [RowText (spock_slot_name ''app'' ''n1'' ''n3'')])"
  by (simp add: catalogs_def survey_env_def)

text \<open>
  Claim C9: What \<open>RefreshActual\<close> returns, as long as the catalogs do not change under it: exactly
  the desired resources that exist, and for every node of the configuration one node resource and
  one subscription for each Spock node there that the configuration does not have, and one slot for
  each of its slots that no pair of configured nodes needs.
\<close>

theorem refresh_actual_exact:
  assumes "RefreshActual ord env cfg conns m h w = Some (Inr actual, h', w')"
    and "well_keyed (spock_methods fuel) h m" and "go_order ord"
    and "catalogs env (map Name (Nodes cfg)) orphans slots"
  shows "set (keys actual) = {i \<in> set (keys m). Exists (Status (h' ! at_key m i))}
    \<union> (\<Union>n\<in>set (Nodes cfg). orphan_ids cfg conns orphans slots n)"
  by (rule actual_keys[OF assms])

theorem refresh_actual_exact_witness:
  "set (keys survey_actual) = {i \<in> set (keys (snd survivors_desired)).
      Exists (Status (survey_heap ! at_key (snd survivors_desired) i))}
    \<union> (\<Union>n\<in>set (Nodes survivors). orphan_ids survivors survivors_conns (\<lambda>c. [RowText ''n3''])
         (\<lambda>c. [RowText (spock_slot_name ''app'' ''n1'' ''n3'')]) n)"
  by (rule refresh_actual_exact[OF survey_returns survivors_keyed[of 0] go_order_id survey_catalogs])

lemma actual_status:
  assumes "RefreshActual ord env cfg conns m h w = Some (Inr actual, h', w')"
    and "well_keyed (spock_methods fuel) h m" and "go_order ord" and "(i, r) \<in> set m"
  shows "\<exists>qs st. answers env qs \<and> reported (h ! r) qs st \<and>
    h' ! r = set_status (if map_of actual i = Some r \<and> broken actual i (h ! r) then slot_missing else st) (h ! r)"
proof (rule refresh_actual_parts[OF assms(1-3)])
  fix h1 actual1 w1 obs
  assume h1: "length h1 = length h"
    and at: "\<And>i. i \<in> fst ` set m \<Longrightarrow> at_key m i < length h \<and>
       (\<exists>qs st. answers env qs \<and> reported (h ! at_key m i) qs st \<and> h1 ! at_key m i = set_status st (h ! at_key m i))"
    and m1: "\<And>i. map_of actual1 i = (if i \<in> fst ` set m \<and> Exists (Status (h1 ! at_key m i)) then Some (at_key m i) else None)"
    and disc: "discover_each env cfg conns (Nodes cfg) (h1, actual1) w1 = Some ((h1 @ obs, actual), w')"
    and h': "h' = checkSlotHealth (ord 1) actual (h1 @ obs)"
  from assms(2,4) have i: "i \<in> fst ` set m" "at_key m i = r" by (force simp: well_keyed_def)+
  from at[OF i(1)] obtain qs st where st: "r < length h" "answers env qs \<and> reported (h ! r) qs st" "h1 ! r = set_status st (h ! r)"
    unfolding i(2) by blast
  then have r: "r < length (h1 @ obs)" "(h1 @ obs) ! r = set_status st (h ! r)" using h1 by (simp_all add: nth_append)
  obtain K where "grows K (h1, actual1) (h1 @ obs, actual)" using discover_each_grows_some[OF disc] ..
  then have lookup: "map_of actual j = map_of actual1 j \<or> (\<exists>r\<ge>length h1. map_of actual j = Some r)" for j
    by (auto simp: grows_def)
  have only: "j = i" if "map_of actual j = Some r" for j
  proof -
    from that lookup[of j] st(1) h1 have "map_of actual1 j = Some r" by auto
    then have "j \<in> fst ` set m" "at_key m j = r" by (auto simp: m1 split: if_splits)
    with i show ?thesis using inj_onD[OF well_keyed_inj[OF assms(2)], of j i] by simp
  qed
  have "(\<exists>j\<in>set (keys actual). at_key actual j = r \<and> broken actual j (set_status st (h ! r)))
      \<longleftrightarrow> map_of actual i = Some r \<and> broken actual i (h ! r)"
  proof
    assume "\<exists>j\<in>set (keys actual). at_key actual j = r \<and> broken actual j (set_status st (h ! r))"
    then obtain j where j: "j \<in> fst ` set actual" "at_key actual j = r" "broken actual j (h ! r)" by auto
    with keys_lookup[OF j(1)] have "map_of actual j = Some r" by auto
    with only[OF this] j(3) show "map_of actual i = Some r \<and> broken actual i (h ! r)" by simp
  next
    assume "map_of actual i = Some r \<and> broken actual i (h ! r)"
    with map_of_in_keys[of actual i r]
    show "\<exists>j\<in>set (keys actual). at_key actual j = r \<and> broken actual j (set_status st (h ! r))"
      by (intro bexI[of _ i]) simp_all
  qed
  with checkSlotHealth_nth[OF go_order_set[OF assms(3)] r(1)] r(2) h' st(2) show ?thesis by auto
qed

text \<open>
  The status of every desired resource after \<open>RefreshActual\<close> is the one its \<open>Refresh\<close>
  reported, with one exception: a subscription that exists, but whose slot on the provider is not in
  the map, is marked for recreation.
\<close>

lemma refresh_actual_status:
  assumes "RefreshActual ord env cfg conns m h w = Some (Inr actual, h', w')"
    and "well_keyed (spock_methods fuel) h m" and "go_order ord" and "(i, r) \<in> set m"
  shows "\<exists>qs st. answers env qs \<and> reported (h ! r) qs st \<and>
    h' ! r = set_status (if map_of actual i = Some r \<and> broken actual i (h ! r) then slot_missing else st) (h ! r)"
  by (rule actual_status[OF assms])

lemma refresh_actual_status_witness:
  "let r = at_key (snd survivors_desired) (mk_id ResourceTypeSubscription ''sub_n1_n2'') in
   \<exists>qs st. answers survey_env qs \<and> reported (fst survivors_desired ! r) qs st \<and>
    survey_heap ! r = set_status (if map_of survey_actual (mk_id ResourceTypeSubscription ''sub_n1_n2'') = Some r \<and>
      broken survey_actual (mk_id ResourceTypeSubscription ''sub_n1_n2'') (fst survivors_desired ! r)
      then slot_missing else st) (fst survivors_desired ! r)"
  unfolding Let_def
proof (rule refresh_actual_status[OF survey_returns survivors_keyed[of 0] go_order_id])
  have "plain_node ''n1'' \<in> set (Nodes survivors)" "plain_node ''n2'' \<in> set (Nodes survivors)"
    "spock_sub_name (Name (plain_node ''n1'')) (Name (plain_node ''n2'')) = ''sub_n1_n2''" by code_simp+
  with pair_ids[of "\<lambda>ks. ks" "plain_node ''n1''" survivors "plain_node ''n2''" survivors_conns 0]
  have "mk_id ResourceTypeSubscription ''sub_n1_n2'' \<in> fst ` set (snd survivors_desired)"
    unfolding survivors_desired_def desired_keys by (simp add: plain_node_def)
  from keys_lookup[OF this] show "(mk_id ResourceTypeSubscription ''sub_n1_n2'', at_key (snd survivors_desired)
      (mk_id ResourceTypeSubscription ''sub_n1_n2'')) \<in> set (snd survivors_desired)"
    by (auto dest: map_of_SomeD)
qed

subsection \<open>Orphan nodes and the plan\<close>

lemma deletes_once:
  assumes "go_order ord" and "plan ord vt h actual desired = Some phases"
    and "x \<in> event_ids vt h (plan_deletes ord vt h actual desired)"
  shows "length (filter (\<lambda>e. Action e = ActionDelete \<and> event_id vt h e = x) (concat phases)) = 1"
proof (rule plan_phase_sections[OF assms(1,2)])
  fix ds us cs
  assume ph: "phases = ds @ us @ cs"
    and ds: "topo_sort (\<lambda>n. ord (3 * n + 2)) vt h (plan_deletes ord vt h actual desired) True = Some ds"
    and acts: "\<And>e. e \<in> set (concat ds) \<Longrightarrow> Action e = ActionDelete"
      "\<And>e. e \<in> set (concat us) \<Longrightarrow> Action e = ActionUpdate"
      "\<And>e. e \<in> set (concat cs) \<Longrightarrow> Action e = ActionCreate"
  let ?P = "\<lambda>e. Action e = ActionDelete \<and> event_id vt h e = x"
  note ids = topo_sort_ids[OF go_order_shift[OF assms(1)] ds]
  have "filter ?P (concat us) = []" "filter ?P (concat cs) = []"
    using acts(2,3) by (auto simp: filter_empty_conv)
  moreover have "length (filter ?P (concat ds)) = 1"
    using count_one_action[of "concat ds" ActionDelete vt h ActionDelete x] acts(1) ids(1,2) assms(3) by simp
  ultimately show ?thesis unfolding ph by simp
qed

text \<open>
  Claim C33: An orphan node is found once for every survivor, under a key of its own, so that it is
  dropped on each. But the resources behind the keys all have the orphan's name as their identifier,
  which is what \<open>topoSort\<close> goes by: any plan has a single delete for them all, on one survivor.
\<close>

theorem orphan_dropped_once:
  assumes "go_order ord" and "plan ord (spock_methods fuel) h actual desired = Some phases"
    and "map_of actual (mk_id ResourceTypeNode (x @ ''@'' @ a)) = Some r" and "Identifier (h ! r) = mk_id ResourceTypeNode x"
    and "map_of actual (mk_id ResourceTypeNode (x @ ''@'' @ b)) = Some r'" and "Identifier (h ! r') = mk_id ResourceTypeNode x"
    and "\<not> has_key desired (mk_id ResourceTypeNode (x @ ''@'' @ a))"
      and "\<not> has_key desired (mk_id ResourceTypeNode (x @ ''@'' @ b))" and "r \<noteq> r'"
  shows "length (filter (\<lambda>e. Action e = ActionDelete \<and> Identifier (h ! Resource e) = mk_id ResourceTypeNode x)
      (concat phases)) = 1
    \<and> \<not> {mk_event ActionDelete r, mk_event ActionDelete r'} \<subseteq> set (concat phases)"
proof
  let ?P = "\<lambda>e. Action e = ActionDelete \<and> Identifier (h ! Resource e) = mk_id ResourceTypeNode x"
  have "mk_event ActionDelete r \<in> set (plan_deletes ord (spock_methods fuel) h actual desired)"
    using assms(3,7) map_of_in_keys[OF assms(3)] go_order_set[OF assms(1), of 0 "keys actual"]
    unfolding plan_deletes_def by force
  then have "mk_id ResourceTypeNode x \<in> event_ids (spock_methods fuel) h (plan_deletes ord (spock_methods fuel) h actual desired)"
    using assms(4) by force
  from deletes_once[OF assms(1,2) this] show one: "length (filter ?P (concat phases)) = 1" by simp
  show "\<not> {mk_event ActionDelete r, mk_event ActionDelete r'} \<subseteq> set (concat phases)"
  proof
    assume "{mk_event ActionDelete r, mk_event ActionDelete r'} \<subseteq> set (concat phases)"
    with assms(4,6) have both: "{mk_event ActionDelete r, mk_event ActionDelete r'} \<subseteq> set (filter ?P (concat phases))" by auto
    from one obtain y where "filter ?P (concat phases) = [y]" by (auto simp: length_Suc_conv)
    from both[unfolded this] assms(9) show False by auto
  qed
qed

definition leftovers :: resources where
  "leftovers = orphan_node survivors (Some 1) (plain_node ''n2'') ''n3''
     (orphan_node survivors (Some 0) (plain_node ''n1'') ''n3'' ([], []))"

theorem orphan_dropped_once_witness:
  "let phases = the (plan (\<lambda>n ks. ks) (spock_methods 0) (fst leftovers) (snd leftovers) []) in
   length (filter (\<lambda>e. Action e = ActionDelete \<and> Identifier (fst leftovers ! Resource e) = mk_id ResourceTypeNode ''n3'')
      (concat phases)) = 1
    \<and> \<not> {mk_event ActionDelete 0, mk_event ActionDelete 2} \<subseteq> set (concat phases)"
proof -
  obtain ds us cs where p: "plan (\<lambda>n ks. ks) (spock_methods 0) (fst leftovers) (snd leftovers) [] = Some (ds @ us @ cs)"
    by (rule plan_sections[OF go_order_id, of "spock_methods 0" "fst leftovers" "snd leftovers" "[]"]) (rule that; assumption)
  have "map_of (snd leftovers) (mk_id ResourceTypeNode (''n3'' @ ''@'' @ ''n1'')) = Some 0"
    "Identifier (fst leftovers ! 0) = mk_id ResourceTypeNode ''n3''"
    "map_of (snd leftovers) (mk_id ResourceTypeNode (''n3'' @ ''@'' @ ''n2'')) = Some 2"
    "Identifier (fst leftovers ! 2) = mk_id ResourceTypeNode ''n3''"
    by code_simp+
  then show ?thesis unfolding Let_def p option.sel
    by (intro orphan_dropped_once[OF go_order_id p, where a = "''n1''" and b = "''n2''"]) simp_all
qed

end
