(* ===== verification/Reset.thy ===== *)
theory Reset
  imports Transactions Results Desired
begin

text \<open>
  \<open>internal/spock/reset.go\<close> and \<open>internal/spock/repset.go\<close>: dropping and recreating Spock on a node,
  with the replication sets read into memory before and written back after.
\<close>

type_synonym 'a call_program = "(object, 'a) program"

subsection \<open>Replication sets: backup\<close>

record repset_snapshot =
  rp_sets :: "replication_set list"
  rp_tables :: "replication_set_table list"

text \<open>\<open>rows.Scan\<close> of a row into the fields of a set or of a table.\<close>

definition scan_repset :: "row \<Rightarrow> goerror + replication_set" where
  "scan_repset rw = (case rw of RowRepset s \<Rightarrow> Inr s | RowError e \<Rightarrow> Inl e | _ \<Rightarrow> Inl ErrScan)"

definition scan_table :: "row \<Rightarrow> goerror + replication_set_table" where
  "scan_table rw = (case rw of RowTable t \<Rightarrow> Inr t | RowError e \<Rightarrow> Inl e | _ \<Rightarrow> Inl ErrScan)"

fun scan_rows :: "(row \<Rightarrow> goerror + 'b) \<Rightarrow> row list \<Rightarrow> 'b list \<Rightarrow> goerror + 'b list" where
  "scan_rows scan [] acc = Inr acc"
| "scan_rows scan (rw # rows) acc = (case scan rw of Inl e \<Rightarrow> Inl e | Inr x \<Rightarrow> scan_rows scan rows (acc @ [x]))"

text \<open>The three error returns around a loop over rows: of \<open>Query\<close>, of \<open>Scan\<close> and of \<open>rows.Err()\<close>.\<close>

definition read_rows :: "string \<Rightarrow> string \<Rightarrow> string \<Rightarrow> (row \<Rightarrow> goerror + 'b) \<Rightarrow> reply \<Rightarrow> goerror + 'b list" where
  "read_rows query_msg scan_msg read_msg scan s = (case s of
       RRows rows err \<Rightarrow> (case scan_rows scan rows [] of
           Inl e \<Rightarrow> Inl (Wrapf scan_msg e)
         | Inr xs \<Rightarrow> (case err of Some e \<Rightarrow> Inl (Wrapf read_msg e) | None \<Rightarrow> Inr xs))
     | RErr e \<Rightarrow> Inl (Wrapf query_msg e)
     | _ \<Rightarrow> Inl (Wrapf query_msg (ErrOther ''query'')))"

definition backupRepsets :: "conn \<Rightarrow> string \<Rightarrow> (goerror + repset_snapshot) call_program" where
  "backupRepsets c nodeName =
     ask (PoolQuery c Repsets) (\<lambda>s.
       case read_rows (''query replication sets on '' @ nodeName) (''scan replication set on '' @ nodeName)
              (''read replication sets on '' @ nodeName) scan_repset s of
         Inl e \<Rightarrow> Return (Inl e)
       | Inr sets \<Rightarrow>
           ask (PoolQuery c RepsetTables) (\<lambda>s.
             case read_rows (''query replication set tables on '' @ nodeName)
                    (''scan replication set table on '' @ nodeName)
                    (''read replication set tables on '' @ nodeName) scan_table s of
               Inl e \<Rightarrow> Return (Inl e)
             | Inr tables \<Rightarrow> Return (Inr \<lparr>rp_sets = sets, rp_tables = tables\<rparr>)))"

subsection \<open>Replication sets: restore\<close>

definition builtinSets :: "string set" where
  "builtinSets = {''default'', ''default_insert_only'', ''ddl_sql''}"

primrec restore_sets :: "tx \<Rightarrow> string \<Rightarrow> replication_set list \<Rightarrow> object op \<Rightarrow> object op" where
  "restore_sets tx nodeName [] p = p"
| "restore_sets tx nodeName (s # ss) p =
     (if rs_name s \<in> builtinSets then restore_sets tx nodeName ss p
      else exec (TxExec tx (RepsetCreate s)) (''recreate repset '' @ quoted (rs_name s) @ '' on '' @ nodeName)
             (restore_sets tx nodeName ss p))"

primrec restore_tables :: "tx \<Rightarrow> string \<Rightarrow> replication_set_table list \<Rightarrow> object op \<Rightarrow> object op" where
  "restore_tables tx nodeName [] p = p"
| "restore_tables tx nodeName (t # ts) p =
     exec (TxExec tx (RepsetAddTable t))
       (''add table '' @ quoted (rt_tableName t) @ '' to repset '' @ quoted (rt_setName t) @ '' on '' @ nodeName)
       (restore_tables tx nodeName ts p)"

definition restoreRepsets :: "conn \<Rightarrow> string \<Rightarrow> repset_snapshot option \<Rightarrow> object op" where
  "restoreRepsets c nodeName snap = (case snap of
       None \<Rightarrow> ok
     | Some sn \<Rightarrow>
         if rp_sets sn = [] \<and> rp_tables sn = [] then ok
         else in_tx c (''begin repset restore on '' @ nodeName) (\<lambda>tx.
           restore_sets tx nodeName (rp_sets sn) (restore_tables tx nodeName (rp_tables sn)
             (exec (TxCommit tx) (''commit repset restore on '' @ nodeName) ok))))"

subsection \<open>Reset\<close>

text \<open>The three clean-up statements, whose errors are only logged.\<close>

definition exec_logged :: "request \<Rightarrow> object op \<Rightarrow> object op" where
  "exec_logged q p = ask q (\<lambda>s. p)"

text \<open>From \<open>DROP EXTENSION\<close> to the end of \<open>resetNode\<close>.\<close>

definition recreate_spock :: "conn \<Rightarrow> node \<Rightarrow> string \<Rightarrow> string \<Rightarrow> repset_snapshot option \<Rightarrow> object op" where
  "recreate_spock c n dbName pgedgeUser snap =
     exec (PoolExec c DropExtension) (''drop spock extension on '' @ Name n) (
     exec_logged (PoolExec c TerminateSpockWalsenders) (
     exec_logged (PoolExec c DropSpockSlots) (
     exec_logged (PoolExec c DropSpockOrigins) (
     exec (PoolExec c CreateExtension) (''create spock extension on '' @ Name n) (
     exec (PoolExec c (NodeCreate (Name n) (node_dsn (Hostname n) dbName pgedgeUser))) (''create spock node on '' @ Name n) (
     Effects.bind (restoreRepsets c (Name n) snap) (unless (''restore repsets on '' @ Name n) ok)))))))"

definition resetNode :: "conn \<Rightarrow> node \<Rightarrow> string \<Rightarrow> string \<Rightarrow> object op" where
  "resetNode c n dbName pgedgeUser =
     query_bool (PoolQueryRow c SpockExtension) (''check spock extension on '' @ Name n) (\<lambda>spockExists.
       if spockExists then
         Effects.bind (backupRepsets c (Name n)) (\<lambda>r. case r of
             Inl e \<Rightarrow> failed (''backup repsets on '' @ Name n) e
           | Inr snap \<Rightarrow> recreate_spock c n dbName pgedgeUser (Some snap))
       else recreate_spock c n dbName pgedgeUser None)"

primrec reset_nodes :: "string \<Rightarrow> config \<Rightarrow> conns \<Rightarrow> node list \<Rightarrow> object op" where
  "reset_nodes msg cfg conns [] = ok"
| "reset_nodes msg cfg conns (n # ns) =
     Effects.bind (resetNode (conn_of conns (Name n)) n (DBName cfg) (PgEdgeUser cfg))
       (unless (msg @ Name n) (reset_nodes msg cfg conns ns))"

definition ResetSpock_nodes :: "config \<Rightarrow> conns \<Rightarrow> object op" where
  "ResetSpock_nodes cfg conns = reset_nodes ''reset spock on '' cfg conns (Nodes cfg)"

text \<open>\<open>ResetBootstrappedNodes\<close>: the loop goes on at once with the next node unless the mode is \<open>cnpg\<close>.\<close>

primrec reset_bootstrapped :: "config \<Rightarrow> conns \<Rightarrow> node list \<Rightarrow> object op" where
  "reset_bootstrapped cfg conns [] = ok"
| "reset_bootstrapped cfg conns (n # ns) =
     (if Mode (Bootstrap n) \<noteq> ''cnpg'' then reset_bootstrapped cfg conns ns
      else Effects.bind (resetNode (conn_of conns (Name n)) n (DBName cfg) (PgEdgeUser cfg))
             (unless (''reset bootstrapped node '' @ Name n) (reset_bootstrapped cfg conns ns)))"

definition ResetBootstrappedNodes :: "config \<Rightarrow> conns \<Rightarrow> object op" where
  "ResetBootstrappedNodes cfg conns = reset_bootstrapped cfg conns (Nodes cfg)"

subsection \<open>The transaction protocol\<close>

lemma tx_safe_bind: "tx_safe p st \<Longrightarrow> (\<And>a. tx_safe (f a) NoTx) \<Longrightarrow> tx_safe (Effects.bind p f) st"
proof (induction p arbitrary: st rule: prog_induct)
  case (Call q k)
  then show ?case by (auto split: option.splits)
qed auto

lemma tx_body_restore_tables:
  "tx_body t p (Open t) \<Longrightarrow> tx_body t (restore_tables t nm ts p) (Open t)"
  by (induction ts) (auto intro: tx_intros)

lemma tx_body_restore_sets:
  "tx_body t p (Open t) \<Longrightarrow> tx_body t (restore_sets t nm ss p) (Open t)"
  by (induction ss) (auto intro: tx_intros)

lemma tx_safe_restore: "tx_safe (restoreRepsets c nm snap) NoTx"
  unfolding restoreRepsets_def
  by (auto split: option.split intro!: tx_intros tx_body_restore_sets tx_body_restore_tables)

lemma tx_safe_backup: "tx_safe (backupRepsets c nm) NoTx"
  unfolding backupRepsets_def by (auto split: sum.split intro!: tx_intros)

lemma tx_safe_unless: "tx_safe p NoTx \<Longrightarrow> tx_safe (unless msg p err) NoTx"
  by (simp add: unless_def failed_def split: option.split)

lemma tx_safe_recreate: "tx_safe (recreate_spock c n db user snap) NoTx"
  unfolding recreate_spock_def exec_logged_def
  by (intro tx_intros tx_safe_bind tx_safe_restore tx_safe_unless plain_calls)

lemma tx_safe_resetNode: "tx_safe (resetNode c n db user) NoTx"
  unfolding resetNode_def
  by (intro tx_intros tx_safe_bind tx_safe_backup tx_safe_recreate plain_calls tx_safe_failed)

lemma tx_safe_reset_nodes: "tx_safe (reset_nodes msg cfg conns ns) NoTx"
  by (induction ns) (auto intro!: tx_safe_bind tx_safe_resetNode tx_safe_unless)

text \<open>The loop with \<open>continue\<close> is the loop over the nodes of that mode.\<close>

lemma reset_bootstrapped_filter:
  "reset_bootstrapped cfg conns ns =
     reset_nodes ''reset bootstrapped node '' cfg conns (filter (\<lambda>n. Mode (Bootstrap n) = ''cnpg'') ns)"
  by (induction ns) simp_all

text \<open>
  Both resets keep the transaction protocol, whatever the replies: the restore of the
  replication sets runs in one transaction, which is committed only if no statement of it failed,
  and nothing is left open.
\<close>

lemma reset_keeps_protocol:
  assumes "p \<in> {ResetSpock_nodes cfg conns, ResetBootstrappedNodes cfg conns}"
  shows "\<exists>st. tx_trace NoTx (trace env c p h w) = Some st
    \<and> (case run env c p h w of (Returned a, h', w') \<Rightarrow> st = NoTx | _ \<Rightarrow> True)"
proof -
  have "tx_safe p NoTx"
    using assms by (auto simp: ResetSpock_nodes_def ResetBootstrappedNodes_def reset_bootstrapped_filter tx_safe_reset_nodes)
  from tx_safe_trace[OF this, of env c h w] show ?thesis by (auto split: prod.split outcome.split)
qed

lemma reset_keeps_protocol_witness:
  "\<exists>st. tx_trace NoTx (trace slot_env False (ResetSpock_nodes add_node_config add_node_conns) [] 0) = Some st
    \<and> (case run slot_env False (ResetSpock_nodes add_node_config add_node_conns) [] 0 of (Returned a, h', w') \<Rightarrow> st = NoTx | _ \<Rightarrow> True)"
  by (rule reset_keeps_protocol[of _ add_node_config add_node_conns]) simp

subsection \<open>Nothing is dropped without a backup\<close>

lemma scan_rows_Inr:
  "scan_rows scan_repset rows acc = Inr ss \<longleftrightarrow> (\<exists>xs. rows = map RowRepset xs \<and> ss = acc @ xs)"
  "scan_rows scan_table rows acc' = Inr ts \<longleftrightarrow> (\<exists>xs. rows = map RowTable xs \<and> ts = acc' @ xs)"
proof -
  show "scan_rows scan_repset rows acc = Inr ss \<longleftrightarrow> (\<exists>xs. rows = map RowRepset xs \<and> ss = acc @ xs)"
    by (induction rows arbitrary: acc)
      (auto simp: scan_repset_def Cons_eq_map_conv split: row.splits)
  show "scan_rows scan_table rows acc' = Inr ts \<longleftrightarrow> (\<exists>xs. rows = map RowTable xs \<and> ts = acc' @ xs)"
    by (induction rows arbitrary: acc')
      (auto simp: scan_table_def Cons_eq_map_conv split: row.splits)
qed

lemma read_rows_Inr:
  "read_rows a b c scan_repset s = Inr ss \<longleftrightarrow> s = RRows (map RowRepset ss) None"
  "read_rows a b c scan_table s = Inr ts \<longleftrightarrow> s = RRows (map RowTable ts) None"
  using scan_rows_Inr(1)[where acc = "[]"] scan_rows_Inr(2)[where acc' = "[]"]
  by (auto simp: read_rows_def split: reply.splits sum.splits option.splits) (metis Inl_Inr_False append_Nil sum.inject(2))+

text \<open>The replies a reset starts with: no extension, or both queries of the backup answered in full.\<close>

definition backed_up :: "conn \<Rightarrow> (request \<times> reply) list \<Rightarrow> bool" where
  "backed_up c qs \<longleftrightarrow> take 1 qs = [(PoolQueryRow c SpockExtension, RBool False)] \<or>
     (\<exists>sets tables. take 3 qs = [(PoolQueryRow c SpockExtension, RBool True),
        (PoolQuery c Repsets, RRows (map RowRepset sets) None), (PoolQuery c RepsetTables, RRows (map RowTable tables) None)])"

definition drops :: "(request \<times> reply) list \<Rightarrow> bool" where
  "drops qs \<longleftrightarrow> list_ex (\<lambda>(q, s). case q of PoolExec c DropExtension \<Rightarrow> True | _ \<Rightarrow> False) qs"

text \<open>For all runs at once, those that panic included: the calls satisfy \<open>Q\<close>.\<close>

primrec traces :: "('o, 'a) program \<Rightarrow> ((request \<times> reply) list \<Rightarrow> bool) \<Rightarrow> bool" where
  "traces (Return a) = (\<lambda>Q. Q [])"
| "traces Panic = (\<lambda>Q. Q [])"
| "traces Spin = (\<lambda>Q. Q [])"
| "traces (Call q k) = (\<lambda>Q. \<forall>s. traces (k s) (\<lambda>qs. Q ((q, s) # qs)))"
| "traces (Load r k) = (\<lambda>Q. Q [] \<and> (\<forall>x. traces (k x) Q))"
| "traces (Store r f p) = (\<lambda>Q. Q [] \<and> traces p Q)"

lemma traces_run: "traces p Q \<Longrightarrow> Q (trace env c p h w)"
proof (induction p arbitrary: Q h w rule: prog_induct)
  case (Call q k)
  obtain s w' where e: "env c q w = (s, w')" by fastforce
  from Call.prems have "traces (k s) (\<lambda>qs. Q ((q, s) # qs))" by simp
  from Call.IH[OF this] e show ?case by simp
next
  case (Load r k)
  from Load.prems have Q: "Q []" "traces (k (h ! r)) Q" by simp_all
  from Load.IH[OF Q(2), of h w] Q(1) show ?case by simp
qed auto

lemma traces_all: "(\<And>qs. Q qs) \<Longrightarrow> traces p Q"
  by (induction p arbitrary: Q rule: prog_induct) auto

lemma traces_ask:
  "Q [(q, RPanic)] \<Longrightarrow> (\<And>s. traces (k s) (\<lambda>qs. Q ((q, s) # qs))) \<Longrightarrow> traces (ask q k) Q"
  by (simp add: ask_def split: reply.split)

lemma traces_resetNode: "traces (resetNode c n db user) (\<lambda>qs. drops qs \<longrightarrow> backed_up c qs)"
proof -
  let ?Q = "\<lambda>qs. drops qs \<longrightarrow> backed_up c qs" and ?ext = "PoolQueryRow c SpockExtension"
  have tables: "traces (Effects.bind (ask (PoolQuery c RepsetTables) (\<lambda>s. case read_rows a b d scan_table s of
        Inl e \<Rightarrow> Return (Inl e) | Inr ts \<Rightarrow> Return (Inr (f ts)))) g)
      (\<lambda>qs. ?Q ((?ext, RBool True) # (PoolQuery c Repsets, RRows (map RowRepset sets) None) # qs))"
    if "\<And>e. g (Inl e) = failed msg e" for a b d f g sets and msg :: string
    unfolding bind_ask
  proof (rule traces_ask)
    fix s
    show "traces (Effects.bind (case read_rows a b d scan_table s of Inl e \<Rightarrow> Return (Inl e) | Inr ts \<Rightarrow> Return (Inr (f ts))) g)
      (\<lambda>qs. ?Q ((?ext, RBool True) # (PoolQuery c Repsets, RRows (map RowRepset sets) None) # (PoolQuery c RepsetTables, s) # qs))"
      using that read_rows_Inr(2)[of a b d s]
      by (cases "read_rows a b d scan_table s") (auto simp: failed_def drops_def backed_up_def intro!: traces_all)
  qed (simp add: drops_def)
  have sets: "traces (Effects.bind (backupRepsets c (Name n)) g) (\<lambda>qs. ?Q ((?ext, RBool True) # qs))"
    if g: "\<And>e. g (Inl e) = failed msg e" for g and msg :: string
    unfolding backupRepsets_def bind_ask
  proof (rule traces_ask)
    fix s
    let ?rows = "read_rows (''query replication sets on '' @ Name n) (''scan replication set on '' @ Name n)
      (''read replication sets on '' @ Name n) scan_repset s"
    show "traces (Effects.bind (case ?rows of Inl e \<Rightarrow> Return (Inl e) | Inr sets \<Rightarrow>
           ask (PoolQuery c RepsetTables) (\<lambda>s.
             case read_rows (''query replication set tables on '' @ Name n) (''scan replication set table on '' @ Name n)
                    (''read replication set tables on '' @ Name n) scan_table s of
               Inl e \<Rightarrow> Return (Inl e)
             | Inr tables \<Rightarrow> Return (Inr \<lparr>rp_sets = sets, rp_tables = tables\<rparr>))) g)
        (\<lambda>qs. ?Q ((?ext, RBool True) # (PoolQuery c Repsets, s) # qs))"
    proof (cases ?rows)
      case (Inl e)
      then show ?thesis using g by (simp add: failed_def drops_def)
    next
      case (Inr sets)
      then have "s = RRows (map RowRepset sets) None" by (simp add: read_rows_Inr)
      with Inr show ?thesis using tables[OF g] by simp
    qed
  qed (simp add: drops_def)
  show ?thesis
    unfolding resetNode_def query_bool_def
  proof (rule traces_ask)
    fix s
    show "traces (scanned (''check spock extension on '' @ Name n)
        (\<lambda>spockExists. if spockExists then Effects.bind (backupRepsets c (Name n)) (\<lambda>r. case r of
             Inl e \<Rightarrow> failed (''backup repsets on '' @ Name n) e
           | Inr snap \<Rightarrow> recreate_spock c n db user (Some snap)) else recreate_spock c n db user None) (scan_bool s))
      (\<lambda>qs. ?Q ((?ext, s) # qs))"
    proof (cases "s = RBool True")
      case True
      then show ?thesis using sets by (simp add: scanned_def scan_bool_def)
    next
      case False
      then show ?thesis
        by (auto simp: scanned_def scan_bool_def failed_def drops_def backed_up_def intro!: traces_all split: reply.split)
    qed
  qed (simp add: drops_def)
qed

text \<open>
  Claim C18: A reset drops the extension only where nothing is lost: the node had none, or both
  queries of the backup were answered in full and without an error before. So it is, whatever the
  replies, also in a run that ends with an error or a panic.
\<close>

theorem backup_before_drop:
  assumes "drops (trace env b (resetNode c n db user) h w)"
  shows "backed_up c (trace env b (resetNode c n db user) h w)"
  using traces_run[OF traces_resetNode[of c n db user], where env = env and c = b and h = h and w = w] assms by simp

theorem backup_before_drop_witness:
  "backed_up (Some 0) (trace slot_env False (resetNode (Some 0) (plain_node ''n1'') ''app'' ''pgedge'') [] 0)"
  by (rule backup_before_drop) (simp add: drops_def resetNode_def recreate_spock_def call_defs scan_defs slot_env_def)

subsection \<open>Which nodes are reset\<close>

primrec calls_in :: "(request \<Rightarrow> bool) \<Rightarrow> ('o, 'a) program \<Rightarrow> bool" where
  "calls_in P (Return a) \<longleftrightarrow> True"
| "calls_in P Panic \<longleftrightarrow> True"
| "calls_in P Spin \<longleftrightarrow> True"
| "calls_in P (Call q k) \<longleftrightarrow> P q \<and> (\<forall>s. calls_in P (k s))"
| "calls_in P (Load r k) \<longleftrightarrow> (\<forall>x. calls_in P (k x))"
| "calls_in P (Store r f p) \<longleftrightarrow> calls_in P p"

lemma calls_in_trace: "calls_in P p \<Longrightarrow> list_all (\<lambda>(q, s). P q) (trace env c p h w)"
  by (induction p arbitrary: h w rule: prog_induct) (auto split: prod.split)

lemma calls_in_bind: "calls_in P p \<Longrightarrow> (\<And>a. calls_in P (f a)) \<Longrightarrow> calls_in P (Effects.bind p f)"
  by (induction p rule: prog_induct) auto

named_theorems calls_intros "the calls of the program combinators"

lemma calls_in_ask [calls_intros]: "P q \<Longrightarrow> (\<And>s. calls_in P (k s)) \<Longrightarrow> calls_in P (ask q k)"
  by (simp add: ask_def split: reply.split)

lemma calls_in_combinators [calls_intros]:
  "calls_in P (Return a)" "calls_in P (failed msg e)"
  "calls_in P p \<Longrightarrow> calls_in P (unless msg p err)"
  "P q \<Longrightarrow> calls_in P p \<Longrightarrow> calls_in P (exec q msg p)"
  "P q \<Longrightarrow> calls_in P p \<Longrightarrow> calls_in P (exec_logged q p)"
  "P q \<Longrightarrow> (\<And>b. calls_in P (g b)) \<Longrightarrow> calls_in P (query_bool q msg g)"
  "(C \<Longrightarrow> calls_in P p) \<Longrightarrow> (\<not> C \<Longrightarrow> calls_in P p') \<Longrightarrow> calls_in P (if C then p else p')"
  "(\<And>e. calls_in P (f e)) \<Longrightarrow> (\<And>x. calls_in P (k x)) \<Longrightarrow> calls_in P (case v of Inl e \<Rightarrow> f e | Inr x \<Rightarrow> k x)"
  by (auto simp: failed_def unless_def exec_def exec_logged_def query_bool_def scanned_def
      split: option.split sum.split intro!: calls_in_ask)

lemma calls_in_tx [calls_intros]:
  "P (Begin c) \<Longrightarrow> (\<And>t. P (TxRollback t) \<and> calls_in P (body t)) \<Longrightarrow> calls_in P (in_tx c msg body)"
  by (auto simp: in_tx_def failed_def intro!: calls_in_ask calls_in_bind split: reply.split)

text \<open>A call on the pool \<open>c\<close>, or on a transaction.\<close>

fun on_pool :: "conn \<Rightarrow> request \<Rightarrow> bool" where
  "on_pool c (Begin d) \<longleftrightarrow> d = c"
| "on_pool c (PoolExec d q) \<longleftrightarrow> d = c"
| "on_pool c (PoolQueryRow d q) \<longleftrightarrow> d = c"
| "on_pool c (PoolQuery d q) \<longleftrightarrow> d = c"
| "on_pool c (TxExec t q) \<longleftrightarrow> True"
| "on_pool c (TxQueryRow t q) \<longleftrightarrow> True"
| "on_pool c (TxCommit t) \<longleftrightarrow> True"
| "on_pool c (TxRollback t) \<longleftrightarrow> True"
| "on_pool c q \<longleftrightarrow> False"

lemma calls_resetNode: "calls_in (on_pool c) (resetNode c n db user)"
proof -
  have tables: "calls_in (on_pool c) (restore_tables t nm ts p)" if "calls_in (on_pool c) p" for t nm ts p
    using that by (induction ts) (auto intro: calls_intros)
  have sets: "calls_in (on_pool c) (restore_sets t nm ss p)" if "calls_in (on_pool c) p" for t nm ss p
    using that by (induction ss) (auto intro: calls_intros)
  have restore: "calls_in (on_pool c) (restoreRepsets c nm snap)" for nm snap
    unfolding restoreRepsets_def by (auto split: option.split intro!: calls_intros tables sets)
  show ?thesis
    unfolding resetNode_def recreate_spock_def backupRepsets_def
    by (intro calls_intros calls_in_bind restore) simp_all
qed

lemma calls_in_mono: "calls_in P p \<Longrightarrow> (\<And>q. P q \<Longrightarrow> P' q) \<Longrightarrow> calls_in P' p"
  by (induction p rule: prog_induct) auto

lemma calls_reset_nodes:
  "calls_in (\<lambda>q. \<exists>n. n \<in> set ns \<and> on_pool (conn_of conns (Name n)) q) (reset_nodes msg cfg conns ns)"
proof (induction ns)
  case (Cons n ns)
  let ?P = "\<lambda>q. \<exists>m. m \<in> set (n # ns) \<and> on_pool (conn_of conns (Name m)) q"
  have "calls_in ?P (resetNode (conn_of conns (Name n)) n (DBName cfg) (PgEdgeUser cfg))"
    by (rule calls_in_mono[OF calls_resetNode]) auto
  moreover have "calls_in ?P (reset_nodes msg cfg conns ns)"
    by (rule calls_in_mono[OF Cons.IH]) auto
  ultimately show ?case unfolding reset_nodes.simps by (intro calls_in_bind calls_intros)
qed simp

text \<open>
  \<open>ResetBootstrappedNodes\<close> makes calls only on the pools of the nodes whose bootstrap
  mode is \<open>cnpg\<close>: no other node is touched, whatever the replies.
\<close>

lemma reset_touches_bootstrapped:
  "list_all (\<lambda>(q, s). \<exists>n. n \<in> set (Nodes cfg) \<and> Mode (Bootstrap n) = ''cnpg'' \<and> on_pool (conn_of conns (Name n)) q)
     (trace env b (ResetBootstrappedNodes cfg conns) h w)"
  unfolding ResetBootstrappedNodes_def reset_bootstrapped_filter
  by (rule calls_in_trace, rule calls_in_mono[OF calls_reset_nodes]) auto

subsection \<open>The round trip of the replication sets\<close>

text \<open>
  What the code relies on of Spock's replication sets on one server, as laws over two views of its
  state: the sets the extension does not make itself, and all the relations assigned to sets. \<open>relkind\<close> is
  the kind that \<open>pg_class\<close> has for a relation, by the text of its name, which a reset does not change; the
  statement \<open>RepsetTables\<close> selects the assignments of relations of the kinds \<open>'r'\<close> and \<open>'v'\<close> only, so a
  reply of it is \<open>listed\<close>. \<open>closed\<close> are the transactions that were committed. The laws speak of calls
  that succeed only; nothing is said of what a call that fails leaves.
\<close>

definition listed :: "(string \<Rightarrow> char) \<Rightarrow> replication_set_table multiset \<Rightarrow> replication_set_table multiset" where
  "listed relkind tables = filter_mset (\<lambda>t. relkind (rt_tableName t) \<in> {CHR ''r'', CHR ''v''}) tables"

fun quiet_call :: "conn \<Rightarrow> request \<Rightarrow> bool" where
  "quiet_call c (Begin d) \<longleftrightarrow> d = c"
| "quiet_call c (PoolQueryRow d q) \<longleftrightarrow> d = c \<and> q = SpockExtension"
| "quiet_call c (PoolQuery d q) \<longleftrightarrow> d = c \<and> q \<in> {Repsets, RepsetTables}"
| "quiet_call c (PoolExec d (NodeCreate a b)) \<longleftrightarrow> d = c"
| "quiet_call c (PoolExec d q) \<longleftrightarrow>
     d = c \<and> q \<in> {TerminateSpockWalsenders, DropSpockSlots, DropSpockOrigins, CreateExtension}"
| "quiet_call c q \<longleftrightarrow> False"

definition custom_sets :: "replication_set list \<Rightarrow> replication_set multiset" where
  "custom_sets sets = mset (filter (\<lambda>s. rs_name s \<notin> builtinSets) sets)"

abbreviation succeeds :: "('w, request, reply) env \<Rightarrow> request \<Rightarrow> 'w \<Rightarrow> bool" where
  "succeeds env q w \<equiv> err_of (fst (env False q w)) = None"

abbreviation next_world :: "('w, request, reply) env \<Rightarrow> request \<Rightarrow> 'w \<Rightarrow> 'w" where
  "next_world env q w \<equiv> snd (env False q w)"

definition repset_server :: "(string \<Rightarrow> char) \<Rightarrow> ('w, request, reply) env \<Rightarrow> conn \<Rightarrow>
    ('w \<Rightarrow> replication_set multiset \<times> replication_set_table multiset) \<Rightarrow> ('w \<Rightarrow> tx \<Rightarrow> bool) \<Rightarrow> bool" where
  "repset_server relkind env c view closed \<longleftrightarrow> (\<forall>w.
     (\<forall>q. quiet_call c q \<longrightarrow> view (next_world env q w) = view w) \<and>
     (\<forall>rows. fst (env False (PoolQuery c Repsets) w) = RRows (map RowRepset rows) None \<longrightarrow> fst (view w) = custom_sets rows) \<and>
     (\<forall>rows. fst (env False (PoolQuery c RepsetTables) w) = RRows (map RowTable rows) None \<longrightarrow>
        mset rows = listed relkind (snd (view w))) \<and>
     (succeeds env (PoolExec c DropExtension) w \<longrightarrow> view (next_world env (PoolExec c DropExtension) w) = ({#}, {#})) \<and>
     (\<forall>t s. succeeds env (TxExec t (RepsetCreate s)) w \<longrightarrow> rs_name s \<notin> builtinSets \<longrightarrow>
        view (next_world env (TxExec t (RepsetCreate s)) w) = (add_mset s (fst (view w)), snd (view w))) \<and>
     (\<forall>t s. succeeds env (TxExec t (RepsetAddTable s)) w \<longrightarrow>
        view (next_world env (TxExec t (RepsetAddTable s)) w) = (fst (view w), add_mset s (snd (view w)))) \<and>
     (\<forall>t. succeeds env (TxCommit t) w \<longrightarrow>
        view (next_world env (TxCommit t) w) = view w \<and> closed (next_world env (TxCommit t) w) t) \<and>
     (\<forall>t. closed w t \<longrightarrow> view (next_world env (TxRollback t) w) = view w))"

lemma run_ask_returned:
  "run env c (ask q k) h w = (Returned a, h', w') \<Longrightarrow> run env c (k (fst (env c q w))) h (snd (env c q w)) = (Returned a, h', w')"
  by (auto simp: ask_def split: prod.splits reply.splits)

lemma run_exec_nil:
  assumes "run env c (exec q msg p) h w = (Returned None, h', w')"
  shows "err_of (fst (env c q w)) = None \<and> run env c p h (snd (env c q w)) = (Returned None, h', w')"
  using run_ask_returned[OF assms[unfolded exec_def]] by (auto simp: unless_def failed_def split: option.splits)

lemma run_bind_returned:
  assumes "run env c (Effects.bind p f) h w = (Returned a, h', w')"
  obtains x h1 w1 where "run env c p h w = (Returned x, h1, w1)" "run env c (f x) h1 w1 = (Returned a, h', w')"
  using assms by (auto simp: run_bind split: prod.splits outcome.splits)

lemma run_restore_tables:
  assumes "repset_server relkind env c view closed"
    and "run env False (restore_tables t nm ts p) h w = (Returned None, h', w')"
  shows "\<exists>w1. view w1 = (fst (view w), snd (view w) + mset ts) \<and> run env False p h w1 = (Returned None, h', w')"
  using assms(2)
proof (induction ts arbitrary: w)
  case (Cons s ss)
  from run_exec_nil[OF Cons.prems[unfolded restore_tables.simps]] assms(1)
  have "view (next_world env (TxExec t (RepsetAddTable s)) w) = (fst (view w), add_mset s (snd (view w)))"
    "run env False (restore_tables t nm ss p) h (next_world env (TxExec t (RepsetAddTable s)) w) = (Returned None, h', w')"
    unfolding repset_server_def by blast+
  with Cons.IH[OF this(2)] show ?case by auto
next
  case Nil
  then show ?case by (intro exI[of _ w]) simp
qed

lemma run_restore_sets:
  assumes "repset_server relkind env c view closed"
    and "run env False (restore_sets t nm ss p) h w = (Returned None, h', w')"
  shows "\<exists>w1. view w1 = (fst (view w) + custom_sets ss, snd (view w)) \<and> run env False p h w1 = (Returned None, h', w')"
  using assms(2)
proof (induction ss arbitrary: w)
  case (Cons s ss)
  show ?case
  proof (cases "rs_name s \<in> builtinSets")
    case True
    with Cons show ?thesis by (simp add: custom_sets_def)
  next
    case False
    with Cons.prems have "run env False (exec (TxExec t (RepsetCreate s)) (''recreate repset '' @ quoted (rs_name s) @ '' on '' @ nm)
        (restore_sets t nm ss p)) h w = (Returned None, h', w')" by simp
    from run_exec_nil[OF this] assms(1) False
    have "view (next_world env (TxExec t (RepsetCreate s)) w) = (add_mset s (fst (view w)), snd (view w))"
      "run env False (restore_sets t nm ss p) h (next_world env (TxExec t (RepsetCreate s)) w) = (Returned None, h', w')"
      unfolding repset_server_def by blast+
    with Cons.IH[OF this(2)] False show ?thesis by (auto simp: custom_sets_def)
  qed
next
  case Nil
  then show ?case by (intro exI[of _ w]) (simp add: custom_sets_def)
qed

lemma run_restoreRepsets:
  assumes srv: "repset_server relkind env c view closed"
    and run: "run env False (restoreRepsets c nm (Some sn)) h w = (Returned None, h', w')"
  shows "view w' = (fst (view w) + custom_sets (rp_sets sn), snd (view w) + mset (rp_tables sn))"
proof (cases "rp_sets sn = [] \<and> rp_tables sn = []")
  case True
  with run show ?thesis by (simp add: restoreRepsets_def custom_sets_def)
next
  case False
  let ?body = "\<lambda>t. restore_sets t nm (rp_sets sn) (restore_tables t nm (rp_tables sn)
    (exec (TxCommit t) (''commit repset restore on '' @ nm) ok))"
  have tx: "restoreRepsets c nm (Some sn) = in_tx c (''begin repset restore on '' @ nm) ?body"
    using False by (auto simp: restoreRepsets_def)
  let ?w0 = "next_world env (Begin c) w"
  from run_ask_returned[OF run[unfolded tx in_tx_def]] obtain t where
    "run env False (Effects.bind (?body t) (\<lambda>res. ask (TxRollback t) (\<lambda>_. Return res))) h ?w0 = (Returned None, h', w')"
    by (auto simp: failed_def split: reply.splits)
  then obtain res h1 w1 where body: "run env False (?body t) h ?w0 = (Returned res, h1, w1)"
    and rest: "run env False (ask (TxRollback t) (\<lambda>_. Return res)) h1 w1 = (Returned None, h', w')"
    by (rule run_bind_returned)
  from run_ask_returned[OF rest] have res: "res = None" "w' = next_world env (TxRollback t) w1" by simp_all
  from run_restore_sets[OF srv body[unfolded res(1)]] obtain w2 where
    w2: "view w2 = (fst (view ?w0) + custom_sets (rp_sets sn), snd (view ?w0))" and
    run2: "run env False (restore_tables t nm (rp_tables sn) (exec (TxCommit t) (''commit repset restore on '' @ nm) ok)) h w2
      = (Returned None, h1, w1)" by blast
  from run_restore_tables[OF srv run2] obtain w3 where
    w3: "view w3 = (fst (view w2), snd (view w2) + mset (rp_tables sn))" and
    run3: "run env False (exec (TxCommit t) (''commit repset restore on '' @ nm) ok) h w3 = (Returned None, h1, w1)" by blast
  from run_exec_nil[OF run3] have commit: "succeeds env (TxCommit t) w3" "w1 = next_world env (TxCommit t) w3" by simp_all
  with srv have "view w1 = view w3" "closed w1 t" unfolding repset_server_def by blast+
  with srv res(2) have "view w' = view w3" unfolding repset_server_def by metis
  moreover have "view ?w0 = view w" using srv unfolding repset_server_def by (metis quiet_call.simps(1))
  ultimately show ?thesis using w2 w3 by simp
qed

lemma run_recreate:
  assumes srv: "repset_server relkind env c view closed"
    and run: "run env False (recreate_spock c n db user (Some sn)) h w = (Returned None, h', w')"
  shows "view w' = (custom_sets (rp_sets sn), mset (rp_tables sn))"
proof -
  let ?next = "next_world env"
  have quiet: "view (?next q w) = view w" if "quiet_call c q" for q w
    using srv that unfolding repset_server_def by blast
  note steps = run[unfolded recreate_spock_def]
  let ?w1 = "?next (PoolExec c DropExtension) w"
  note r1 = run_exec_nil[OF steps]
  note r2 = run_ask_returned[OF conjunct2[OF r1, unfolded exec_logged_def]]
  note r3 = run_ask_returned[OF r2]
  note r4 = run_ask_returned[OF r3]
  note r5 = run_exec_nil[OF r4]
  note r6 = run_exec_nil[OF conjunct2[OF r5]]
  from r1 srv have "view ?w1 = ({#}, {#})" unfolding repset_server_def by blast
  then have before: "view (?next (PoolExec c (NodeCreate (Name n) (node_dsn (Hostname n) db user)))
      (?next (PoolExec c CreateExtension) (?next (PoolExec c DropSpockOrigins) (?next (PoolExec c DropSpockSlots)
        (?next (PoolExec c TerminateSpockWalsenders) ?w1))))) = ({#}, {#})" (is "view ?w6 = _")
    by (simp add: quiet)
  from conjunct2[OF r6] obtain res h1 w1 where
    restore: "run env False (restoreRepsets c (Name n) (Some sn)) h ?w6 = (Returned res, h1, w1)" and
    last: "run env False (unless (''restore repsets on '' @ Name n) ok res) h1 w1 = (Returned None, h', w')"
    by (rule run_bind_returned)
  from last have "res = None" "w' = w1" by (auto simp: unless_def failed_def split: option.splits)
  with run_restoreRepsets[OF srv] restore before show ?thesis by simp
qed

lemma run_backup:
  assumes srv: "repset_server relkind env c view closed"
    and backup: "run env False (backupRepsets c nm) h w = (Returned (Inr sn), h1, w1)"
  shows "custom_sets (rp_sets sn) = fst (view w) \<and> mset (rp_tables sn) = listed relkind (snd (view w))"
proof -
  let ?w = "next_world env (PoolQuery c Repsets) w"
  from run_ask_returned[OF backup[unfolded backupRepsets_def]]
  obtain sets where sets: "fst (env False (PoolQuery c Repsets) w) = RRows (map RowRepset sets) None"
    and more: "run env False (ask (PoolQuery c RepsetTables) (\<lambda>s. case read_rows (''query replication set tables on '' @ nm)
          (''scan replication set table on '' @ nm) (''read replication set tables on '' @ nm) scan_table s of
        Inl e \<Rightarrow> Return (Inl e) | Inr tables \<Rightarrow> Return (Inr \<lparr>rp_sets = sets, rp_tables = tables\<rparr>)))
      h ?w = (Returned (Inr sn), h1, w1)"
    by (auto simp: read_rows_Inr split: sum.splits)
  from run_ask_returned[OF more] obtain tables where
    tables: "fst (env False (PoolQuery c RepsetTables) ?w) = RRows (map RowTable tables) None"
    and sn: "sn = \<lparr>rp_sets = sets, rp_tables = tables\<rparr>"
    by (auto simp: read_rows_Inr split: sum.splits)
  have "quiet_call c (PoolQuery c Repsets)" by simp
  with srv have "view ?w = view w" unfolding repset_server_def by blast
  moreover have "fst (view w) = custom_sets sets" "mset tables = listed relkind (snd (view ?w))"
    using srv sets tables unfolding repset_server_def by blast+
  ultimately show ?thesis using sn by simp
qed

text \<open>
  Claim C17: What survives of the replication sets when a node is reset. On a server that treats them by
  its documentation, a reset of a node with Spock that returns \<open>nil\<close>, though it drops the extension with
  all its tables, leaves exactly the custom sets that were there before, and of the assignments exactly
  those of relations of the kinds \<open>'r'\<close> (tables) and \<open>'v'\<close> (views), which are the ones the backup reads:
  an assignment of any other relation, such as a partitioned table (kind \<open>'p'\<close>), is gone.
\<close>

theorem reset_round_trip:
  assumes "repset_server relkind env c view closed"
    and "fst (env False (PoolQueryRow c SpockExtension) w) = RBool True"
    and "run env False (resetNode c n db user) h w = (Returned None, h', w')"
  shows "view w' = (fst (view w), listed relkind (snd (view w)))"
proof -
  let ?w = "next_world env (PoolQueryRow c SpockExtension) w"
  have "quiet_call c (PoolQueryRow c SpockExtension)" by simp
  with assms(1) have quiet: "view ?w = view w" unfolding repset_server_def by blast
  have "run env False (Effects.bind (backupRepsets c (Name n)) (\<lambda>r. case r of
      Inl e \<Rightarrow> failed (''backup repsets on '' @ Name n) e
    | Inr snap \<Rightarrow> recreate_spock c n db user (Some snap))) h ?w = (Returned None, h', w')"
    using run_ask_returned[OF assms(3)[unfolded resetNode_def query_bool_def]]
    unfolding assms(2) scanned_def scan_bool_def by (simp only: reply.case sum.case if_True)
  then obtain r h1 w1 where backup: "run env False (backupRepsets c (Name n)) h ?w = (Returned r, h1, w1)"
    and rest: "run env False (case r of Inl e \<Rightarrow> failed (''backup repsets on '' @ Name n) e
      | Inr snap \<Rightarrow> recreate_spock c n db user (Some snap)) h1 w1 = (Returned None, h', w')"
    by (rule run_bind_returned)
  from rest obtain sn where r: "r = Inr sn" by (cases r) (simp_all add: failed_def)
  with run_recreate[OF assms(1)] rest have "view w' = (custom_sets (rp_sets sn), mset (rp_tables sn))" by simp
  with run_backup[OF assms(1)] backup r quiet show ?thesis by simp
qed

text \<open>A server with one custom set, to which a table and a partitioned table are assigned.\<close>

record repset_db =
  db_sets :: "replication_set list"
  db_tables :: "replication_set_table list"

definition set_named :: "string \<Rightarrow> replication_set" where
  "set_named nm = \<lparr>rs_name = nm, rs_insert = True, rs_update = True, rs_delete = False, rs_truncate = False\<rparr>"

definition table_in :: "string \<Rightarrow> string \<Rightarrow> replication_set_table" where
  "table_in nm rel = \<lparr>rt_setName = nm, rt_tableName = rel, rt_attList = None, rt_rowFilter = None\<rparr>"

definition sample_kind :: "string \<Rightarrow> char" where
  "sample_kind rel = (if rel = ''public.parts'' then CHR ''p'' else CHR ''r'')"

abbreviation listed_tables :: "repset_db \<Rightarrow> replication_set_table list" where
  "listed_tables w \<equiv> filter (\<lambda>t. sample_kind (rt_tableName t) \<in> {CHR ''r'', CHR ''v''}) (db_tables w)"

definition repset_env :: "(repset_db, request, reply) env" where
  "repset_env b q w = (case q of
       PoolQueryRow c st \<Rightarrow> (RBool True, w)
     | PoolQuery c st \<Rightarrow> ((case st of
           Repsets \<Rightarrow> RRows (map RowRepset (set_named ''default'' # db_sets w)) None
         | _ \<Rightarrow> RRows (map RowTable (listed_tables w)) None), w)
     | PoolExec c DropExtension \<Rightarrow> (ROk, \<lparr>db_sets = [], db_tables = []\<rparr>)
     | TxExec t (RepsetCreate s) \<Rightarrow> (ROk, w\<lparr>db_sets := db_sets w @ [s]\<rparr>)
     | TxExec t (RepsetAddTable s) \<Rightarrow> (ROk, w\<lparr>db_tables := db_tables w @ [s]\<rparr>)
     | Begin c \<Rightarrow> (RTx 0, w)
     | _ \<Rightarrow> (ROk, w))"

lemma repset_env_simps:
  "repset_env b (PoolQueryRow c q) w = (RBool True, w)"
  "repset_env b (PoolQuery c Repsets) w = (RRows (map RowRepset (set_named ''default'' # db_sets w)) None, w)"
  "repset_env b (PoolQuery c RepsetTables) w = (RRows (map RowTable (listed_tables w)) None, w)"
  "repset_env b (PoolExec c DropExtension) w = (ROk, \<lparr>db_sets = [], db_tables = []\<rparr>)"
  "q \<noteq> DropExtension \<Longrightarrow> repset_env b (PoolExec c q) w = (ROk, w)"
  "repset_env b (TxExec t (RepsetCreate s)) w = (ROk, w\<lparr>db_sets := db_sets w @ [s]\<rparr>)"
  "repset_env b (TxExec t (RepsetAddTable a)) w = (ROk, w\<lparr>db_tables := db_tables w @ [a]\<rparr>)"
  "repset_env b (Begin c) w = (RTx 0, w)"
  "repset_env b (TxCommit t) w = (ROk, w)"
  "repset_env b (TxRollback t) w = (ROk, w)"
  by (simp_all add: repset_env_def split: stmt.split)

abbreviation repset_before :: repset_db where
  "repset_before \<equiv> \<lparr>db_sets = [set_named ''audit''], db_tables = [table_in ''audit'' ''public.t'', table_in ''audit'' ''public.parts'']\<rparr>"

lemma repset_env_server:
  "repset_server sample_kind repset_env c (\<lambda>w. (custom_sets (db_sets w), mset (db_tables w))) (\<lambda>w t. True)"
proof -
  have quiet: "next_world repset_env q w = w" if "quiet_call c q" for q w
    using that by (cases "(c, q)" rule: quiet_call.cases) (auto simp: repset_env_simps)
  have sets: "map RowRepset a = map RowRepset b \<longleftrightarrow> a = b" for a b
    by (rule inj_map_eq_map) (simp add: inj_def)
  have tables: "map RowTable a = map RowTable b \<longleftrightarrow> a = b" for a b
    by (rule inj_map_eq_map) (simp add: inj_def)
  have "rows = set_named ''default'' # xs" if "map RowRepset (set_named ''default'' # xs) = map RowRepset rows" for rows xs
    using that sets[of "set_named ''default'' # xs" rows] by simp
  moreover have "custom_sets (set_named ''default'' # xs) = custom_sets xs" for xs
    by (simp add: custom_sets_def builtinSets_def set_named_def)
  ultimately have read: "custom_sets xs = custom_sets rows"
    if "map RowRepset (set_named ''default'' # xs) = map RowRepset rows" for rows xs
    using that by metis
  have custom: "custom_sets (xs @ [s]) = add_mset s (custom_sets xs)" if "rs_name s \<notin> builtinSets" for xs s
    using that by (simp add: custom_sets_def)
  have empty: "custom_sets [] = {#}" by (simp add: custom_sets_def)
  show ?thesis
    unfolding repset_server_def
  proof (intro allI conjI impI)
    fix w rows
    assume "fst (repset_env False (PoolQuery c Repsets) w) = RRows (map RowRepset rows) None"
    then have "map RowRepset (set_named ''default'' # db_sets w) = map RowRepset rows"
      by (simp add: repset_env_simps del: list.map)
    from read[OF this] show "fst (custom_sets (db_sets w), mset (db_tables w)) = custom_sets rows" by simp
  next
    fix w rows
    assume "fst (repset_env False (PoolQuery c RepsetTables) w) = RRows (map RowTable rows) None"
    then have "map RowTable (listed_tables w) = map RowTable rows"
      by (simp add: repset_env_simps del: list.map)
    then have "listed_tables w = rows" unfolding tables .
    then show "mset rows = listed sample_kind (snd (custom_sets (db_sets w), mset (db_tables w)))"
      by (auto simp: listed_def)
  qed (simp_all add: quiet repset_env_simps custom empty)
qed

lemma repset_env_run:
  "\<exists>h w. run repset_env False (resetNode (Some 0) (plain_node ''n1'') ''app'' ''pgedge'') [] repset_before = (Returned None, h, w)"
  by (simp add: run_steps run_bind resetNode_def backupRepsets_def recreate_spock_def restoreRepsets_def read_rows_def
      scan_repset_def scan_table_def exec_logged_def scan_defs scanned_def repset_env_simps builtinSets_def set_named_def
      table_in_def sample_kind_def)

theorem reset_round_trip_witness:
  "case run repset_env False (resetNode (Some 0) (plain_node ''n1'') ''app'' ''pgedge'') [] repset_before of
     (res, h, w) \<Rightarrow> res = Returned None \<and> (custom_sets (db_sets w), mset (db_tables w)) =
       (custom_sets [set_named ''audit''], mset [table_in ''audit'' ''public.t''])"
proof -
  obtain h w where r: "run repset_env False (resetNode (Some 0) (plain_node ''n1'') ''app'' ''pgedge'') [] repset_before = (Returned None, h, w)"
    using repset_env_run by blast
  have "fst (repset_env False (PoolQueryRow (Some 0) SpockExtension) repset_before) = RBool True"
    by (simp add: repset_env_simps)
  from reset_round_trip[OF repset_env_server this r] r show ?thesis
    by (simp add: listed_def table_in_def sample_kind_def)
qed

end
