(* ===== verification/Reconcile.thy ===== *)
theory Reconcile
  imports Actual Acyclic Results
begin

text \<open>
  \<open>Reconcile\<close> of \<open>internal/resource/reconciler.go\<close> and the \<open>SpockReconciler\<close> of
  \<open>internal/spock/reconciler.go\<close>: compute what is desired, refresh what exists, plan, execute.
  A Go interface is a record of its operations; the laws \<open>Reconcile\<close> relies on are the locale
  \<open>reconciler_laws\<close>, which the \<open>SpockReconciler\<close> satisfies.
\<close>

subsection \<open>The interface and the function\<close>

text \<open>\<open>rc_RefreshActual\<close> is None where it panics.\<close>

record ('o, 'r, 'w) reconciler =
  rc_ComputeDesired :: "'o list \<Rightarrow> 'o list \<times> 'r resource_map"
  rc_RefreshActual :: "'r resource_map \<Rightarrow> 'o list \<Rightarrow> 'w \<Rightarrow> ((goerror + 'r resource_map) \<times> 'o list \<times> 'w) option"

text \<open>
  The states \<open>Reconcile\<close> can be in from \<open>Execute\<close> on: an error of \<open>RefreshActual\<close> is its
  result, and with a plan it is in a state of the execution of the plan. \<open>h\<close> is the heap before.
\<close>

inductive Reconcile :: "ident order \<Rightarrow> ('q, 's, 'o, 'r) methods \<Rightarrow> ('w, 'q, 's) env \<Rightarrow> ('o, 'r, 'w) reconciler
    \<Rightarrow> 'o list \<Rightarrow> 'w \<Rightarrow> ('q, 's, 'o, 'w, 'r) exec_state \<Rightarrow> bool" for ord vt env r h w where
  refresh_panics: "rc_ComputeDesired r h = (h0, desired) \<Longrightarrow> rc_RefreshActual r desired h0 w = None \<Longrightarrow>
    Reconcile ord vt env r h w Crashed"
| refresh_fails: "rc_ComputeDesired r h = (h0, desired) \<Longrightarrow>
    rc_RefreshActual r desired h0 w = Some (Inl err, h1, w1) \<Longrightarrow>
    Reconcile ord vt env r h w (Finished (Some err) h1 w1 [])"
| executes: "rc_ComputeDesired r h = (h0, desired) \<Longrightarrow>
    rc_RefreshActual r desired h0 w = Some (Inr actual, h1, w1) \<Longrightarrow>
    plan ord vt h1 actual desired = Some phases \<Longrightarrow>
    exec_reaches vt env (exec_start vt phases h1 w1) s \<Longrightarrow>
    Reconcile ord vt env r h w s"

inductive_cases Reconcile_FinishedE: "Reconcile ord vt env r h w (Finished err h' w' log)"
inductive_cases Reconcile_ExecutingE: "Reconcile ord vt env r h w (Executing n phase rest g log)"

subsection \<open>The \<open>SpockReconciler\<close>\<close>

record SpockReconciler =
  sr_cfg :: config
  sr_conns :: conns

definition NewReconciler :: "config \<Rightarrow> conns \<Rightarrow> SpockReconciler" where
  "NewReconciler cfg conns = \<lparr>sr_cfg = cfg, sr_conns = conns\<rparr>"

definition spock_ComputeDesired :: "(string list \<Rightarrow> string list) \<Rightarrow> SpockReconciler \<Rightarrow> heap \<Rightarrow> resources" where
  "spock_ComputeDesired sord r h = ComputeDesired sord (sr_cfg r) (sr_conns r) h"

definition spock_RefreshActual :: "ident order \<Rightarrow> ('w, request, reply) env \<Rightarrow> SpockReconciler \<Rightarrow> ref resource_map
    \<Rightarrow> heap \<Rightarrow> 'w \<Rightarrow> ((goerror + ref resource_map) \<times> heap \<times> 'w) option" where
  "spock_RefreshActual rord env r desired h w = RefreshActual rord env (sr_cfg r) (sr_conns r) desired h w"

text \<open>\<open>var _ resource.Reconciler = (*SpockReconciler)(nil)\<close>\<close>

definition as_reconciler :: "(string list \<Rightarrow> string list) \<Rightarrow> ident order \<Rightarrow> ('w, request, reply) env \<Rightarrow> SpockReconciler
    \<Rightarrow> (object, ref, 'w) reconciler" where
  "as_reconciler sord rord env r =
     \<lparr>rc_ComputeDesired = spock_ComputeDesired sord r, rc_RefreshActual = spock_RefreshActual rord env r\<rparr>"

abbreviation spock_reconciler where
  "spock_reconciler sord rord env cfg conns \<equiv> as_reconciler sord rord env (NewReconciler cfg conns)"

lemma spock_reconciler_simps [simp]:
  "rc_ComputeDesired (spock_reconciler sord rord env cfg conns) = ComputeDesired sord cfg conns"
  "rc_RefreshActual (spock_reconciler sord rord env cfg conns) = RefreshActual rord env cfg conns"
  by (simp_all add: fun_eq_iff as_reconciler_def spock_ComputeDesired_def spock_RefreshActual_def NewReconciler_def)

subsection \<open>The log of a complete execution\<close>

lemma log_mset:
  assumes "\<forall>m e res. (m, e, res) \<in> set log \<longrightarrow> m < n"
  shows "mset (map (\<lambda>x. fst (snd x)) log) = (\<Sum>m<n. mset (returned_in log m))"
  using assms
proof (induction log rule: rev_induct)
  case (snoc x log)
  obtain k e res where x: "x = (k, e, res)" using prod_cases3 by blast
  with snoc.prems have k: "k < n" by auto
  have "(\<Sum>m<n. mset (returned_in (log @ [(k, e, res)]) m)) =
      (\<Sum>m<n. mset (returned_in log m) + (if k = m then {#e#} else {#}))"
    by (rule sum.cong) simp_all
  also have "\<dots> = (\<Sum>m<n. mset (returned_in log m)) + {#e#}"
    using k by (simp add: sum.distrib sum.delta')
  finally show ?case using snoc x by auto
qed (simp add: returned_in_def)

lemma complete_log:
  assumes "\<forall>m<length phases. mset (returned_in log m) = mset (phases ! m)"
    and "\<forall>m e res. (m, e, res) \<in> set log \<longrightarrow> m < length phases \<and> res = None"
  shows "mset (map (\<lambda>x. fst (snd x)) log) = mset (concat phases)"
proof -
  have "mset (map (\<lambda>x. fst (snd x)) log) = (\<Sum>m<length phases. mset (returned_in log m))"
    by (rule log_mset) (use assms(2) in blast)
  also have "\<dots> = (\<Sum>m<length phases. mset (phases ! m))"
    by (rule sum.cong) (use assms(1) in auto)
  also have "\<dots> = mset (concat phases)"
    by (simp add: mset_concat sum_list_sum_nth atLeast0LessThan)
  finally show ?thesis .
qed

subsection \<open>What \<open>Reconcile\<close> relies on\<close>

text \<open>How often an action was taken for an identifier.\<close>

definition taken :: "('r event \<Rightarrow> ident) \<Rightarrow> 'r exec_log \<Rightarrow> action \<Rightarrow> ident \<Rightarrow> nat" where
  "taken ident_of log a i = length (filter (\<lambda>x. case x of (n, e, res) \<Rightarrow> Action e = a \<and> ident_of e = i \<and> res = None) log)"

locale reconciler_laws = resource_methods vt keep address peeks
  for vt :: "('q, 's, 'o, 'r) methods" and keep address peeks +
  fixes rc :: "('o, 'r, 'w) reconciler"
  assumes desired_keyed: "rc_ComputeDesired rc [] = (h, m) \<Longrightarrow> well_keyed vt h m"
    and refresh_keyed: "rc_ComputeDesired rc [] = (h, m) \<Longrightarrow> rc_RefreshActual rc m h w = Some (Inr actual, h', w') \<Longrightarrow>
        well_keyed vt h' m"
begin

lemma nil_means_converged:
  assumes "Reconcile ord vt env rc [] w (Finished None h' w' log)" and "go_order ord"
  obtains h0 desired actual h1 w1 phases where
    "rc_ComputeDesired rc [] = (h0, desired)" "rc_RefreshActual rc desired h0 w = Some (Inr actual, h1, w1)"
    "plan ord vt h1 actual desired = Some phases"
    "mset (map (\<lambda>x. fst (snd x)) log) = mset (concat phases)" "\<forall>(m, e, res)\<in>set log. res = None"
    "\<And>a i. a \<noteq> ActionDelete \<Longrightarrow> taken (event_id vt h1) log a i = (if planned vt h1 actual desired a i then 1 else 0)"
  using assms(1)
proof (rule Reconcile_FinishedE)
  fix h0 desired actual h1 w1 phases
  assume compute: "rc_ComputeDesired rc [] = (h0, desired)"
    and refresh: "rc_RefreshActual rc desired h0 w = Some (Inr actual, h1, w1)"
    and plan: "plan ord vt h1 actual desired = Some phases"
    and run: "exec_reaches vt env (exec_start vt phases h1 w1) (Finished None h' w' log)"
  from exec_inv_reached[OF run] have inv: "\<forall>m<length phases. mset (returned_in log m) = mset (phases ! m)"
    "\<forall>m e res. (m, e, res) \<in> set log \<longrightarrow> m < length phases \<and> res = None" by simp_all
  from complete_log[OF inv] have log: "mset (map (\<lambda>x. fst (snd x)) log) = mset (concat phases)" .
  have none: "\<forall>(m, e, res)\<in>set log. res = None" using inv(2) by auto
  have "taken (event_id vt h1) log a i = (if planned vt h1 actual desired a i then 1 else 0)"
    if a: "a \<noteq> ActionDelete" for a i
  proof -
    have "taken (event_id vt h1) log a i =
        length (filter (\<lambda>e. Action e = a \<and> event_id vt h1 e = i) (map (\<lambda>x. fst (snd x)) log))"
      using none unfolding taken_def by (induction log) auto
    also have "\<dots> = length (filter (\<lambda>e. Action e = a \<and> event_id vt h1 e = i) (concat phases))"
      by (rule filter_length_mset[OF log])
    also have "\<dots> = (if planned vt h1 actual desired a i then 1 else 0)"
      by (rule plan_counts_desired[OF assms(2) refresh_keyed[OF compute refresh] plan a])
    finally show ?thesis .
  qed
  with compute refresh plan log none show thesis by (rule that)
qed simp

end

subsection \<open>The \<open>SpockReconciler\<close> satisfies the laws\<close>

lemma same_heap_trans:
  "list_all2 same_identity h h' \<Longrightarrow> list_all2 same_identity h' h'' \<Longrightarrow> list_all2 same_identity h h''"
  by (rule spock.heap_trans)

lemma refresh_desired_keeps:
  "refresh_desired env m ks actual h w = Some (res, h', w') \<Longrightarrow> list_all2 same_identity h h'"
proof (induction ks arbitrary: actual h w)
  case (Cons i ks)
  then obtain err h1 w1 where run: "run env False (Refresh (at_key m i)) h w = (Returned err, h1, w1)"
    and rest: "(case err of Some e \<Rightarrow> Some (Inl (Wrapf (''refresh '' @ Type i @ ''/'' @ ID i) e), h1, w1)
      | None \<Rightarrow> refresh_desired env m ks (if Exists (Status (h1 ! at_key m i)) then put i (at_key m i) actual else actual) h1 w1)
      = Some (res, h', w')"
    by (auto simp: Let_def bind_eq_Some_conv returned_Some)
  have keep: "list_all2 same_identity h h1"
    by (rule spock.run_keep[where r = "at_key m i" and fuel = 0, OF _ run]) simp
  show ?case
  proof (cases err)
    case None
    with rest Cons.IH same_heap_trans[OF keep] show ?thesis by simp
  next
    case (Some e)
    with rest keep show ?thesis by simp
  qed
qed (simp add: spock.heap_refl)

lemma fold_slot_health_keeps: "list_all2 same_identity h (fold (slot_health actual) ks h)"
proof (induction ks arbitrary: h)
  case (Cons k ks)
  have "list_all2 same_identity h (slot_health actual k h)"
  proof (rule list_all2_all_nthI)
    fix r assume "r < length h"
    then show "same_identity (h ! r) (slot_health actual k h ! r)"
      by (simp add: slot_health_nth) (simp add: same_identity_def)
  qed simp
  from same_heap_trans[OF this Cons.IH] show ?case by simp
qed (simp add: spock.heap_refl)

text \<open>Refreshing changes statuses and adds objects at the end, but no identity.\<close>

lemma refresh_actual_refreshed:
  assumes "RefreshActual ord env cfg conns m h w = Some (res, h', w')"
  shows "refreshed h h'"
proof -
  from assms obtain res1 h1 w1 where first: "refresh_desired env m (ord 0 (keys m)) [] h w = Some (res1, h1, w1)"
    and rest: "(case res1 of Inl e \<Rightarrow> Some (Inl e, h1, w1) | Inr actual \<Rightarrow> do {
         (s, w) \<leftarrow> discoverOrphans env cfg conns (h1, actual) w1;
         Some (Inr (snd s), checkSlotHealth (ord 1) (snd s) (fst s), w)
       }) = Some (res, h', w')"
    unfolding RefreshActual_def by (auto simp: bind_eq_Some_conv)
  note keep = refresh_desired_keeps[OF first]
  then have len: "length h1 = length h" by (simp add: list_all2_lengthD)
  show ?thesis
  proof (cases res1)
    case (Inl e)
    with rest keep len show ?thesis by (simp add: refreshed_def)
  next
    case (Inr actual)
    with rest obtain s where disc: "discover_each env cfg conns (Nodes cfg) (h1, actual) w1 = Some (s, w')"
      and h': "h' = checkSlotHealth (ord 1) (snd s) (fst s)"
      by (auto simp: bind_eq_Some_conv discoverOrphans_def)
    from discover_each_grows_some[OF disc] obtain obs where obs: "fst s = h1 @ obs" by (auto simp: grows_def)
    have "list_all2 same_identity (h1 @ obs) h'"
      unfolding h' obs checkSlotHealth_def by (rule fold_slot_health_keeps)
    from list_all2_takeI[OF this, of "length h1"] have "list_all2 same_identity h1 (take (length h1) h')" by simp
    with same_heap_trans[OF keep] len show ?thesis by (simp add: refreshed_def)
  qed
qed

interpretation spock_rec: reconciler_laws "spock_methods fuel" same_identity "\<lambda>r. r" peeks
    "spock_reconciler sord rord env cfg conns" for fuel sord rord env cfg conns
  by unfold_locales (auto intro: desired_keyed(1) refreshed_keyed refresh_actual_refreshed)

subsection \<open>A result of nil\<close>

text \<open>What a complete execution leaves of the desired resources: each existed or was created.\<close>

lemma created_or_there:
  assumes "Reconcile ord (spock_methods fuel) env (spock_reconciler sord rord env cfg conns) [] w (Finished None h' w' log)"
    and "go_order ord"
  shows "\<exists>h0 desired actual h1 w1. ComputeDesired sord cfg conns [] = (h0, desired) \<and>
      RefreshActual rord env cfg conns desired h0 w = Some (Inr actual, h1, w1) \<and>
      list_all (\<lambda>(n, e, res). res = None) log \<and>
      (\<forall>i. taken (\<lambda>e. Identifier (h1 ! Resource e)) log ActionCreate i
             = (if planned (spock_methods fuel) h1 actual desired ActionCreate i then 1 else 0) \<and>
           taken (\<lambda>e. Identifier (h1 ! Resource e)) log ActionUpdate i
             = (if planned (spock_methods fuel) h1 actual desired ActionUpdate i then 1 else 0)) \<and>
      list_all (\<lambda>i. has_key actual i \<or> taken (\<lambda>e. Identifier (h1 ! Resource e)) log ActionCreate i = 1) (keys desired)"
proof (rule spock_rec.nil_means_converged[OF assms])
  fix h0 desired actual h1 w1 phases
  assume compute: "rc_ComputeDesired (spock_reconciler sord rord env cfg conns) [] = (h0, desired)"
    and refresh: "rc_RefreshActual (spock_reconciler sord rord env cfg conns) desired h0 w = Some (Inr actual, h1, w1)"
    and none: "\<forall>(m, e, res)\<in>set log. res = None"
    and taken: "\<And>a i. a \<noteq> ActionDelete \<Longrightarrow> taken (event_id (spock_methods fuel) h1) log a i
      = (if planned (spock_methods fuel) h1 actual desired a i then 1 else 0)"
  have creates: "taken (\<lambda>e. Identifier (h1 ! Resource e)) log ActionCreate i
      = (if planned (spock_methods fuel) h1 actual desired ActionCreate i then 1 else 0)" for i
    using taken[of ActionCreate i] by simp
  have updates: "taken (\<lambda>e. Identifier (h1 ! Resource e)) log ActionUpdate i
      = (if planned (spock_methods fuel) h1 actual desired ActionUpdate i then 1 else 0)" for i
    using taken[of ActionUpdate i] by simp
  have "list_all (\<lambda>i. has_key actual i \<or> taken (\<lambda>e. Identifier (h1 ! Resource e)) log ActionCreate i = 1) (keys desired)"
    unfolding list_all_iff
  proof
    fix i assume "i \<in> set (keys desired)"
    then have "has_key desired i" by (simp only: has_key_iff)
    then show "has_key actual i \<or> taken (\<lambda>e. Identifier (h1 ! Resource e)) log ActionCreate i = 1"
      unfolding creates by simp
  qed
  moreover have "list_all (\<lambda>(n, e, res). res = None) log" using none by (simp add: list_all_iff)
  moreover have "ComputeDesired sord cfg conns [] = (h0, desired)"
    "RefreshActual rord env cfg conns desired h0 w = Some (Inr actual, h1, w1)"
    using compute refresh by simp_all
  ultimately show ?thesis using creates updates by blast
qed

text \<open>
  Claim C4: When \<open>Reconcile\<close> returns \<open>nil\<close>, in whatever interleaving, everything it planned has
  been done: it had computed and refreshed without an error, no goroutine returned one, every create
  and every update that the comparison of the two maps calls for was made exactly once and no other,
  and every desired resource either existed or was created.
\<close>

theorem reconcile_nil_converged:
  assumes "Reconcile ord (spock_methods fuel) env (spock_reconciler sord rord env cfg conns) [] w (Finished None h' w' log)"
    and "go_order ord"
  shows "\<exists>h0 desired actual h1 w1. ComputeDesired sord cfg conns [] = (h0, desired) \<and>
      RefreshActual rord env cfg conns desired h0 w = Some (Inr actual, h1, w1) \<and>
      list_all (\<lambda>(n, e, res). res = None) log \<and>
      (\<forall>i. taken (\<lambda>e. Identifier (h1 ! Resource e)) log ActionCreate i
             = (if planned (spock_methods fuel) h1 actual desired ActionCreate i then 1 else 0) \<and>
           taken (\<lambda>e. Identifier (h1 ! Resource e)) log ActionUpdate i
             = (if planned (spock_methods fuel) h1 actual desired ActionUpdate i then 1 else 0)) \<and>
      list_all (\<lambda>i. has_key actual i \<or> taken (\<lambda>e. Identifier (h1 ! Resource e)) log ActionCreate i = 1) (keys desired)"
  by (rule created_or_there[OF assms])

subsection \<open>A healthy system is left alone\<close>

lemma exec_reaches_finished: "exec_reaches vt env s t \<Longrightarrow> s = Finished err h w log \<Longrightarrow> t = Finished err h w log"
proof (induction rule: exec_reaches.induct)
  case (more s t u)
  then show ?case by auto
qed

text \<open>Without a node to populate, the desired resources are users, nodes, slots and subscriptions.\<close>

lemma desired_without_new:
  assumes "new_nodes cfg = []" and "\<And>ks. set (ord ks) = set ks" and "ob \<in> set (desired_objects ord cfg conns base)"
  shows "(\<exists>u. ob = OUser u) \<or> (\<exists>n. ob = ONode n) \<or> (\<exists>s. ob = OSlot s) \<or> (\<exists>s. ob = OSub s)"
  using assms(3,2)
proof (cases rule: in_desired)
  case (base n)
  then show ?thesis by (auto simp: base_objects_def)
next
  case (pair a b names)
  then show ?thesis by (auto simp: pair_objects_def split: if_splits)
qed (use assms(1) in simp_all)

lemma no_new_sources: "new_nodes cfg = [] \<Longrightarrow> sources_ok cfg"
  using has_new_node[of cfg] unfolding sources_ok_def list_all_iff by auto

lemma desired_refs: "ComputeDesired ord cfg conns [] = (h, m) \<Longrightarrow> \<forall>(i, r)\<in>set m. r < length h"
  using desired_well_formed[of ord cfg conns] by (auto simp: well_formed_def)

definition all_exist :: "('w, request, reply) env \<Rightarrow> bool" where
  "all_exist env \<longleftrightarrow> (\<forall>c q w. fst (env False (PoolQueryRow c q) w) = RBool True) \<and> (\<forall>q w. fst (env False q w) \<noteq> RPanic)"

lemma reported_exists:
  assumes "all_exist env" and "answers env qs" and "reported ob qs st"
    and "(\<exists>u. ob = OUser u) \<or> (\<exists>n. ob = ONode n) \<or> (\<exists>s. ob = OSlot s) \<or> (\<exists>s. ob = OSub s)"
  shows "st = existing True"
  using assms by (auto simp: answers_def all_exist_def)

lemma in_ordered_keys: "go_order ord \<Longrightarrow> i \<in> set (ord n (keys m)) \<Longrightarrow> has_key m i"
  unfolding has_key_iff go_order_set .

lemma plan_nothing:
  assumes "\<forall>i. has_key actual i = has_key desired i" and "go_order ord"
    and "\<forall>i. has_key desired i \<longrightarrow> \<not> NeedsRecreate (m_Status vt h (at_key desired i)) \<and> \<not> NeedsUpdate (m_Status vt h (at_key desired i))"
  shows "plan ord vt h actual desired = Some []"
proof -
  have same: "has_key actual i \<longleftrightarrow> has_key desired i" for i using assms(1) ..
  have quiet: "\<not> needs_recreate vt h actual desired i" "\<not> needs_update vt h actual desired i" for i
    unfolding needs_recreate_def needs_update_def same using assms(3)[rule_format, of i] by blast+
  have kept: "\<forall>i\<in>set (ord 0 (keys actual)). \<not> \<not> has_key desired i"
    using in_ordered_keys[OF assms(2), of _ 0 actual] unfolding same by blast
  have there: "\<forall>i\<in>set (ord 1 (keys desired)). \<not> (\<not> has_key actual i \<or> needs_recreate vt h actual desired i)"
    using in_ordered_keys[OF assms(2), of _ 1 desired] quiet unfolding same by blast
  have "plan_deletes ord vt h actual desired = []"
    unfolding plan_deletes_def filter_False[OF kept] using quiet by simp
  moreover have "plan_updates ord vt h actual desired = []"
    unfolding plan_updates_def using quiet by simp
  moreover have "plan_creates ord vt h actual desired = []"
    unfolding plan_creates_def filter_False[OF there] by simp
  ultimately have lists: "plan_deletes ord vt h actual desired = []" "plan_updates ord vt h actual desired = []"
    "plan_creates ord vt h actual desired = []" by blast+
  show ?thesis
  proof (rule plan_sections[OF assms(2), of vt h actual desired])
    fix ds us cs
    assume "plan ord vt h actual desired = Some (ds @ us @ cs)"
      "topo_sort (\<lambda>n. ord (3 * n + 2)) vt h (plan_deletes ord vt h actual desired) True = Some ds"
      "topo_sort (\<lambda>n. ord (3 * n + 3)) vt h (plan_updates ord vt h actual desired) False = Some us"
      "topo_sort (\<lambda>n. ord (3 * n + 4)) vt h (plan_creates ord vt h actual desired) False = Some cs"
    then show ?thesis unfolding lists topo_sort_Nil by simp
  qed
qed

lemma healthy_refresh:
  assumes refresh: "RefreshActual rord env cfg conns m h0 w = Some (Inr actual, h1, w1)"
    and compute: "ComputeDesired sord cfg conns [] = (h0, m)"
    and cfg: "new_nodes cfg = []" and env: "all_exist env"
    and ord: "go_order rord" "\<And>ks. set (sord ks) = set ks"
    and cats: "catalogs env (map Name (Nodes cfg)) orphans slots"
    and none: "\<forall>n\<in>set (Nodes cfg). orphan_ids cfg conns orphans slots n = {}"
  shows "has_key actual i = has_key m i"
    and "map_of m i = Some r \<Longrightarrow> Status (h1 ! r) = existing True"
proof -
  note keyed = desired_keyed(1)[OF compute, of 0]
  have status: "\<exists>b. Status (h1 ! r) = (if b \<and> broken actual i (h0 ! r) then slot_missing else existing True)"
    if "map_of m i = Some r" for i r
  proof -
    have "h0 ! r \<in> set (desired_objects sord cfg conns 0)" using desired_at[OF compute that] by blast
    note kind = desired_without_new[OF cfg ord(2) this]
    from actual_status[OF refresh keyed ord(1) map_of_SomeD[OF that]] obtain qs st where
      st: "answers env qs" "reported (h0 ! r) qs st" and
      h1: "h1 ! r = set_status (if map_of actual i = Some r \<and> broken actual i (h0 ! r) then slot_missing else st) (h0 ! r)"
      by blast
    from reported_exists[OF env st kind] h1 show ?thesis by auto
  qed
  have exist: "Exists (Status (h1 ! r))" if "map_of m i = Some r" for i r
    using status[OF that] by (auto simp: slot_missing_def existing_def split: if_splits)
  have "set (keys actual) = {i \<in> set (keys m). Exists (Status (h1 ! at_key m i))}"
    using actual_keys[OF refresh keyed ord(1) cats] none by simp
  also have "\<dots> = set (keys m)"
  proof (intro equalityI subsetI)
    fix i assume i: "i \<in> set (keys m)"
    then obtain r where "map_of m i = Some r" using keys_lookup[of i m] by auto
    with exist[OF this] i show "i \<in> {i \<in> set (keys m). Exists (Status (h1 ! at_key m i))}" by simp
  qed simp
  finally have keys: "set (keys actual) = set (keys m)" .
  show same: "has_key actual i = has_key m i" for i unfolding has_key_iff keys ..
  show "Status (h1 ! r) = existing True" if r: "map_of m i = Some r"
  proof -
    have ob: "h0 ! r \<in> set (desired_objects sord cfg conns 0)" using desired_at[OF compute r] by blast
    have "\<not> broken actual i (h0 ! r)"
    proof (cases "h0 ! r")
      case (OSub s)
      have "mk_id ResourceTypeReplicationSlot (replicationSlotName s) \<in> set (Dependencies (h0 ! r))"
        by (simp add: OSub)
      from desired_closed[OF ord(2) no_new_sources[OF cfg] ob this]
      have "mk_id ResourceTypeReplicationSlot (replicationSlotName s) \<in> set (keys m)"
        using desired_keys[of sord cfg conns] compute by simp
      then have "has_key actual (mk_id ResourceTypeReplicationSlot (replicationSlotName s))"
        unfolding has_key_iff keys .
      then show ?thesis unfolding OSub broken_def by simp
    qed (simp_all add: broken_def)
    with status[OF r] show ?thesis by auto
  qed
qed

text \<open>
  Claim C20: Reconciling is idempotent: when every query finds its resource and the catalogs hold
  nothing beyond the configuration, and no node is to be populated, \<open>Reconcile\<close> returns \<open>nil\<close>
  without running a single create, update or delete, and no other result is possible.
\<close>

theorem reconcile_healthy_noop:
  assumes "new_nodes cfg = []" and "all_exist env"
    and "go_order ord" and "go_order rord" and "\<And>ks. set (sord ks) = set ks"
    and "catalogs env (map Name (Nodes cfg)) orphans slots"
    and "\<forall>n\<in>set (Nodes cfg). orphan_ids cfg conns orphans slots n = {}"
  shows "\<exists>h' w'. \<forall>s. Reconcile ord (spock_methods fuel) env (spock_reconciler sord rord env cfg conns) [] w s
    \<longleftrightarrow> s = Finished None h' w' []"
proof -
  let ?r = "spock_reconciler sord rord env cfg conns"
  obtain h0 m where compute: "ComputeDesired sord cfg conns [] = (h0, m)" by fastforce
  note refs = desired_refs[OF compute]
  have answered: "inspectable env" and "\<forall>q w. fst (env False q w) \<noteq> RPanic"
    using assms(2) by (auto simp: all_exist_def inspectable_def)
  from refresh_actual_runs[where env = env and m = m and h = h0 and cfg = cfg and conns = conns and ord = rord and w = w,
      OF this(2) refs assms(4)] answered
  obtain res h1 w1 where refresh': "RefreshActual rord env cfg conns m h0 w = Some (res, h1, w1)" "\<not> isl res" by blast
  then obtain actual where refresh: "RefreshActual rord env cfg conns m h0 w = Some (Inr actual, h1, w1)"
    by (cases res) simp_all
  note healthy = healthy_refresh[OF refresh compute assms(1,2,4,5) assms(6,7)]
  have plan: "plan ord (spock_methods fuel) h1 actual m = Some []"
  proof (rule plan_nothing[OF _ assms(3)])
    show "\<forall>i. has_key actual i = has_key m i" using healthy(1) by blast
    show "\<forall>i. has_key m i \<longrightarrow> \<not> NeedsRecreate (m_Status (spock_methods fuel) h1 (at_key m i))
        \<and> \<not> NeedsUpdate (m_Status (spock_methods fuel) h1 (at_key m i))"
    proof (intro allI impI)
      fix i assume "has_key m i"
      then obtain r where r: "map_of m i = Some r" by blast
      show "\<not> NeedsRecreate (m_Status (spock_methods fuel) h1 (at_key m i))
        \<and> \<not> NeedsUpdate (m_Status (spock_methods fuel) h1 (at_key m i))"
        using healthy(2)[OF r] r by (simp add: existing_def)
    qed
  qed
  have "Reconcile ord (spock_methods fuel) env ?r [] w s \<longleftrightarrow> s = Finished None h1 w1 []" for s
  proof
    assume "s = Finished None h1 w1 []"
    then have "exec_reaches (spock_methods fuel) env (exec_start (spock_methods fuel) [] h1 w1) s"
      by (simp add: exec_start_def exec_reaches.here)
    note run = this
    show "Reconcile ord (spock_methods fuel) env ?r [] w s"
      by (rule Reconcile.executes[OF _ _ plan run]) (unfold spock_reconciler_simps, rule compute, rule refresh)
  next
    assume "Reconcile ord (spock_methods fuel) env ?r [] w s"
    then show "s = Finished None h1 w1 []"
    proof cases
      case (executes h0' m' actual' h1' w1' phases)
      from executes(1) have "h0' = h0" "m' = m" unfolding spock_reconciler_simps compute by simp_all
      from executes(2)[unfolded spock_reconciler_simps this refresh]
      have "actual' = actual" "h1' = h1" "w1' = w1" by simp_all
      from executes(3)[unfolded this \<open>m' = m\<close> plan] have "phases = []" by simp
      from executes(4)[unfolded this \<open>h1' = h1\<close> \<open>w1' = w1\<close> exec_start_def list.case] show ?thesis
        by (rule exec_reaches_finished) (rule refl)
    next
      case (refresh_panics h0' m')
      from refresh_panics(2) have "h0' = h0" "m' = m" unfolding spock_reconciler_simps compute by simp_all
      from refresh_panics(3)[unfolded spock_reconciler_simps this refresh] show ?thesis by simp
    next
      case (refresh_fails h0' m' err h1' w1')
      from refresh_fails(2) have "h0' = h0" "m' = m" unfolding spock_reconciler_simps compute by simp_all
      from refresh_fails(3)[unfolded spock_reconciler_simps this refresh] show ?thesis by simp
    qed
  qed
  then show ?thesis by blast
qed

text \<open>Two nodes with everything in place.\<close>

definition steady_env :: "(unit, request, reply) env" where
  "steady_env c q w = ((case q of
      PoolQueryRow k st \<Rightarrow> RBool True
    | PoolQuery k (OrphanNodes ns) \<Rightarrow> RRows [] None
    | PoolQuery k SpockSlots \<Rightarrow> RRows [RowText (spock_slot_name ''app'' ''n1'' ''n2''), RowText (spock_slot_name ''app'' ''n2'' ''n1'')] None
    | _ \<Rightarrow> ROk), w)"

abbreviation steady_reconciler :: "(object, ref, unit) reconciler" where
  "steady_reconciler \<equiv> spock_reconciler (\<lambda>ks. ks) (\<lambda>n ks. ks) steady_env survivors survivors_conns"

theorem reconcile_healthy_noop_witness:
  "\<exists>h' w'. \<forall>s. Reconcile (\<lambda>n ks. ks) (spock_methods 0) steady_env steady_reconciler [] () s \<longleftrightarrow> s = Finished None h' w' []"
proof (rule reconcile_healthy_noop[OF _ _ go_order_id go_order_id refl])
  show "new_nodes survivors = []" by code_simp
  show "all_exist steady_env" by (simp add: all_exist_def steady_env_def split: request.split stmt.split)
  show "catalogs steady_env (map Name (Nodes survivors)) (\<lambda>c. [])
      (\<lambda>c. [RowText (spock_slot_name ''app'' ''n1'' ''n2''), RowText (spock_slot_name ''app'' ''n2'' ''n1'')])"
    by (simp add: catalogs_def steady_env_def)
  have "get_or False (expected_slots survivors) (spock_slot_name ''app'' ''n1'' ''n2'')"
    "get_or False (expected_slots survivors) (spock_slot_name ''app'' ''n2'' ''n1'')"
    by code_simp+
  then show "\<forall>n\<in>set (Nodes survivors). orphan_ids survivors survivors_conns (\<lambda>c. [])
      (\<lambda>c. [RowText (spock_slot_name ''app'' ''n1'' ''n2''), RowText (spock_slot_name ''app'' ''n2'' ''n1'')]) n = {}"
    by (simp add: orphan_ids_def orphan_slot_ids_def)
qed

subsection \<open>One of the executions, computed\<close>

text \<open>
  A device to exhibit executions, not a model of code: with the phases run by \<open>execute_seq\<close>, that is in one
  of the interleavings.
\<close>

definition reconcile_seq :: "ident order \<Rightarrow> ('q, 's, 'o, 'r) methods \<Rightarrow> ('w, 'q, 's) env \<Rightarrow> ('o, 'r, 'w) reconciler
    \<Rightarrow> 'o list \<Rightarrow> 'w \<Rightarrow> (goerror option \<times> 'o list \<times> 'w) option" where
  "reconcile_seq ord vt env r h w =
     (case rc_ComputeDesired r h of (h, desired) \<Rightarrow> do {
        (res, h, w) \<leftarrow> rc_RefreshActual r desired h w;
        case res of
          Inl err \<Rightarrow> Some (Some err, h, w)
        | Inr actual \<Rightarrow> do {
            phases \<leftarrow> plan ord vt h actual desired;
            execute_seq vt env 0 phases h w
          }
      })"

lemma execute_seq_reached:
  "execute_seq vt env 0 phases h w = Some (err, h', w') \<Longrightarrow>
   \<exists>log. exec_reaches vt env (exec_start vt phases h w) (Finished err h' w' log)"
  using execute_seq_reaches[of vt env 0 "hd phases" "tl phases" h w err h' w' "[]"]
  by (cases phases) (auto simp: exec_start_def intro: exec_reaches.here)

text \<open>What \<open>reconcile_seq\<close> computes is one of the results of \<open>Reconcile\<close>.\<close>

lemma reconcile_seq_refines:
  assumes "reconcile_seq ord vt env r h w = Some (err, h', w')"
  shows "\<exists>log. Reconcile ord vt env r h w (Finished err h' w' log)"
proof -
  obtain h0 m where compute: "rc_ComputeDesired r h = (h0, m)" by fastforce
  with assms obtain res h1 w1 where refresh: "rc_RefreshActual r m h0 w = Some (res, h1, w1)"
    and rest: "(case res of Inl err \<Rightarrow> Some (Some err, h1, w1)
      | Inr actual \<Rightarrow> do { phases \<leftarrow> plan ord vt h1 actual m; execute_seq vt env 0 phases h1 w1 }) = Some (err, h', w')"
    by (auto simp: reconcile_seq_def bind_eq_Some_conv)
  show ?thesis
  proof (cases res)
    case (Inl e)
    with Reconcile.refresh_fails[OF compute refresh[unfolded Inl], of ord vt env] rest show ?thesis by auto
  next
    case (Inr actual)
    with rest obtain phases where phases: "plan ord vt h1 actual m = Some phases"
      "execute_seq vt env 0 phases h1 w1 = Some (err, h', w')" by (auto simp: bind_eq_Some_conv)
    from execute_seq_reached[OF phases(2)] obtain log where
      "exec_reaches vt env (exec_start vt phases h1 w1) (Finished err h' w' log)" ..
    from Reconcile.executes[OF compute refresh[unfolded Inr] phases(1) this] show ?thesis ..
  qed
qed

text \<open>One node, on which neither the user nor the Spock node exist yet.\<close>

definition fresh_env :: "(nat, request, reply) env" where
  "fresh_env c q w = ((case q of
      PoolQueryRow k st \<Rightarrow> RBool False
    | TxQueryRow t st \<Rightarrow> RBool False
    | PoolQuery k st \<Rightarrow> RRows [] None
    | Begin k \<Rightarrow> RTx w
    | _ \<Rightarrow> ROk), Suc w)"

abbreviation fresh_result where
  "fresh_result \<equiv> reconcile_seq (\<lambda>n ks. ks) (spock_methods 0) fresh_env
     (spock_reconciler (\<lambda>ks. ks) (\<lambda>n ks. ks) fresh_env (sample_config [plain_node ''n1'']) [(''n1'', 0)]) [] 0"

lemma fresh_nil: "map_option fst fresh_result = Some None"
  by code_simp

theorem reconcile_nil_converged_witness:
  "let r = spock_reconciler (\<lambda>ks. ks) (\<lambda>n ks. ks) fresh_env (sample_config [plain_node ''n1'']) [(''n1'', 0)] in
   \<exists>h' w' log (actual :: ref resource_map) h1. Reconcile (\<lambda>n ks. ks) (spock_methods 0) fresh_env r [] 0 (Finished None h' w' log) \<and>
     list_all (\<lambda>i. has_key actual i \<or> taken (\<lambda>e. Identifier (h1 ! Resource e)) log ActionCreate i = 1)
       (keys (snd (rc_ComputeDesired r [])))"
proof -
  obtain h' w' where "fresh_result = Some (None, h', w')" using fresh_nil by fastforce
  from reconcile_seq_refines[OF this] obtain log where
    run: "Reconcile (\<lambda>n ks. ks) (spock_methods 0) fresh_env (spock_reconciler (\<lambda>ks. ks) (\<lambda>n ks. ks) fresh_env
      (sample_config [plain_node ''n1'']) [(''n1'', 0)]) [] 0 (Finished None h' w' log)" ..
  from reconcile_nil_converged[OF run go_order_id] obtain h0 desired h1 and actual :: "ref resource_map" where
    "ComputeDesired (\<lambda>ks. ks) (sample_config [plain_node ''n1'']) [(''n1'', 0)] [] = (h0, desired)"
    "list_all (\<lambda>i. has_key actual i \<or> taken (\<lambda>e. Identifier (h1 ! Resource e)) log ActionCreate i = 1) (keys desired)"
    by (elim exE conjE) (rule that; assumption)
  then have "list_all (\<lambda>i. has_key actual i \<or> taken (\<lambda>e. Identifier (h1 ! Resource e)) log ActionCreate i = 1)
      (keys (snd (rc_ComputeDesired (spock_reconciler (\<lambda>ks. ks) (\<lambda>n ks. ks) fresh_env
        (sample_config [plain_node ''n1'']) [(''n1'', 0)]) [])))"
    by (simp only: spock_reconciler_simps snd_conv)
  with run show ?thesis unfolding Let_def by (intro exI conjI)
qed

subsection \<open>A lost slot\<close>

lemma in_filter_one:
  assumes "length (filter P xs) = 1"
  obtains x where "x \<in> set xs" "P x"
proof -
  from assms have "filter P xs \<noteq> []" by auto
  with that show thesis by (auto simp: filter_empty_conv)
qed

lemma nth_sections: "e \<in> set (concat phases) \<Longrightarrow> \<exists>i<length phases. e \<in> set (phases ! i)"
  by (metis UN_E in_set_conv_nth set_concat)

text \<open>
  Claim C11: A subscription whose slot on the provider is gone is made anew. When \<open>RefreshActual\<close>
  found the subscription but not its slot, the plan has exactly one delete and one create of it, and
  the delete in an earlier phase.
\<close>

theorem lost_slot_recreated:
  assumes "ComputeDesired sord cfg conns [] = (h0, m)"
    and "RefreshActual rord env cfg conns m h0 w = Some (Inr actual, h1, w1)"
    and "go_order rord" and "go_order ord" and "plan ord (spock_methods fuel) h1 actual m = Some phases"
    and "map_of m i = Some r" and "h0 ! r = OSub s" and "map_of actual i = Some r"
    and "\<not> has_key actual (mk_id ResourceTypeReplicationSlot (replicationSlotName s))"
  shows "length (filter (\<lambda>e. Action e = ActionDelete \<and> Identifier (h1 ! Resource e) = i) (concat phases)) = 1
    \<and> length (filter (\<lambda>e. Action e = ActionCreate \<and> Identifier (h1 ! Resource e) = i) (concat phases)) = 1
    \<and> (\<exists>j k. j < k \<and> list_ex (\<lambda>e. Action e = ActionDelete \<and> Identifier (h1 ! Resource e) = i) (phases ! j)
              \<and> list_ex (\<lambda>e. Action e = ActionCreate \<and> Identifier (h1 ! Resource e) = i) (phases ! k))"
proof -
  let ?vt = "spock_methods fuel"
  let ?P = "\<lambda>a e. Action e = a \<and> Identifier (h1 ! Resource e) = i"
  have keyed1: "well_keyed ?vt h1 m"
    by (rule refreshed_keyed[OF assms(1) refresh_actual_refreshed[OF assms(2)]])
  have i: "Identifier (h0 ! r) = i" using desired_at[OF assms(1,6)] by blast
  then have "broken actual i (h0 ! r)" using assms(7,9) by (auto simp: broken_def)
  with actual_status[OF assms(2) desired_keyed(1)[OF assms(1), of 0] assms(3) map_of_SomeD[OF assms(6)]] assms(8)
  have "Status (h1 ! r) = slot_missing" by auto
  with assms(6,8) have need: "needs_recreate ?vt h1 actual m i"
    by (simp add: needs_recreate_def slot_missing_def)
  have del: "i \<in> event_ids ?vt h1 (plan_deletes ord ?vt h1 actual m)"
  proof -
    have "i \<in> set (ord 1 (keys m))" using map_of_in_keys[OF assms(6)] go_order_set[OF assms(4), of 1 "keys m"] by simp
    with need have "mk_event ActionDelete (at_key m i) \<in> set (plan_deletes ord ?vt h1 actual m)"
      by (simp add: plan_deletes_def)
    moreover have "event_id ?vt h1 (mk_event ActionDelete (at_key m i)) = i"
      using well_keyed_at[OF keyed1 map_of_in_keys[OF assms(6)]] by simp
    ultimately show ?thesis by force
  qed
  have "planned ?vt h1 actual m ActionCreate i" using need assms(6) by simp
  with plan_counts_desired[OF assms(4) keyed1 assms(5), of ActionCreate i]
  have once: "length (filter (?P ActionCreate) (concat phases)) = 1" by simp
  from deletes_once[OF assms(4,5) del] have one: "length (filter (?P ActionDelete) (concat phases)) = 1" by simp
  from one obtain e where e: "e \<in> set (concat phases)" "?P ActionDelete e"
    by (rule in_filter_one)
  from once obtain e' where e': "e' \<in> set (concat phases)" "?P ActionCreate e'"
    by (rule in_filter_one)
  from nth_sections[OF e(1)] obtain j where j: "j < length phases" "e \<in> set (phases ! j)" by blast
  from nth_sections[OF e'(1)] obtain k where k: "k < length phases" "e' \<in> set (phases ! k)" by blast
  from actions_in_order[OF assms(4,5) j(1) k(1) j(2) k(2)] e(2) e'(2) have "j < k" by simp
  moreover have "list_ex (?P ActionDelete) (phases ! j)" "list_ex (?P ActionCreate) (phases ! k)"
    using j(2) k(2) e(2) e'(2) by (auto simp: list_ex_iff)
  ultimately show ?thesis using one once by blast
qed

text \<open>Two nodes, of which the first has lost its slot for the second.\<close>

definition lost_env :: "(unit, request, reply) env" where
  "lost_env c q w = ((case q of
      PoolQueryRow k (SlotExists s) \<Rightarrow> RBool (s \<noteq> ''spk_app_n1_sub_n1_n2'')
    | PoolQueryRow k st \<Rightarrow> RBool True
    | _ \<Rightarrow> RRows [] None), w)"

abbreviation lost_refresh where
  "lost_refresh \<equiv> RefreshActual (\<lambda>n ks. ks) lost_env survivors survivors_conns (snd survivors_desired) (fst survivors_desired) ()"

lemma lost_found:
  "case lost_refresh of
     Some (Inr actual, h, w) \<Rightarrow> map_of (snd survivors_desired) (mk_id ResourceTypeSubscription ''sub_n1_n2'') = Some 5
       \<and> map_of actual (mk_id ResourceTypeSubscription ''sub_n1_n2'') = Some 5
       \<and> map_of actual (mk_id ResourceTypeReplicationSlot ''spk_app_n1_sub_n1_n2'') = None
   | _ \<Rightarrow> False"
  "case fst survivors_desired ! 5 of OSub s \<Rightarrow> replicationSlotName s = ''spk_app_n1_sub_n1_n2'' | _ \<Rightarrow> False"
  by code_simp+

theorem lost_slot_recreated_witness:
  "case lost_refresh of
     Some (Inr actual, h, w) \<Rightarrow> (case plan (\<lambda>n ks. ks) (spock_methods 0) h actual (snd survivors_desired) of
         Some phases \<Rightarrow> \<exists>j k. j < k
           \<and> list_ex (\<lambda>e. Action e = ActionDelete \<and> Identifier (h ! Resource e) = mk_id ResourceTypeSubscription ''sub_n1_n2'') (phases ! j)
           \<and> list_ex (\<lambda>e. Action e = ActionCreate \<and> Identifier (h ! Resource e) = mk_id ResourceTypeSubscription ''sub_n1_n2'') (phases ! k)
       | None \<Rightarrow> False)
   | _ \<Rightarrow> False"
proof -
  obtain x where x: "lost_refresh = Some x"
  proof (cases lost_refresh)
    case None
    from lost_found(1)[unfolded None option.case] show ?thesis ..
  qed
  obtain res h w where r: "x = (res, h, w)" by (rule prod_cases3)
  from lost_found(1)[unfolded x r option.case prod.case] obtain actual where "res = Inr actual" by (cases res) simp_all
  with x r have lost: "lost_refresh = Some (Inr actual, h, w)" by simp
  note f = lost_found(1)[unfolded lost option.case prod.case sum.case]
  note found = conjunct1[OF f] conjunct1[OF conjunct2[OF f]] conjunct2[OF conjunct2[OF f]]
  obtain s where s: "fst survivors_desired ! 5 = OSub s" "replicationSlotName s = ''spk_app_n1_sub_n1_n2''"
    using lost_found(2) by (auto split: object.splits)
  have compute: "ComputeDesired (\<lambda>ks. ks) survivors survivors_conns [] = (fst survivors_desired, snd survivors_desired)"
    by (simp add: survivors_desired_def)
  obtain ds us cs where p: "plan (\<lambda>n ks. ks) (spock_methods 0) h actual (snd survivors_desired) = Some (ds @ us @ cs)"
    by (rule plan_sections[OF go_order_id, of "spock_methods 0" h actual "snd survivors_desired"]) (rule that; assumption)
  have "\<not> has_key actual (mk_id ResourceTypeReplicationSlot (replicationSlotName s))"
    unfolding s(2) found(3) by simp
  from lost_slot_recreated[OF compute lost go_order_id go_order_id p found(1) s(1) found(2) this]
  show ?thesis unfolding lost option.case prod.case sum.case p by (elim conjE)
qed

end
