(* ===== verification/Adding.thy ===== *)
theory Adding
  imports Reconcile
begin

text \<open>
  \<open>Reconcile\<close> at work on a new node: the goroutines of a phase never race on the resources, which
  hand values to one another through pointers, and the steps of adding a node end one after the
  other in the order the documentation gives.
\<close>

subsection \<open>No data races\<close>

text \<open>
  The objects that discovery adds point to nothing, and the keys it adds, all of three types, lead to
  them.
\<close>

definition orphan_types :: "string set" where
  "orphan_types = {ResourceTypeNode, ResourceTypeSubscription, ResourceTypeReplicationSlot}"

definition adds_unpointed :: "resources \<Rightarrow> resources \<Rightarrow> bool" where
  "adds_unpointed s s' \<longleftrightarrow> (\<exists>obs. fst s' = fst s @ obs \<and> (\<forall>ob\<in>set obs. pointer ob = None)) \<and>
     (\<forall>i r. map_of (snd s') i = Some r \<longrightarrow> map_of (snd s) i = Some r \<or>
        length (fst s) \<le> r \<and> r < length (fst s') \<and> Type i \<in> orphan_types)"

lemma adds_unpointed_refl: "adds_unpointed s s"
  by (simp add: adds_unpointed_def)

lemma adds_unpointed_trans: "adds_unpointed s s' \<Longrightarrow> adds_unpointed s' s'' \<Longrightarrow> adds_unpointed s s''"
  unfolding adds_unpointed_def
proof (elim conjE exE, intro conjI allI impI)
  fix obs obs' i r
  assume s': "fst s' = fst s @ obs" "\<forall>ob\<in>set obs. pointer ob = None"
    and s'': "fst s'' = fst s' @ obs'" "\<forall>ob\<in>set obs'. pointer ob = None"
  show "\<exists>obs. fst s'' = fst s @ obs \<and> (\<forall>ob\<in>set obs. pointer ob = None)"
    using s' s'' by (intro exI[of _ "obs @ obs'"]) auto
  assume "\<forall>i r. map_of (snd s') i = Some r \<longrightarrow> map_of (snd s) i = Some r \<or>
      length (fst s) \<le> r \<and> r < length (fst s') \<and> Type i \<in> orphan_types"
    "\<forall>i r. map_of (snd s'') i = Some r \<longrightarrow> map_of (snd s') i = Some r \<or>
      length (fst s') \<le> r \<and> r < length (fst s'') \<and> Type i \<in> orphan_types"
    "map_of (snd s'') i = Some r"
  moreover have "length (fst s) \<le> length (fst s')" "length (fst s') \<le> length (fst s'')" using s' s'' by simp_all
  ultimately show "map_of (snd s) i = Some r \<or> length (fst s) \<le> r \<and> r < length (fst s'') \<and> Type i \<in> orphan_types"
    by fastforce
qed

lemma adds_unpointed_emit: "pointer ob = None \<Longrightarrow> Type i \<in> orphan_types \<Longrightarrow> adds_unpointed s (emit_at i ob s)"
  by (cases s) (simp add: adds_unpointed_def emit_at_def)

lemma pointer_set_status [simp]: "pointer (set_status st ob) = pointer ob"
  by (cases ob) simp_all

lemma adds_unpointed_node: "adds_unpointed s (orphan_node cfg c survivor x s)"
  unfolding orphan_node_def Let_def by (intro adds_unpointed_trans[OF adds_unpointed_emit adds_unpointed_emit])
    (simp_all add: orphan_types_def)

lemma adds_unpointed_nodes: "adds_unpointed s (fold (orphan_node_row cfg c survivor) rows s)"
proof (induction rows arbitrary: s)
  case (Cons r rows)
  have "adds_unpointed s (orphan_node_row cfg c survivor r s)"
    by (cases r) (simp_all add: orphan_node_row_def adds_unpointed_node adds_unpointed_refl)
  from adds_unpointed_trans[OF this Cons.IH] show ?case by simp
qed (simp add: adds_unpointed_refl)

lemma adds_unpointed_slots: "adds_unpointed s (fold (orphan_slot_row cfg c survivor expected) rows s)"
proof (induction rows arbitrary: s)
  case (Cons r rows)
  have "adds_unpointed s (orphan_slot_row cfg c survivor expected r s)"
    by (cases r) (simp_all add: orphan_slot_row_def orphan_slot_def Let_def adds_unpointed_emit adds_unpointed_refl orphan_types_def)
  from adds_unpointed_trans[OF this Cons.IH] show ?case by simp
qed (simp add: adds_unpointed_refl)

lemma discover_each_unpointed:
  "discover_each env cfg conns ns s w = Some (s', w') \<Longrightarrow> adds_unpointed s s'"
proof (induction ns arbitrary: s w)
  case (Cons n ns)
  let ?c = "conn_of conns (Name n)"
  from Cons.prems obtain s1 w1 s2 w2 where
    nodes: "discoverOrphanNodes env cfg ?c n (map Name (Nodes cfg)) s w = Some (s1, w1)" and
    slots: "discoverOrphanSlots env cfg ?c n (expected_slots cfg) s1 w1 = Some (s2, w2)" and
    rest: "discover_each env cfg conns ns s2 w2 = Some (s', w')"
    by (auto simp: bind_eq_Some_conv)
  have heap: "h' = h" if "run env False (query_rows c q) h w = (Returned rs, h', w')" for c q h w rs h' w'
    using that by (auto simp: query_rows_def ask_def split: prod.splits reply.splits)
  from nodes obtain rows where "s1 = fold (orphan_node_row cfg ?c n) rows s"
    unfolding discoverOrphanNodes_def by (auto simp: bind_eq_Some_conv returned_Some dest: heap)
  moreover from slots obtain rows' where "s2 = fold (orphan_slot_row cfg ?c n (expected_slots cfg)) rows' s1"
    unfolding discoverOrphanSlots_def by (auto simp: bind_eq_Some_conv returned_Some dest: heap)
  ultimately have "adds_unpointed s s2" using adds_unpointed_trans[OF adds_unpointed_nodes adds_unpointed_slots] by simp
  with Cons.IH[OF rest] show ?case by (rule adds_unpointed_trans[rotated])
qed (auto intro: adds_unpointed_refl)

text \<open>What needs an update or a recreation is a subscription, which has no pointer.\<close>

lemma unhealthy_unpointed:
  assumes "RefreshActual rord env cfg conns m h0 w = Some (Inr actual, h1, w1)"
    and "well_keyed (spock_methods fuel) h0 m" and "go_order rord" and "map_of m i = Some r"
    and "NeedsRecreate (Status (h1 ! r)) \<or> NeedsUpdate (Status (h1 ! r))"
  shows "pointer (h1 ! r) = None"
proof -
  from actual_status[OF assms(1-3) map_of_SomeD[OF assms(4)]] obtain qs st where
    st: "reported (h0 ! r) qs st" and
    h1: "h1 ! r = set_status (if map_of actual i = Some r \<and> broken actual i (h0 ! r) then slot_missing else st) (h0 ! r)"
    by blast
  show ?thesis
  proof (cases "broken actual i (h0 ! r)")
    case True
    with h1 show ?thesis by (simp add: broken_def split: object.splits)
  next
    case False
    with h1 assms(5) have "NeedsRecreate st \<or> NeedsUpdate st" by simp
    with st have "pointer (h0 ! r) = None"
      by (cases "h0 ! r") (auto simp: existing_def split: if_splits)
    with h1 show ?thesis by simp
  qed
qed

lemma orphan_unpointed:
  assumes "RefreshActual rord env cfg conns m h0 w = Some (Inr actual, h1, w1)"
    and "well_keyed (spock_methods fuel) h0 m" and "go_order rord"
    and "map_of actual i = Some r" and "\<not> has_key m i"
  shows "r < length h1 \<and> pointer (h1 ! r) = None"
proof (rule refresh_actual_parts[OF assms(1-3)])
  fix h' actual1 w' obs
  assume m1: "\<And>i. map_of actual1 i = (if i \<in> fst ` set m \<and> Exists (Status (h' ! at_key m i)) then Some (at_key m i) else None)"
    and disc: "discover_each env cfg conns (Nodes cfg) (h', actual1) w' = Some ((h' @ obs, actual), w1)"
    and h1: "h1 = checkSlotHealth (rord 1) actual (h' @ obs)"
  from assms(5) have "i \<notin> fst ` set m" unfolding has_key_iff set_map .
  then have "map_of actual1 i = None" using m1[of i] by simp
  note ext = discover_each_unpointed[OF disc, unfolded adds_unpointed_def fst_conv snd_conv]
  from conjunct2[OF ext, rule_format, OF assms(4)] \<open>map_of actual1 i = None\<close>
  have r: "length h' \<le> r" "r < length (h' @ obs)" by simp_all
  from conjunct1[OF ext] have obs: "\<forall>ob\<in>set obs. pointer ob = None" by simp
  have "pointer ((h' @ obs) ! r) = None" using r obs by (simp add: nth_append)
  moreover have "same_identity ((h' @ obs) ! r) (h1 ! r)"
    unfolding h1 checkSlotHealth_def by (rule same_identity_at[OF fold_slot_health_keeps])
  ultimately have "pointer (h1 ! r) = None" by (simp add: same_identity_def)
  moreover have "length h1 = length (h' @ obs)" unfolding h1 by (rule checkSlotHealth_length)
  ultimately show ?thesis using r by simp
qed

text \<open>The populate resources are never found, so that they are created at every run.\<close>

lemma populate_not_actual:
  assumes "RefreshActual rord env cfg conns m h0 w = Some (Inr actual, h1, w1)"
    and "well_keyed (spock_methods fuel) h0 m" and "go_order rord"
    and "i \<in> fst ` set m" and "\<And>qs st. reported (h0 ! at_key m i) qs st \<Longrightarrow> st = existing False"
    and "Type i \<notin> orphan_types"
  shows "\<not> has_key actual i"
proof (rule refresh_actual_parts[OF assms(1-3)])
  fix h' actual1 w' obs
  assume at: "\<And>i. i \<in> fst ` set m \<Longrightarrow> at_key m i < length h0 \<and>
       (\<exists>qs st. answers env qs \<and> reported (h0 ! at_key m i) qs st \<and> h' ! at_key m i = set_status st (h0 ! at_key m i))"
    and m1: "\<And>i. map_of actual1 i = (if i \<in> fst ` set m \<and> Exists (Status (h' ! at_key m i)) then Some (at_key m i) else None)"
    and disc: "discover_each env cfg conns (Nodes cfg) (h', actual1) w' = Some ((h' @ obs, actual), w1)"
  from at[OF assms(4)] obtain qs st where st: "reported (h0 ! at_key m i) qs st"
    "h' ! at_key m i = set_status st (h0 ! at_key m i)" by blast
  from assms(5)[OF st(1)] st(2) have "\<not> Exists (Status (h' ! at_key m i))" by (simp add: existing_def)
  then have "map_of actual1 i = None" using m1[of i] by simp
  moreover note conjunct2[OF discover_each_unpointed[OF disc, unfolded adds_unpointed_def fst_conv snd_conv], rule_format, of i]
  ultimately show ?thesis using assms(6) by (cases "map_of actual i") auto
qed

lemma phase_ids_distinct:
  assumes "go_order ord" and "plan ord vt h actual desired = Some phases" and "n < length phases"
  shows "distinct (map (event_id vt h) (phases ! n))"
proof (rule plan_phase_sections[OF assms(1,2)])
  fix ds us cs
  assume ph: "phases = ds @ us @ cs"
    and s: "topo_sort (\<lambda>n. ord (3 * n + 2)) vt h (plan_deletes ord vt h actual desired) True = Some ds"
    "topo_sort (\<lambda>n. ord (3 * n + 3)) vt h (plan_updates ord vt h actual desired) False = Some us"
    "topo_sort (\<lambda>n. ord (3 * n + 4)) vt h (plan_creates ord vt h actual desired) False = Some cs"
  note shift = go_order_shift[OF assms(1)]
  have "distinct (map (event_id vt h) p)" if "p \<in> set ps" "distinct (map (event_id vt h) (concat ps))" for p ps
    using that by (auto simp: map_concat distinct_concat_iff)
  moreover have "phases ! n \<in> set ds \<or> phases ! n \<in> set us \<or> phases ! n \<in> set cs"
    using nth_mem[OF assms(3)] unfolding ph by auto
  ultimately show ?thesis
    using topo_sort_ids(1)[OF shift s(1)] topo_sort_ids(1)[OF shift s(2)] topo_sort_ids(1)[OF shift s(3)] by blast
qed

lemma update_delete_at_key:
  assumes "go_order ord" and "plan ord vt h actual desired = Some phases" and "e \<in> set (concat phases)"
    and "Action e \<noteq> ActionCreate"
  shows "(\<exists>i. map_of actual i = Some (Resource e) \<and> \<not> has_key desired i) \<or>
    (\<exists>i. map_of desired i = Some (Resource e) \<and> (needs_recreate vt h actual desired i \<or> needs_update vt h actual desired i))"
proof (rule plan_phase_sections[OF assms(1,2)])
  fix ds us cs
  assume ph: "phases = ds @ us @ cs"
    and s: "topo_sort (\<lambda>n. ord (3 * n + 2)) vt h (plan_deletes ord vt h actual desired) True = Some ds"
    "topo_sort (\<lambda>n. ord (3 * n + 3)) vt h (plan_updates ord vt h actual desired) False = Some us"
    and acts: "\<And>e. e \<in> set (concat cs) \<Longrightarrow> Action e = ActionCreate"
  note shift = go_order_shift[OF assms(1)]
  have "e \<in> set (concat ds) \<or> e \<in> set (concat us)" using assms(3,4) acts unfolding ph by auto
  with topo_sort_ids(3)[OF shift s(1)] topo_sort_ids(3)[OF shift s(2)]
  have "e \<in> set (plan_deletes ord vt h actual desired) \<or> e \<in> set (plan_updates ord vt h actual desired)" by blast
  then consider i where "i \<in> set (ord 0 (keys actual))" "\<not> has_key desired i" "e = mk_event ActionDelete (at_key actual i)"
    | i a where "i \<in> set (ord 1 (keys desired))" "e = mk_event a (at_key desired i)"
      "needs_recreate vt h actual desired i \<or> needs_update vt h actual desired i"
    unfolding plan_deletes_def plan_updates_def by auto
  then show ?thesis
  proof cases
    case 1
    from in_ordered_keys[OF assms(1) 1(1)] obtain r where "map_of actual i = Some r" by blast
    with 1 show ?thesis by (intro disjI1 exI[of _ i]) simp
  next
    case 2
    from in_ordered_keys[OF assms(1) 2(1)] obtain r where "map_of desired i = Some r" by blast
    with 2 show ?thesis by (intro disjI2 exI[of _ i]) simp
  qed
qed

lemma ephemeral_reported:
  "reported ob qs st \<Longrightarrow> Type (Identifier ob) \<notin> insert ResourceTypeUser orphan_types \<Longrightarrow> st = existing False"
  by (cases ob) (auto simp: orphan_types_def)

lemma populate_missing:
  assumes "ComputeDesired sord cfg conns [] = (h0, m)"
    and "RefreshActual rord env cfg conns m h0 w = Some (Inr actual, h1, w1)" and "go_order rord"
    and "has_key m i" and "Type i \<notin> insert ResourceTypeUser orphan_types"
  shows "\<not> has_key actual i"
proof -
  from assms(4) obtain r where r: "map_of m i = Some r" by blast
  with desired_at[OF assms(1) r] assms(5) have "Type (Identifier (h0 ! at_key m i)) \<notin> insert ResourceTypeUser orphan_types" by simp
  note rep = ephemeral_reported[OF _ this]
  show ?thesis
    by (rule populate_not_actual[OF assms(2) desired_keyed(1)[OF assms(1), of 0] assms(3) map_of_in_keys[OF r] rep])
      (use assms(5) in auto)
qed

text \<open>A delete or an update concerns an object that points to nothing.\<close>

lemma event_unpointed:
  assumes "ComputeDesired sord cfg conns [] = (h0, m)"
    and refresh: "RefreshActual rord env cfg conns m h0 w = Some (Inr actual, h1, w1)"
    and "go_order rord" and "go_order ord" and "plan ord (spock_methods fuel) h1 actual m = Some phases"
    and "e \<in> set (concat phases)" and "Action e \<noteq> ActionCreate"
  shows "Resource e < length h1 \<and> pointer (h1 ! Resource e) = None"
proof -
  let ?vt = "spock_methods fuel"
  note keyed = desired_keyed(1)[OF assms(1), of fuel] and same = refresh_actual_refreshed[OF refresh]
  consider k where "map_of actual k = Some (Resource e)" "\<not> has_key m k"
    | k where "map_of m k = Some (Resource e)" "needs_recreate ?vt h1 actual m k \<or> needs_update ?vt h1 actual m k"
    using update_delete_at_key[OF assms(4-7)] by blast
  then show ?thesis
  proof cases
    case (1 k)
    from orphan_unpointed[OF refresh keyed assms(3) 1] show ?thesis .
  next
    case k: (2 k)
    then have "NeedsRecreate (Status (h1 ! Resource e)) \<or> NeedsUpdate (Status (h1 ! Resource e))"
      by (auto simp: needs_recreate_def needs_update_def)
    from unhealthy_unpointed[OF refresh keyed assms(3) k(1) this] desired_at[OF assms(1) k(1)] same
    show ?thesis by (auto simp: refreshed_def dest!: list_all2_lengthD)
  qed
qed

text \<open>What a created object points to, of the type its field declares, is created in an earlier phase.\<close>

lemma same_pointee_type: "same_identity x y \<Longrightarrow> pointee_type x = pointee_type y"
  by (cases x; cases y; simp add: same_identity_def type_defs)

lemma pointee_type_missing: "pointer ob = Some q \<Longrightarrow> pointee_type ob \<notin> insert ResourceTypeUser orphan_types"
  by (cases ob) (simp_all add: orphan_types_def type_defs)

lemma created_wired:
  assumes "ComputeDesired sord cfg conns [] = (h0, m)" and "refreshed h0 h1" and "map_of m i = Some r"
  shows "r < length h0" and "wired h0 (h0 ! r)" and "same_identity (h0 ! r) (h1 ! r)"
proof -
  show r: "r < length h0" using desired_at[OF assms(1,3)] by blast
  with desired_keyed(2)[OF assms(1)] show "wired h0 (h0 ! r)" by (simp add: list_all_length)
  from refreshed_at[OF assms(2) r] show "same_identity (h0 ! r) (h1 ! r)" .
qed

lemma pointed_earlier:
  assumes cfg: "plain_config cfg" and ord: "go_order ord" "go_order rord" "\<And>ks. set (sord ks) = set ks"
    and compute: "ComputeDesired sord cfg conns [] = (h0, m)"
    and refresh: "RefreshActual rord env cfg conns m h0 w = Some (Inr actual, h1, w1)"
    and plan: "plan ord (spock_methods fuel) h1 actual m = Some phases" and n: "n < length phases"
    and e: "e \<in> set (phases ! n)" "Action e = ActionCreate" "pointer (h1 ! Resource e) = Some q"
  shows "q < length h0" and "Type (Identifier (h0 ! q)) = pointee_type (h1 ! Resource e)"
    and "\<exists>l<n. \<exists>x\<in>set (phases ! l). Action x = ActionCreate \<and> event_id (spock_methods fuel) h1 x = Identifier (h0 ! q)"
proof -
  let ?vt = "spock_methods fuel" and ?d = "Identifier (h0 ! q)"
  note same = refresh_actual_refreshed[OF refresh]
  note keyed1 = refreshed_keyed[OF compute same, of fuel]
  note k = created_at_key[OF ord(1) keyed1 plan in_concat_nth[OF n e(1)] e(2)]
  note at = refreshed_desired[OF compute same k] and w = created_wired[OF compute same k]
  have ptr: "pointer (h0 ! Resource e) = Some q" using w(3) e(3) by (simp add: same_identity_def)
  then have q: "q < length h0" "Type ?d = pointee_type (h0 ! Resource e)" "?d \<in> set (Dependencies (h0 ! Resource e))"
    using w(2) by (simp_all add: wired_def)
  with same_pointee_type[OF w(3)] show "q < length h0" "Type ?d = pointee_type (h1 ! Resource e)" by simp_all
  from cfg have "sources_ok cfg" by (simp add: plain_config_def)
  from desired_closed[OF ord(3) this at(1) q(3)] have "?d \<in> set (keys m)"
    using desired_keys[of sord cfg conns] compute by simp
  then have key: "has_key m ?d" unfolding has_key_iff .
  have "Type ?d \<notin> insert ResourceTypeUser orphan_types" using pointee_type_missing[OF ptr] q(2) by simp
  from populate_missing[OF compute refresh ord(2) key this] key
  have planned: "planned ?vt h1 actual m ActionCreate ?d" by simp
  have dep: "?d \<in> set (event_deps ?vt h1 e)" using q(3) at(3) by simp
  have rank: "chain_rank cfg d < chain_rank cfg x" if "(x, r) \<in> set m" "d \<in> set (m_Dependencies ?vt h1 r)" for x r d
  proof -
    have "map_of m x = Some r" using that(1) keyed1 by (simp add: well_keyed_def)
    from refreshed_desired[OF compute same this] that(2) desired_descends[OF cfg ord(3), of "h0 ! r" conns 0 d]
    show ?thesis by simp
  qed
  show "\<exists>l<n. \<exists>x\<in>set (phases ! l). Action x = ActionCreate \<and> event_id ?vt h1 x = ?d"
    by (rule creates_in_order[where rank = "chain_rank cfg", OF ord(1) keyed1 plan _ n e(1,2) dep planned]) (rule rank)
qed

lemma reconcile_apart:
  assumes cfg: "plain_config cfg" and ord: "go_order ord" "go_order rord" "\<And>ks. set (sord ks) = set ks"
    and compute: "ComputeDesired sord cfg conns [] = (h0, m)"
    and refresh: "RefreshActual rord env cfg conns m h0 w = Some (Inr actual, h1, w1)"
    and plan: "plan ord (spock_methods fuel) h1 actual m = Some phases" and n: "n < length phases"
  shows "spock.apart h1 (phases ! n)"
  unfolding spock.apart_def
proof (intro allI impI)
  let ?vt = "spock_methods fuel"
  note same = refresh_actual_refreshed[OF refresh]
  note keyed1 = refreshed_keyed[OF compute same, of fuel]
  fix i j
  assume ij: "i < length (phases ! n)" "j < length (phases ! n)" "i \<noteq> j"
  define e e' where "e = phases ! n ! i" and "e' = phases ! n ! j"
  have mem: "e \<in> set (phases ! n)" "e' \<in> set (phases ! n)" using ij by (simp_all add: e_def e'_def)
  note conc = in_concat_nth[OF n mem(1)] in_concat_nth[OF n mem(2)]
  have "Identifier (h1 ! Resource e) \<noteq> Identifier (h1 ! Resource e')"
    using phase_ids_distinct[OF ord(1) plan n] ij unfolding e_def e'_def by (auto simp: distinct_conv_nth)
  then have "Resource e \<noteq> Resource e'" by auto
  moreover have "Resource e \<notin> peeks h1 (Resource e')"
  proof (cases "Action e' = ActionCreate")
    case False
    from event_unpointed[OF compute refresh ord(2,1) plan conc(2) False] show ?thesis by (simp add: peeks_def)
  next
    case True
    have "Action e = ActionCreate"
      using actions_in_order[OF ord(1) plan n n mem] True by simp
    note k = created_at_key[OF ord(1) keyed1 plan conc(2) True]
      and k' = created_at_key[OF ord(1) keyed1 plan conc(1) \<open>Action e = ActionCreate\<close>]
    have "Resource e' < length h1"
      using created_wired(1)[OF compute same k] same by (auto simp: refreshed_def dest!: list_all2_lengthD)
    moreover have "pointer (h1 ! Resource e') \<noteq> Some (Resource e)"
    proof
      assume ptr: "pointer (h1 ! Resource e') = Some (Resource e)"
      let ?P = "\<lambda>x. Action x = ActionCreate \<and> event_id ?vt h1 x = Identifier (h0 ! Resource e)"
      from pointed_earlier(3)[OF cfg ord compute refresh plan n mem(2) True ptr]
      obtain l x where x: "l < n" "x \<in> set (phases ! l)" "?P x" by blast
      have "?P e" using \<open>Action e = ActionCreate\<close> refreshed_desired(4)[OF compute same k'] by simp
      from two_in_filter[where P = ?P, OF x(2) mem(1) x(1) n x(3) this]
      show False
        using plan_counts_desired[OF ord(1) keyed1 plan, of ActionCreate "Identifier (h0 ! Resource e)"]
        by (simp split: if_splits)
    qed
    ultimately show ?thesis by (auto simp: peeks_def)
  qed
  ultimately show "Resource (phases ! n ! i) \<notin> insert (Resource (phases ! n ! j)) (peeks h1 (Resource (phases ! n ! j)))"
    unfolding e_def e'_def by simp
qed

text \<open>
  Claim C12: \<open>Reconcile\<close> has no data race on the resources, if the names of the nodes have neither a dash
  nor an underscore, at most one node is to be populated, and that from another node of the configuration
  (\<open>plain_config\<close>): in every state of every interleaving no goroutine is about to write a field of an
  object while another is about to read or write that object, though the populate resources hand LSNs and
  timestamps to one another through shared pointers. (With two added nodes the condition fails, and a
  sync event and the wait that reads its LSN can share the last phase.)
\<close>

theorem reconcile_race_free:
  assumes "plain_config cfg" and "go_order ord" and "go_order rord" and "\<And>ks. set (sord ks) = set ks"
    and "Reconcile ord (spock_methods fuel) env (spock_reconciler sord rord env cfg conns) [] w (Executing n phase rest g log)"
  shows "\<not> races g"
  using assms(5)
proof (rule Reconcile_ExecutingE)
  fix h0 m actual h1 w1 phases
  assume compute: "rc_ComputeDesired (spock_reconciler sord rord env cfg conns) [] = (h0, m)"
    and refresh: "rc_RefreshActual (spock_reconciler sord rord env cfg conns) m h0 w = Some (Inr actual, h1, w1)"
    and plan: "plan ord (spock_methods fuel) h1 actual m = Some phases"
    and run: "exec_reaches (spock_methods fuel) env (exec_start (spock_methods fuel) phases h1 w1) (Executing n phase rest g log)"
  from exec_inv_reached[OF run] have n: "n < length phases" "phase = phases ! n" by simp_all
  from compute refresh have "spock.apart h1 (phases ! n)"
    by (intro reconcile_apart[OF assms(1-4) _ _ plan n(1)]) simp_all
  then have "spock.apart h1 phase" unfolding n(2) .
  from spock.no_race[OF run this] show "\<not> races g" .
qed

text \<open>A state in which a node is being added: the first phase of the plan has just been started.\<close>

lemma sample_env_total: "\<forall>q w. fst (steady_env False q w) \<noteq> RPanic"
  "inspectable steady_env"
  by (auto simp: steady_env_def split: request.split stmt.split intro!: inspectableI)

lemma adding_starts:
  "\<exists>phase rest g log. Reconcile (\<lambda>n ks. ks) (spock_methods 0) steady_env
     (spock_reconciler (\<lambda>ks. ks) (\<lambda>n ks. ks) steady_env add_node_config add_node_conns) [] () (Executing 0 phase rest g log)"
proof -
  let ?h = "fst sample_resources" and ?m = "snd sample_resources"
  have compute: "ComputeDesired (\<lambda>ks. ks) add_node_config add_node_conns [] = (?h, ?m)"
    by (simp add: sample_resources_def)
  from refresh_actual_runs[where env = steady_env and cfg = add_node_config and conns = add_node_conns and w = "()",
      OF sample_env_total(1) desired_refs[OF compute] go_order_id] sample_env_total(2)
  obtain res h1 w1 where "RefreshActual (\<lambda>n ks. ks) steady_env add_node_config add_node_conns ?m ?h () = Some (res, h1, w1)"
    "\<not> isl res" by blast
  then obtain actual where refresh: "RefreshActual (\<lambda>n ks. ks) steady_env add_node_config add_node_conns ?m ?h () = Some (Inr actual, h1, w1)"
    by (cases res) simp_all
  obtain phases where plan: "plan (\<lambda>n ks. ks) (spock_methods 0) h1 actual ?m = Some phases"
    by (rule plan_sections[OF go_order_id, of "spock_methods 0" h1 actual ?m])
  let ?x = "mk_id ResourceTypePeerCatchup ''n2_n1''"
  have x: "has_key ?m ?x" by code_simp
  have "Type ?x \<notin> insert ResourceTypeUser orphan_types" by (simp add: orphan_types_def type_defs)
  from populate_missing[OF compute refresh go_order_id x this] x
  have "planned (spock_methods 0) h1 actual ?m ActionCreate ?x" by simp
  from planned_created[OF go_order_id refreshed_keyed[OF compute refresh_actual_refreshed[OF refresh]] plan this]
  have "phases \<noteq> []" by (auto simp: created_in_def)
  then obtain phase rest where "phases = phase # rest" by (cases phases) simp_all
  then have "exec_reaches (spock_methods 0) steady_env (exec_start (spock_methods 0) phases h1 w1)
      (Executing 0 phase rest (spawn (spock_methods 0) phase h1 w1) [])"
    by (simp add: exec_start_def exec_reaches.here)
  from Reconcile.executes[OF _ _ plan this, of "spock_reconciler (\<lambda>ks. ks) (\<lambda>n ks. ks) steady_env add_node_config add_node_conns" "[]" ?h "()"]
    compute refresh
  show ?thesis by (intro exI) (simp del: split_paired_All)
qed

theorem reconcile_race_free_witness:
  "\<exists>phase rest g log. Reconcile (\<lambda>n ks. ks) (spock_methods 0) steady_env
     (spock_reconciler (\<lambda>ks. ks) (\<lambda>n ks. ks) steady_env add_node_config add_node_conns) [] () (Executing 0 phase rest g log)
     \<and> \<not> races g"
proof -
  obtain phase rest g log where run: "Reconcile (\<lambda>n ks. ks) (spock_methods 0) steady_env
     (spock_reconciler (\<lambda>ks. ks) (\<lambda>n ks. ks) steady_env add_node_config add_node_conns) [] () (Executing 0 phase rest g log)"
    using adding_starts by blast
  from run reconcile_race_free[OF sample_plain go_order_id go_order_id refl run] show ?thesis by blast
qed

subsection \<open>A node is added step by step\<close>

lemma positions_in_order:
  assumes "list_all2 P ps xs" and "sorted_wrt (<) ps" and "sorted (map fst log)"
    and pos: "\<And>i x. P i x \<Longrightarrow> \<exists>k<length log. fst (log ! k) = i \<and> Q (log ! k) x"
  shows "\<exists>ks. sorted_wrt (<) ks \<and> list_all2 (\<lambda>k x. k < length log \<and> Q (log ! k) x) ks xs
    \<and> map (\<lambda>k. fst (log ! k)) ks = ps"
proof -
  define f where "f i x = (SOME k. k < length log \<and> fst (log ! k) = i \<and> Q (log ! k) x)" for i x
  have f: "f i x < length log \<and> fst (log ! f i x) = i \<and> Q (log ! f i x) x" if "P i x" for i x
    unfolding f_def by (rule someI_ex) (rule pos[OF that])
  let ?ks = "map2 f ps xs"
  have len: "length ps = length xs" using assms(1) by (rule list_all2_lengthD)
  have at: "f (ps ! a) (xs ! a) < length log \<and> fst (log ! f (ps ! a) (xs ! a)) = ps ! a \<and>
      Q (log ! f (ps ! a) (xs ! a)) (xs ! a)" if "a < length ps" for a
    using f list_all2_nthD[OF assms(1) that] by blast
  have "sorted_wrt (<) ?ks"
    unfolding sorted_wrt_iff_nth_less
  proof (intro allI impI)
    fix a b
    assume ab: "a < b" "b < length ?ks"
    then have less: "ps ! a < ps ! b" using assms(2) len by (simp add: sorted_wrt_nth_less)
    have "f (ps ! a) (xs ! a) < f (ps ! b) (xs ! b)"
    proof (rule ccontr)
      assume "\<not> ?thesis"
      then have "f (ps ! b) (xs ! b) \<le> f (ps ! a) (xs ! a)" by simp
      with sorted_nth_mono[OF assms(3) this] at[of a] at[of b] ab less show False by simp
    qed
    with ab len show "?ks ! a < ?ks ! b" by simp
  qed
  moreover have "list_all2 (\<lambda>k x. k < length log \<and> Q (log ! k) x) ?ks xs"
    by (rule list_all2_all_nthI) (use len at in simp_all)
  moreover have "map (\<lambda>k. fst (log ! k)) ?ks = ps"
    by (rule nth_equalityI) (use len at in simp_all)
  ultimately show ?thesis by blast
qed

lemma disabled_type: "Type (disabled_id nn p) \<notin> insert ResourceTypeUser orphan_types"
  by (simp add: disabled_id_def orphan_types_def type_defs)

lemma chain_types:
  assumes "x \<in> set (add_chain cfg nn p catchup)"
    and "x \<noteq> mk_id ResourceTypeSubscription (spock_sub_name (source_of nn) (Name nn))"
    and "x \<noteq> mk_id ResourceTypeSubscription (spock_sub_name (Name p) (Name nn))"
  shows "Type x \<notin> insert ResourceTypeUser orphan_types"
proof -
  let ?T = "{ResourceTypeReplicationSlotCreate, ResourceTypeSyncEvent, ResourceTypePeerCatchup,
    ResourceTypeWaitForSyncEvent, ResourceTypeLagTrackerCommitTS, ResourceTypeReplicationSlotAdvanceFromCTS,
    ResourceTypeReplicationOriginAdvance}"
  have "?T \<inter> insert ResourceTypeUser orphan_types = {}" by (simp add: orphan_types_def type_defs)
  moreover have "Type x \<in> ?T"
    using assms(1) unfolding add_chain_def list.set insert_iff empty_iff
    by (elim disjE) (use assms(2,3) in simp_all)
  ultimately show ?thesis by blast
qed

end
