(* ===== verification/Cluster.thy ===== *)
theory Cluster
  imports Results "HOL-Library.List_Lexorder" "HOL-Library.Char_ord"
begin

text \<open>
  \<open>internal/cluster/cluster.go\<close>: waiting for the CloudNativePG clusters of the application. The
  Kubernetes client is the environment: a list request is answered with the clusters, each with its
  name and the string at \<open>status.phase\<close> (empty where there is none), or with an error. The polling
  loop takes a bound of iterations and is \<open>Spin\<close> when it is used up.
\<close>

definition healthyPhase :: string where
  "healthyPhase = ''Cluster in healthy state''"

definition list_clusters :: "string \<Rightarrow> string \<Rightarrow> request" where
  "list_clusters namespace appName = ListClusters namespace (''pgedge.com/app-name='' @ appName)"

definition getClusters :: "string \<Rightarrow> string \<Rightarrow> ('o, goerror + string list) program" where
  "getClusters namespace appName = ask (list_clusters namespace appName) (\<lambda>s. case s of
       RClusters items \<Rightarrow> Return (Inr (sort (map fst items)))
     | RErr e \<Rightarrow> Return (Inl (Wrapf ''list CNPG clusters'' e))
     | _ \<Rightarrow> Return (Inl (Wrapf ''list CNPG clusters'' (ErrOther ''list''))))"

text \<open>The loop over the items with its flag \<open>allHealthy\<close>.\<close>

fun all_healthy :: "(string \<times> string) list \<Rightarrow> bool \<Rightarrow> bool" where
  "all_healthy [] flag = flag"
| "all_healthy ((name, phase) # items) flag = all_healthy items (if phase \<noteq> healthyPhase then False else flag)"

text \<open>\<open>fmt.Errorf("msg: %w", ctx.Err())\<close>; with a \<open>nil\<close> error \<open>fmt\<close> prints \<open>%!w(<nil>)\<close>.\<close>

definition timed_out :: "string \<Rightarrow> 'o op" where
  "timed_out msg = ask ContextErr (\<lambda>s. case err_of s of
       Some e \<Rightarrow> Return (Some (Wrapf msg e))
     | None \<Rightarrow> Return (Some (Errorf (msg @ '': %!w(<nil>)''))))"

text \<open>\<open>select { case <-ctx.Done(): return \<dots>; case <-time.After(d): }\<close> at the end of a loop's body.\<close>

definition poll_again :: "nat \<Rightarrow> string \<Rightarrow> 'o op \<Rightarrow> 'o op" where
  "poll_again ms msg p = ask (DoneOrAfter ms) (\<lambda>s. case s of RDone \<Rightarrow> timed_out msg | _ \<Rightarrow> p)"

primrec waitForAll :: "nat \<Rightarrow> string \<Rightarrow> string \<Rightarrow> 'o op" where
  "waitForAll 0 namespace appName = Spin"
| "waitForAll (Suc fuel) namespace appName =
     ask (list_clusters namespace appName) (\<lambda>s.
       let again = poll_again 5000 ''timed out waiting for CNPG clusters'' (waitForAll fuel namespace appName) in
       case s of
         RClusters items \<Rightarrow>
           if items = [] then again
           else if all_healthy items True then ok
           else again
       | _ \<Rightarrow> again)"

definition WaitForAll :: "nat \<Rightarrow> string \<Rightarrow> string \<Rightarrow> 'o op" where
  "WaitForAll fuel namespace appName =
     exec InClusterConfig ''k8s in-cluster config'' (
     exec NewDynamicClient ''k8s dynamic client'' (
     waitForAll fuel namespace appName))"

subsection \<open>Polling ends with the context\<close>

text \<open>
  When no call is left the context is done, and a \<open>select\<close> on it and a timer that has just been
  started takes the branch of the context.
\<close>

definition done_law :: "('w, request, reply) env \<Rightarrow> ('w \<Rightarrow> nat) \<Rightarrow> bool" where
  "done_law env left \<longleftrightarrow> deadline env left \<and> (\<forall>c n w. left w = 0 \<longrightarrow> fst (env c (DoneOrAfter n) w) = RDone)"

definition ends :: "('w, request, reply) env \<Rightarrow> bool \<Rightarrow> 'o list \<Rightarrow> ('o, 'a) program \<Rightarrow> 'w \<Rightarrow> bool" where
  "ends env c h p w \<longleftrightarrow> fst (run env c p h w) \<noteq> Spinning"

named_theorems ends_intros "when a program is not caught in a polling loop"

lemma ends_return [ends_intros]: "ends env c h (Return a) w" "ends env c h (failed msg e) w"
  by (simp_all add: ends_def failed_def)

lemma ends_ask: "(\<And>s w'. env c q w = (s, w') \<Longrightarrow> ends env c h (k s) w') \<Longrightarrow> ends env c h (ask q k) w"
  by (cases "env c q w") (auto simp: ends_def run_ask)

lemma ends_exec: "(\<And>s w'. env c q w = (s, w') \<Longrightarrow> ends env c h p w') \<Longrightarrow> ends env c h (exec q msg p) w"
  unfolding exec_def by (rule ends_ask) (simp add: unless_def ends_return split: option.split)

lemma ends_bind: "ends env c h p w \<Longrightarrow> (\<And>a h' w'. run env c p h w = (Returned a, h', w') \<Longrightarrow> ends env c h' (f a) w') \<Longrightarrow>
    ends env c h (Effects.bind p f) w"
  by (auto simp: ends_def run_bind split: prod.split outcome.split)

lemma ends_timed_out: "ends env c h (timed_out msg) w"
  unfolding timed_out_def by (rule ends_ask) (simp add: ends_return split: option.split)

lemma ends_poll_again:
  "(\<And>s w'. env c (DoneOrAfter ms) w = (s, w') \<Longrightarrow> s \<noteq> RDone \<Longrightarrow> ends env c h p w') \<Longrightarrow>
    ends env c h (poll_again ms msg p) w"
  unfolding poll_again_def by (rule ends_ask) (auto simp: ends_timed_out split: reply.split)

text \<open>One turn of a loop takes at least one call that is not \<open>ctx.Err()\<close>, so a call less is left.\<close>

lemma done_law_step:
  assumes "done_law env left" and "env c q w = (s, w1)" and "q \<noteq> ContextErr"
    and "env c (DoneOrAfter n) w1 = (s', w2)" and "s' \<noteq> RDone" and "left w < Suc fuel"
  shows "left w2 < fuel"
proof -
  note d = assms(1)[unfolded done_law_def deadline_def]
  have e: "snd (env c q w) = w1" "snd (env c (DoneOrAfter n) w1) = w2" "fst (env c (DoneOrAfter n) w1) = s'"
    using assms(2,4) by simp_all
  have "0 < left w1"
  proof (rule ccontr)
    assume "\<not> 0 < left w1"
    with d e(3) assms(5) show False by auto
  qed
  moreover have "left w1 \<le> left w" using d e(1) by metis
  moreover have "left w2 < left w1" using d e(2) \<open>0 < left w1\<close> by (metis request.distinct)
  ultimately show ?thesis using assms(6) by simp
qed

lemma ends_waitForAll:
  assumes "done_law env left"
  shows "left w < fuel \<Longrightarrow> ends env c h (waitForAll fuel namespace appName) w"
proof (induction fuel arbitrary: w)
  case (Suc fuel)
  show ?case
    unfolding waitForAll.simps Let_def
  proof (rule ends_ask)
    fix s w1
    assume s: "env c (list_clusters namespace appName) w = (s, w1)"
    have again: "ends env c h (poll_again 5000 msg (waitForAll fuel namespace appName)) w1" for msg
    proof (rule ends_poll_again)
      fix s' w2
      assume "env c (DoneOrAfter 5000) w1 = (s', w2)" "s' \<noteq> RDone"
      from done_law_step[OF assms s _ this Suc.prems] Suc.IH
      show "ends env c h (waitForAll fuel namespace appName) w2" by (simp add: list_clusters_def)
    qed
    show "ends env c h (case s of RClusters items \<Rightarrow>
          if items = [] then poll_again 5000 ''timed out waiting for CNPG clusters'' (waitForAll fuel namespace appName)
          else if all_healthy items True then ok
          else poll_again 5000 ''timed out waiting for CNPG clusters'' (waitForAll fuel namespace appName)
        | _ \<Rightarrow> poll_again 5000 ''timed out waiting for CNPG clusters'' (waitForAll fuel namespace appName)) w1"
      by (auto simp: again ends_return split: reply.split)
  qed
qed simp

lemma ends_WaitForAll:
  assumes "done_law env left" and "left w < fuel"
  shows "ends env c h (WaitForAll fuel namespace appName) w"
proof -
  have less: "left w'' < fuel" if "env c q w' = (s, w'')" "left w' < fuel" for q s w' w''
    using deadline_less[of env left c q w' s w'' fuel] assms(1) that by (simp add: done_law_def)
  show ?thesis
    unfolding WaitForAll_def
    by (intro ends_exec ends_waitForAll[OF assms(1)]) (rule less less[OF _ less[OF _ assms(2)]]; assumption)+
qed

subsection \<open>Properties\<close>

lemma all_healthy_iff: "all_healthy items flag \<longleftrightarrow> flag \<and> list_all (\<lambda>(name, phase). phase = healthyPhase) items"
  by (induction items flag rule: all_healthy.induct) auto

text \<open>The calls end with a list of clusters that are all healthy.\<close>

definition found_healthy :: "string \<Rightarrow> string \<Rightarrow> calls \<Rightarrow> bool" where
  "found_healthy namespace appName qs \<longleftrightarrow> (\<exists>items. items \<noteq> [] \<and> list_all (\<lambda>(name, phase). phase = healthyPhase) items \<and>
     qs \<noteq> [] \<and> last qs = (list_clusters namespace appName, RClusters items))"

lemma found_healthy_Cons: "found_healthy namespace appName qs \<Longrightarrow> found_healthy namespace appName (q # qs)"
  by (auto simp: found_healthy_def)

lemma nil_timed_out: "nil_only_if (timed_out msg) Q"
  unfolding timed_out_def by (rule nil_ask) (auto split: option.split)

lemma nil_poll_again:
  "(\<And>s. nil_only_if p (\<lambda>qs. Q ((DoneOrAfter ms, s) # qs))) \<Longrightarrow> nil_only_if (poll_again ms msg p) Q"
  unfolding poll_again_def by (rule nil_ask) (auto simp: nil_timed_out split: reply.split)

lemma nil_waitForAll: "nil_only_if (waitForAll fuel namespace appName :: 'o op) (found_healthy namespace appName)"
proof (induction fuel)
  case (Suc fuel)
  have again: "nil_only_if (poll_again 5000 msg (waitForAll fuel namespace appName :: 'o op))
      (\<lambda>qs. found_healthy namespace appName (q # qs))" for msg q
    by (rule nil_poll_again, rule nil_mono[OF Suc]) (simp add: found_healthy_Cons)
  have found: "found_healthy namespace appName [(list_clusters namespace appName, RClusters items)]"
    if "items \<noteq> []" "all_healthy items True" for items
    using that by (simp add: found_healthy_def all_healthy_iff)
  show ?case
    unfolding waitForAll.simps Let_def
    by (rule nil_ask) (auto simp: again found split: reply.split)
qed simp

lemma nil_WaitForAll: "nil_only_if (WaitForAll fuel namespace appName) (found_healthy namespace appName)"
  unfolding WaitForAll_def by (intro nil_exec, rule nil_mono[OF nil_waitForAll]) (simp add: found_healthy_Cons)

text \<open>
  \<open>WaitForAll\<close> returns \<open>nil\<close> only when the last thing it saw was a list of clusters
  that is not empty and in which every cluster is in the healthy phase.
\<close>

lemma wait_nil_healthy:
  assumes "run env c (WaitForAll fuel namespace appName) h w = (Returned None, h', w')"
  shows "found_healthy namespace appName (trace env c (WaitForAll fuel namespace appName) h w)"
  by (rule nil_only_if_trace[OF nil_WaitForAll assms])

text \<open>First no clusters, then one that is being set up, then a healthy one; then the time is up.\<close>

definition cluster_env :: "(nat, request, reply) env" where
  "cluster_env c q w = (case q of
       ListClusters n l \<Rightarrow> (RClusters (if w < 3 then [(''n1'', healthyPhase)]
          else if w < 5 then [(''n1'', ''Setting up primary'')] else []), w - 1)
     | ContextErr \<Rightarrow> (if w = 0 then RErr ErrDeadlineExceeded else ROk, w)
     | DoneOrAfter n \<Rightarrow> (if w = 0 then RDone else ROk, w - 1)
     | _ \<Rightarrow> (ROk, w - 1))"

lemma run_poll_again:
  "run env c (poll_again ms msg p) h w = (case env c (DoneOrAfter ms) w of (s, w') \<Rightarrow>
     if s = RPanic then (Panicked, h, w') else if s = RDone then run env c (timed_out msg) h w' else run env c p h w')"
  by (auto simp: poll_again_def run_ask split: prod.split reply.split)

lemma run_waitForAll:
  "run env c (waitForAll (Suc fuel) namespace appName) h w = (case env c (list_clusters namespace appName) w of (s, w') \<Rightarrow>
     if s = RPanic then (Panicked, h, w')
     else if (case s of RClusters items \<Rightarrow> items \<noteq> [] \<and> all_healthy items True | _ \<Rightarrow> False) then (Returned None, h, w')
     else run env c (poll_again 5000 ''timed out waiting for CNPG clusters'' (waitForAll fuel namespace appName)) h w')"
  by (auto simp: run_ask Let_def split: prod.split reply.split)

lemma wait_nil_healthy_witness:
  "found_healthy ''default'' ''pgedge'' (trace cluster_env False (WaitForAll 3 ''default'' ''pgedge'') ([] :: heap) 8)"
proof (rule wait_nil_healthy)
  show "run cluster_env False (WaitForAll 3 ''default'' ''pgedge'') ([] :: heap) 8 = (Returned None, [], 1)"
    by (simp add: WaitForAll_def run_exec run_unless run_poll_again run_waitForAll eval_nat_numeral(3)[of num.One] numeral_2_eq_2
        list_clusters_def cluster_env_def err_of_def healthyPhase_def del: waitForAll.simps)
qed

text \<open>
  \<open>WaitForAll\<close> ends with the context: if the context is done after finitely many
  calls, the polling loop returns, however the list requests are answered until then: a bound of
  iterations above the calls that are left is never used up.
\<close>

lemma wait_ends:
  assumes "done_law env left" and "left w < fuel"
  shows "fst (run env c (WaitForAll fuel namespace appName) h w) \<noteq> Spinning"
  using ends_WaitForAll[OF assms] by (simp add: ends_def)

lemma wait_ends_witness:
  "fst (run cluster_env False (WaitForAll 9 ''default'' ''pgedge'') ([] :: heap) 8) \<noteq> Spinning"
  by (rule wait_ends[of _ "\<lambda>w. w"])
    (auto simp: done_law_def deadline_def cluster_env_def split: request.split)

text \<open>
  \<open>getClusters\<close> returns the names of the clusters of the list, each as often as it
  occurs there, in ascending order.
\<close>

lemma getClusters_sorted:
  assumes "run env c (getClusters namespace appName) h w = (Returned (Inr names), h', w')"
  shows "sorted names \<and> (\<exists>items. fst (env c (list_clusters namespace appName) w) = RClusters items
    \<and> mset names = mset (map fst items))"
  using assms by (auto simp: getClusters_def run_ask split: prod.splits reply.splits if_splits)

lemma getClusters_sorted_witness:
  "sorted [''n1''] \<and> (\<exists>items. fst (cluster_env False (list_clusters ''default'' ''pgedge'') 3) = RClusters items
    \<and> mset [''n1''] = mset (map fst items))"
  by (rule getClusters_sorted[of cluster_env False _ _ "[] :: heap" _ _ "[]" 2])
    (simp add: getClusters_def run_ask list_clusters_def cluster_env_def)

end
