(* ===== verification/Progress.thy ===== *)
theory Progress
  imports Adding Cluster
begin

text \<open>
  The code itself never stands in the way: in a world where every call succeeds, a reconciliation
  ends with \<open>nil\<close> in every interleaving. The proof is one of progress and preservation: \<open>good\<close> says
  of the rest of a goroutine that it can only go on and return \<open>nil\<close>, and what it guarantees the
  others; the invariant of the phases says that what a goroutine reads has been written before.
\<close>

subsection \<open>A world where every call succeeds\<close>

text \<open>
  The answers to the queries: those whose answer is a condition of going on are answered with yes, the
  others with some value of their type. The clusters are healthy, and every other call succeeds.
\<close>

fun row_answer :: "stmt \<Rightarrow> reply \<Rightarrow> bool" where
  "row_answer SendSyncEvent s \<longleftrightarrow> (case s of RText t \<Rightarrow> t \<noteq> '''' | _ \<Rightarrow> False)"
| "row_answer (LsnFromCommitTs a ts) s \<longleftrightarrow> (case s of RText t \<Rightarrow> True | _ \<Rightarrow> False)"
| "row_answer (SlotRestartLsn a) s \<longleftrightarrow> (case s of RText t \<Rightarrow> True | _ \<Rightarrow> False)"
| "row_answer (SubStatus a) s \<longleftrightarrow> s \<in> {RText ''initializing'', RText ''replicating'', RText ''unknown''}"
| "row_answer (CommitTimestamp a b) s \<longleftrightarrow> (case s of RTime ts \<Rightarrow> True | RErr e \<Rightarrow> e = ErrNoRows | _ \<Rightarrow> False)"
| "row_answer (WaitSyncEvent a b n) s \<longleftrightarrow> s = RBool True"
| "row_answer (ProgressReached a b) s \<longleftrightarrow> s = RBool True"
| "row_answer q s \<longleftrightarrow> (case s of RBool b \<Rightarrow> True | _ \<Rightarrow> False)"

fun rows_answer :: "stmt \<Rightarrow> reply \<Rightarrow> bool" where
  "rows_answer Repsets s \<longleftrightarrow> (case s of
     RRows rows err \<Rightarrow> err = None \<and> list_all (\<lambda>rw. case rw of RowRepset x \<Rightarrow> True | _ \<Rightarrow> False) rows | _ \<Rightarrow> False)"
| "rows_answer RepsetTables s \<longleftrightarrow> (case s of
     RRows rows err \<Rightarrow> err = None \<and> list_all (\<lambda>rw. case rw of RowTable x \<Rightarrow> True | _ \<Rightarrow> False) rows | _ \<Rightarrow> False)"
| "rows_answer q s \<longleftrightarrow> (case s of RRows rows err \<Rightarrow> True | _ \<Rightarrow> False)"

fun friendly :: "request \<Rightarrow> reply \<Rightarrow> bool" where
  "friendly (Begin c) s \<longleftrightarrow> (case s of RTx t \<Rightarrow> True | _ \<Rightarrow> False)"
| "friendly (TxQueryRow t q) s \<longleftrightarrow> row_answer q s"
| "friendly (PoolQueryRow c q) s \<longleftrightarrow> row_answer q s"
| "friendly (PoolQuery c q) s \<longleftrightarrow> rows_answer q s"
| "friendly (ListClusters n l) s \<longleftrightarrow> (case s of RClusters items \<Rightarrow> items \<noteq> [] \<and> all_healthy items True | _ \<Rightarrow> False)"
| "friendly (NewPool cs) s \<longleftrightarrow> (case s of RPool p \<Rightarrow> True | _ \<Rightarrow> False)"
| "friendly q s \<longleftrightarrow> s = ROk"

definition cooperative :: "('w, request, reply) env \<Rightarrow> bool" where
  "cooperative env \<longleftrightarrow> (\<forall>q w. friendly q (fst (env False q w)))"

lemma friendly_no_panic: "\<not> friendly q RPanic"
  by (cases "(q, RPanic)" rule: friendly.cases) (auto elim!: row_answer.elims rows_answer.elims)

lemma cooperative_total: "cooperative env \<Longrightarrow> \<forall>q w. fst (env False q w) \<noteq> RPanic"
  unfolding cooperative_def using friendly_no_panic by metis

lemma cooperative_inspectable:
  assumes "cooperative env"
  shows "inspectable env"
  unfolding inspectable_def
proof (intro allI impI)
  fix k q w
  assume q: "inspects q"
  from assms have "row_answer q (fst (env False (PoolQueryRow k q) w))"
    unfolding cooperative_def by (metis friendly.simps(3))
  with q show "\<exists>b. fst (env False (PoolQueryRow k q) w) = RBool b"
    by (cases q rule: inspects.cases) (auto split: reply.splits)
qed

subsection \<open>A goroutine that can only succeed\<close>

text \<open>
  \<open>good hn W r P p x\<close>: where the goroutine has its own object at \<open>r\<close>, which is \<open>x\<close> now, and the
  objects outside \<open>W\<close> are those of \<open>hn\<close>, \<open>p\<close> reads only these, writes only its own without changing
  its identity, and if every call succeeds, it returns \<open>nil\<close> with its object satisfying \<open>P\<close>.
\<close>

primrec good :: "heap \<Rightarrow> ref set \<Rightarrow> ref \<Rightarrow> (object \<Rightarrow> bool) \<Rightarrow> object op \<Rightarrow> object \<Rightarrow> bool" where
  "good hn W r P (Return a) = (\<lambda>x. a = None \<and> P x)"
| "good hn W r P Panic = (\<lambda>x. False)"
| "good hn W r P Spin = (\<lambda>x. False)"
| "good hn W r P (Call q k) = (\<lambda>x. \<forall>s. friendly q s \<longrightarrow> good hn W r P (k s) x)"
| "good hn W r P (Load i k) = (\<lambda>x. if i = r then good hn W r P (k x) x
     else i < length hn \<and> i \<notin> W \<and> good hn W r P (k (hn ! i)) x)"
| "good hn W r P (Store i f p) = (\<lambda>x. i = r \<and> same_identity x (f x) \<and> good hn W r P p (f x))"

named_theorems good_intros "the program combinators can only succeed"

lemma good_return [good_intros]: "P x \<Longrightarrow> good hn W r P ok x"
  by simp

lemma good_ask:
  assumes "\<And>s. friendly q s \<Longrightarrow> good hn W r P (k s) x"
  shows "good hn W r P (ask q k) x"
proof -
  have "good hn W r P (case s of RPanic \<Rightarrow> Panic | _ \<Rightarrow> k s) x" if "friendly q s" for s
    using assms[OF that] friendly_no_panic[of q] that by (cases s) simp_all
  then show ?thesis by (simp add: ask_def)
qed

text \<open>Calls that have no answer but success, and queries by the type of their answer.\<close>

fun answers_ok :: "request \<Rightarrow> bool" where
  "answers_ok (TxExec t q) \<longleftrightarrow> True"
| "answers_ok (TxCommit t) \<longleftrightarrow> True"
| "answers_ok (TxRollback t) \<longleftrightarrow> True"
| "answers_ok (PoolExec c q) \<longleftrightarrow> True"
| "answers_ok ContextErr \<longleftrightarrow> True"
| "answers_ok InClusterConfig \<longleftrightarrow> True"
| "answers_ok NewDynamicClient \<longleftrightarrow> True"
| "answers_ok (LoadX509KeyPair a b) \<longleftrightarrow> True"
| "answers_ok (ParseConfig a) \<longleftrightarrow> True"
| "answers_ok (ConnectConfig a) \<longleftrightarrow> True"
| "answers_ok ConnClose \<longleftrightarrow> True"
| "answers_ok (ParsePoolConfig a) \<longleftrightarrow> True"
| "answers_ok (PoolClose c) \<longleftrightarrow> True"
| "answers_ok q \<longleftrightarrow> False"

lemma answers_ok_friendly: "answers_ok q \<Longrightarrow> friendly q s \<Longrightarrow> s = ROk"
  by (cases q rule: answers_ok.cases) auto

lemma good_exec [good_intros]: "answers_ok q \<Longrightarrow> good hn W r P p x \<Longrightarrow> good hn W r P (exec q msg p) x"
  unfolding exec_def by (rule good_ask) (auto dest!: answers_ok_friendly simp: unless_def err_of_def)

lemma good_query_bool:
  assumes "\<And>s. friendly q s \<Longrightarrow> (\<exists>b. s = RBool b \<and> good hn W r P (k b) x)"
  shows "good hn W r P (query_bool q msg k) x"
  unfolding query_bool_def
proof (rule good_ask)
  fix s
  assume "friendly q s"
  from assms[OF this] show "good hn W r P (scanned msg k (scan_bool s)) x"
    by (auto simp: scanned_def scan_bool_def)
qed

text \<open>Queries whose answer may be yes or no.\<close>

fun asks_bool :: "stmt \<Rightarrow> bool" where
  "asks_bool (SlotExists a) \<longleftrightarrow> True"
| "asks_bool (SubDisabledExists a) \<longleftrightarrow> True"
| "asks_bool (SlotActive a) \<longleftrightarrow> True"
| "asks_bool (LsnAtOrBefore a b) \<longleftrightarrow> True"
| "asks_bool q \<longleftrightarrow> False"

lemma asks_bool_answer: "asks_bool q \<Longrightarrow> row_answer q s \<Longrightarrow> \<exists>b. s = RBool b"
  by (cases q rule: asks_bool.cases; cases s) auto

lemma good_asks_bool [good_intros]:
  assumes "asks_bool q" and "\<And>b. good hn W r P (k b) x"
  shows "good hn W r P (query_bool (TxQueryRow t q) msg k) x" and "good hn W r P (query_bool (PoolQueryRow c q) msg k) x"
  by (rule good_query_bool, use asks_bool_answer[OF assms(1)] assms(2) in fastforce)+

lemma good_query_text:
  assumes "\<And>s. friendly q s \<Longrightarrow> (\<exists>t. s = RText t \<and> good hn W r P (k t) x)"
  shows "good hn W r P (query_text q msg k) x"
  unfolding query_text_def
proof (rule good_ask)
  fix s
  assume "friendly q s"
  from assms[OF this] show "good hn W r P (scanned msg k (scan_text s)) x"
    by (auto simp: scanned_def scan_text_def)
qed

lemma good_if [good_intros]:
  "(C \<Longrightarrow> good hn W r P p x) \<Longrightarrow> (\<not> C \<Longrightarrow> good hn W r P p' x) \<Longrightarrow> good hn W r P (if C then p else p') x"
  by simp

lemma good_store [good_intros]: "same_identity x (f x) \<Longrightarrow> good hn W r P p (f x) \<Longrightarrow> good hn W r P (Store r f p) x"
  by simp

lemma good_bind:
  "good hn W r P p x \<Longrightarrow> (\<And>y. P y \<Longrightarrow> good hn W r Q (f None) y) \<Longrightarrow> good hn W r Q (Effects.bind p f) x"
  by (induction p arbitrary: x rule: prog_induct) (auto split: if_splits)

lemma good_in_tx [good_intros]:
  assumes "\<And>t. good hn W r P (body t) x"
  shows "good hn W r P (in_tx c msg body) x"
  unfolding in_tx_def
proof (rule good_ask)
  fix s
  assume "friendly (Begin c) s"
  then obtain t where "s = RTx t" by (auto split: reply.splits)
  moreover have "good hn W r P (Effects.bind (body t) (\<lambda>res. ask (TxRollback t) (\<lambda>_. Return res))) x"
    by (rule good_bind[OF assms]) (auto intro: good_ask)
  ultimately show "good hn W r P (case s of RTx t \<Rightarrow> Effects.bind (body t) (\<lambda>res. ask (TxRollback t) (\<lambda>_. Return res))
      | RErr e \<Rightarrow> failed msg e | _ \<Rightarrow> failed msg (ErrOther ''begin'')) x" by simp
qed

subsection \<open>The methods\<close>

text \<open>A sync event that has been created has an LSN.\<close>

primrec ready :: "object \<Rightarrow> bool" where
  "ready (OUser u) \<longleftrightarrow> True"
| "ready (ONode n) \<longleftrightarrow> True"
| "ready (OSlot s) \<longleftrightarrow> True"
| "ready (OSub s) \<longleftrightarrow> True"
| "ready (OSlotCreate s) \<longleftrightarrow> True"
| "ready (OSyncEvent e) \<longleftrightarrow> se_LSN e \<noteq> ''''"
| "ready (OWait v) \<longleftrightarrow> True"
| "ready (OLag t) \<longleftrightarrow> True"
| "ready (OSlotAdvance a) \<longleftrightarrow> True"
| "ready (ODisabled s) \<longleftrightarrow> True"
| "ready (OOriginAdvance a) \<longleftrightarrow> True"
| "ready (OCatchup v) \<longleftrightarrow> True"

lemma good_update_of: "P x \<Longrightarrow> good hn W r P (update_of ob) x"
  by (cases ob; simp only: update_of.simps end_state_noop_defs end_state_tx_defs no_op_def;
      intro good_intros answers_ok.simps[THEN iffD2] TrueI; assumption)

lemma good_delete_of:
  assumes "P x"
  shows "good hn W r P (delete_of ob) x"
  by (cases ob; simp only: delete_of.simps end_state_noop_defs end_state_tx_defs no_op_def Let_def;
      intro good_intros answers_ok.simps[THEN iffD2] asks_bool.simps[THEN iffD2] TrueI assms)

text \<open>A statement that may find its object already there.\<close>

lemma good_ask_duplicate:
  assumes "answers_ok q" and "good hn W r P p x"
  shows "good hn W r P (ask q (\<lambda>s. case err_of s of Some e \<Rightarrow> f e | None \<Rightarrow> p)) x"
proof (rule good_ask)
  fix s
  assume "friendly q s"
  with assms(1) have "s = ROk" by (rule answers_ok_friendly)
  then show "good hn W r P (case err_of s of Some e \<Rightarrow> f e | None \<Rightarrow> p) x" using assms(2) by (simp add: err_of_def)
qed

text \<open>The object that a pointer leads to.\<close>

definition pointee :: "heap \<Rightarrow> ref set \<Rightarrow> ref \<Rightarrow> object \<Rightarrow> bool" where
  "pointee hn W r ob \<longleftrightarrow> (case pointer ob of
       None \<Rightarrow> pointee_type ob = ''''
     | Some q \<Rightarrow> q \<noteq> r \<and> q < length hn \<and> q \<notin> W \<and> Type (Identifier (hn ! q)) = pointee_type ob \<and> ready (hn ! q))"

lemma typed_object:
  "Type (Identifier ob) = ResourceTypeSyncEvent \<Longrightarrow> \<exists>e. ob = OSyncEvent e"
  "Type (Identifier ob) = ResourceTypeLagTrackerCommitTS \<Longrightarrow> \<exists>t. ob = OLag t"
  "Type (Identifier ob) = ResourceTypeReplicationSlotAdvanceFromCTS \<Longrightarrow> \<exists>a. ob = OSlotAdvance a"
  by (cases ob; simp add: type_defs)+

lemma good_wait_loop:
  assumes "q \<noteq> r" "q < length hn" "q \<notin> W" "hn ! q = OSyncEvent e" "P x"
  shows "good hn W r P (wait_loop (Suc fuel) v q) x"
proof -
  have wait: "good hn W r P (load_LSN q (\<lambda>lsn. query_bool (PoolQueryRow c (WaitSyncEvent a lsn n)) msg
      (\<lambda>synced. if synced then ok else p))) x" for c a n msg p
    using assms by (auto simp: load_LSN_def intro!: good_query_bool)
  show ?thesis
    unfolding wait_loop.simps Let_def
  proof (rule good_ask_duplicate)
    show "good hn W r P (ask (PoolQueryRow (we_conn v) (SubStatus (spock_sub_name (we_providerName v) (we_subscriberName v))))
       (\<lambda>s. case scan_text s of
           Inl e \<Rightarrow> load_LSN q (\<lambda>lsn. query_bool (PoolQueryRow (we_conn v) (WaitSyncEvent (we_providerName v) lsn syncEventTimeout))
             (''wait_for_sync_event for '' @ we_providerName v @ arrow @ we_subscriberName v)
             (\<lambda>synced. if synced then ok else wait_loop fuel v q))
         | Inr st \<Rightarrow> if st \<in> {''initializing'', ''replicating'', ''unknown''}
             then load_LSN q (\<lambda>lsn. query_bool (PoolQueryRow (we_conn v) (WaitSyncEvent (we_providerName v) lsn syncEventTimeout))
               (''wait_for_sync_event for '' @ we_providerName v @ arrow @ we_subscriberName v)
               (\<lambda>synced. if synced then ok else wait_loop fuel v q))
             else if st \<in> {''disabled'', ''down''}
             then done_or_after (syncEventTimeout * 1000) (wait_loop fuel v q)
             else fail (Errorf (''subscription has unhealthy status '' @ quoted st @ '': provider='' @
               we_providerName v @ '' subscriber='' @ we_subscriberName v)))) x"
      by (rule good_ask) (auto simp: scan_text_def wait)
  qed simp
qed

lemma good_catchup_loop:
  assumes "q \<noteq> r" "q < length hn" "q \<notin> W" "hn ! q = OSyncEvent e" "P x"
  shows "good hn W r P (catchup_loop (Suc fuel) v q) x"
  unfolding catchup_loop.simps
  by (rule good_ask_duplicate) (use assms in \<open>auto simp: load_LSN_def intro!: good_query_bool\<close>)

lemmas good_steps = good_intros answers_ok.simps[THEN iffD2] asks_bool.simps[THEN iffD2] TrueI

lemma pointeeE:
  assumes "pointee hn W r ob" and "pointer ob = Some q"
  shows "q \<noteq> r \<and> q < length hn \<and> q \<notin> W \<and> Type (Identifier (hn ! q)) = pointee_type ob \<and> ready (hn ! q)"
  using assms by (simp add: pointee_def)

lemma good_wait:
  assumes "pointee hn W r (OWait v)" and "P x"
  shows "good hn W r P (WaitForSyncEvent_Create (Suc fuel) v) x"
proof (cases "we_syncEvent v")
  case None
  with assms(1) show ?thesis by (simp add: pointee_def type_defs)
next
  case (Some q)
  from pointeeE[OF assms(1)] Some
  have q: "q \<noteq> r" "q < length hn" "q \<notin> W" "Type (Identifier (hn ! q)) = ResourceTypeSyncEvent" "ready (hn ! q)" by simp_all
  from typed_object(1)[OF q(4)] obtain e where e: "hn ! q = OSyncEvent e" ..
  with q Some good_wait_loop[where P = P, OF q(1-3) e assms(2)] show ?thesis
    by (simp add: WaitForSyncEvent_Create_def load_LSN_def del: wait_loop.simps)
qed

lemma good_catchup:
  assumes "pointee hn W r (OCatchup v)" and "P x"
  shows "good hn W r P (PeerCatchup_Create (Suc fuel) v) x"
proof (cases "pc_syncEvent v")
  case None
  with assms(1) show ?thesis by (simp add: pointee_def type_defs)
next
  case (Some q)
  from pointeeE[OF assms(1)] Some
  have q: "q \<noteq> r" "q < length hn" "q \<notin> W" "Type (Identifier (hn ! q)) = ResourceTypeSyncEvent" "ready (hn ! q)" by simp_all
  from typed_object(1)[OF q(4)] obtain e where e: "hn ! q = OSyncEvent e" ..
  with q Some good_catchup_loop[where P = P, OF q(1-3) e assms(2)] show ?thesis
    by (simp add: PeerCatchup_Create_def load_LSN_def del: catchup_loop.simps)
qed

lemma good_slot_advance:
  assumes "pointee hn W r (OSlotAdvance a)"
  shows "good hn W r ready (ReplicationSlotAdvanceFromCTS_Create r a) (OSlotAdvance b)"
proof (cases "sa_lagTracker a")
  case None
  with assms show ?thesis by (simp add: pointee_def type_defs)
next
  case (Some q)
  from pointeeE[OF assms] Some
  have q: "q \<noteq> r" "q < length hn" "q \<notin> W" "Type (Identifier (hn ! q)) = ResourceTypeLagTrackerCommitTS" by simp_all
  from typed_object(2)[OF q(4)] obtain t where t: "hn ! q = OLag t" ..
  have load: "good hn W r ready (load_CommitTS (sa_lagTracker a) k) x" if "good hn W r ready (k (lt_CommitTS t)) x" for k x
    using that q(1-3) by (simp add: load_CommitTS_def Some t)
  have answer: "good hn W r ready (query_text (PoolQueryRow c q) msg k) x"
    if "q = LsnFromCommitTs l ts \<or> q = SlotRestartLsn l" "\<And>t. good hn W r ready (k t) x" for c q msg k l ts x
    by (rule good_query_text) (use that in \<open>auto split: reply.splits\<close>)
  have advanced: "good hn W r ready (query_text (PoolQueryRow (sa_conn a) (LsnFromCommitTs slot ts)) msg (\<lambda>target.
       query_bool (PoolQueryRow (sa_conn a) (SlotActive slot)) msg' (\<lambda>isActive.
       if isActive then ok else
       query_text (PoolQueryRow (sa_conn a) (SlotRestartLsn slot)) msg'' (\<lambda>current.
       query_bool (PoolQueryRow (sa_conn a) (LsnAtOrBefore target current)) msg3 (\<lambda>atOrBefore.
       if atOrBefore then ok else
       exec (PoolExec (sa_conn a) (SlotAdvance slot target)) (msg4 target) (
       Store r (set_AdvancedToLSN target) ok)))))) (set_AdvancedToLSN l (OSlotAdvance b))"
    for slot ts msg msg' msg'' msg3 msg4 l
    by (intro answer disjI1 disjI2 refl good_steps) (simp_all add: set_AdvancedToLSN_def same_identity_def)
  have unset: "ready (set_AdvancedToLSN '''' (OSlotAdvance b))" by (simp add: set_AdvancedToLSN_def)
  show ?thesis
  proof (cases "lt_CommitTS t")
    case None
    show ?thesis
      unfolding ReplicationSlotAdvanceFromCTS_Create_def Let_def
      by (rule good_store, simp, rule load, unfold None) (simp add: unset)
  next
    case (Some ts)
    show ?thesis
      unfolding ReplicationSlotAdvanceFromCTS_Create_def Let_def
      by (rule good_store, simp, rule load, unfold Some, rule good_if, simp add: unset, rule load,
          unfold Some option.case, rule advanced)
  qed
qed

lemma good_origin_advance:
  assumes "pointee hn W r (OOriginAdvance a)" and "P x"
  shows "good hn W r P (ReplicationOriginAdvance_Create a) x"
proof (cases "oa_slotAdvance a")
  case None
  with assms show ?thesis by (simp add: pointee_def type_defs)
next
  case (Some q)
  from pointeeE[OF assms(1)] Some
  have q: "q \<noteq> r" "q < length hn" "q \<notin> W" "Type (Identifier (hn ! q)) = ResourceTypeReplicationSlotAdvanceFromCTS" by simp_all
  from typed_object(3)[OF q(4)] obtain b where b: "hn ! q = OSlotAdvance b" ..
  have load: "good hn W r P (load_AdvancedToLSN (oa_slotAdvance a) k) x \<longleftrightarrow> good hn W r P (k (sa_AdvancedToLSN b)) x" for k
    using q(1-3) by (simp add: load_AdvancedToLSN_def Some b)
  show ?thesis
    unfolding ReplicationOriginAdvance_Create_def load
    by (rule good_if, simp add: assms(2)) (unfold load, intro good_steps assms(2))
qed

lemma good_create_of:
  assumes "pointee hn W r ob" and "0 < fuel"
  shows "good hn W r ready (create_of fuel r ob) ob"
proof -
  obtain n where n: "fuel = Suc n" using assms(2) gr0_conv_Suc by blast
  show ?thesis
  proof (cases ob)
    case (OSyncEvent e)
    show ?thesis
      unfolding OSyncEvent create_of.simps SyncEvent_Create_def
      by (intro good_steps, rule good_query_text)
        (auto simp: set_LSN_def same_identity_def intro!: good_steps split: reply.splits)
  next
    case (OLag t)
    have "good hn W r ready (Store r (set_CommitTS ts) ok) ob" for ts
      using same_identity_updates(3)[of ob ts] by (auto simp: OLag set_CommitTS_def)
    then show ?thesis
      unfolding OLag create_of.simps LagTrackerCommitTimestamp_Create_def
      by (intro good_ask) (auto simp: scan_time_def split: reply.splits)
  next
    case (OWait v)
    with assms(1) show ?thesis unfolding n by (simp add: good_wait)
  next
    case (OCatchup v)
    with assms(1) show ?thesis unfolding n by (simp add: good_catchup)
  next
    case (OSlotAdvance a)
    with assms(1) show ?thesis by (simp add: good_slot_advance)
  next
    case (OOriginAdvance a)
    with assms(1) show ?thesis by (simp add: good_origin_advance)
  qed (simp_all only: create_of.simps end_state_noop_defs end_state_tx_defs ReplicationSlotCreate_Create_def
      DisabledSubscription_Create_def Let_def; intro good_steps good_ask_duplicate; simp)+
qed

subsection \<open>The goroutines of a phase\<close>

definition post :: "ref event \<Rightarrow> object \<Rightarrow> object \<Rightarrow> bool" where
  "post e x y \<longleftrightarrow> (if Action e = ActionCreate then ready y else y = x)"

definition startable :: "heap \<Rightarrow> ref set \<Rightarrow> ref event \<Rightarrow> bool" where
  "startable hn W e \<longleftrightarrow> Resource e < length hn \<and> Action e \<in> {ActionCreate, ActionUpdate, ActionDelete}
     \<and> (Action e = ActionCreate \<longrightarrow> pointee hn W (Resource e) (hn ! Resource e))"

lemma good_event:
  assumes "startable hn W e" and "0 < fuel"
  shows "good hn W (Resource e) (post e (hn ! Resource e)) (event_body (spock_methods fuel) h e) (hn ! Resource e)"
proof -
  let ?x = "hn ! Resource e"
  have wrap: "good hn W (Resource e) P (Effects.bind p (\<lambda>res. Return (wrap_result msg res))) ?x"
    if "good hn W (Resource e) P p ?x" for P p msg
    by (rule good_bind[OF that]) (simp add: wrap_result_def)
  consider "Action e = ActionCreate" | "Action e = ActionUpdate" | "Action e = ActionDelete"
    using assms(1) by (auto simp: startable_def)
  then show ?thesis
  proof cases
    case 1
    with assms good_create_of have "good hn W (Resource e) ready (Create fuel (Resource e)) ?x"
      by (simp add: startable_def Create_def)
    moreover have "post e ?x = ready" using 1 by (simp add: fun_eq_iff post_def)
    ultimately show ?thesis using 1 by (simp add: event_body_def Let_def wrap)
  next
    case 2
    have "post e ?x = (\<lambda>y. y = ?x)" using 2 by (simp add: fun_eq_iff post_def)
    with 2 show ?thesis by (simp add: event_body_def Let_def wrap Update_def good_update_of)
  next
    case 3
    have "post e ?x = (\<lambda>y. y = ?x)" using 3 by (simp add: fun_eq_iff post_def)
    with 3 show ?thesis by (simp add: event_body_def Let_def wrap Delete_def good_delete_of)
  qed
qed

definition thread_ok :: "heap \<Rightarrow> ref set \<Rightarrow> heap \<Rightarrow> ref event \<Rightarrow> object op option \<Rightarrow> bool" where
  "thread_ok hn W h e t \<longleftrightarrow> (case t of
       None \<Rightarrow> post e (hn ! Resource e) (h ! Resource e)
     | Some p \<Rightarrow> good hn W (Resource e) (post e (hn ! Resource e)) p (h ! Resource e))"

definition group_ok :: "heap \<Rightarrow> ref event list \<Rightarrow> (request, reply, object, 'w) group \<Rightarrow> bool" where
  "group_ok hn phase g \<longleftrightarrow> g_err g = None \<and> length (g_heap g) = length hn
     \<and> (\<forall>i<length hn. i \<notin> Resource ` set phase \<longrightarrow> g_heap g ! i = hn ! i)
     \<and> list_all2 same_identity hn (g_heap g)
     \<and> list_all2 (thread_ok hn (Resource ` set phase) (g_heap g)) phase (g_threads g)"

lemma group_ok_spawn:
  assumes "\<forall>e\<in>set phase. startable hn (Resource ` set phase) e" and "0 < fuel"
  shows "group_ok hn phase (spawn (spock_methods fuel) phase hn w)"
  using assms good_event
  by (auto simp: group_ok_def spawn_def thread_ok_def list_all2_map2 spock.heap_refl intro!: list.rel_refl_strong)

text \<open>One step of a goroutine changes only its own place and its own object.\<close>

lemma threads_ok_update:
  assumes "list_all2 (thread_ok hn W h) phase ts" and "i < length phase" and "distinct (map Resource phase)"
    and "\<And>r. r \<noteq> Resource (phase ! i) \<Longrightarrow> h' ! r = h ! r" and "thread_ok hn W h' (phase ! i) t"
  shows "list_all2 (thread_ok hn W h') phase (ts[i := t])"
  unfolding list_all2_conv_all_nth
proof (intro conjI allI impI)
  show "length phase = length (ts[i := t])" using assms(1) by (simp add: list_all2_lengthD)
  fix j
  assume j: "j < length phase"
  show "thread_ok hn W h' (phase ! j) (ts[i := t] ! j)"
  proof (cases "j = i")
    case True
    with assms(1,2,5) show ?thesis by (simp add: list_all2_lengthD[symmetric])
  next
    case False
    with assms(2,3) j have "Resource (phase ! j) \<noteq> Resource (phase ! i)" by (simp add: distinct_conv_nth)
    from assms(4)[OF this] have same: "h' ! Resource (phase ! j) = h ! Resource (phase ! j)" .
    have "(ts[i := t]) ! j = ts ! j" using False by simp
    with list_all2_nthD[OF assms(1) j] show ?thesis unfolding thread_ok_def same by (simp only:)
  qed
qed

lemma heap_update_same:
  assumes "same_identity (h ! r) x"
  shows "list_all2 same_identity h (h[r := x])"
  unfolding list_all2_conv_all_nth
proof (intro conjI allI impI)
  fix j
  assume "j < length h"
  then show "same_identity (h ! j) (h[r := x] ! j)"
    using assms reflpD[OF spock.keep_refl] by (cases "j = r") simp_all
qed simp

lemma group_ok_step:
  assumes "thread_step env i g = Some g'" and "group_ok hn phase g" and "cooperative env" and "distinct (map Resource phase)"
    and "\<forall>e\<in>set phase. Resource e < length hn"
  shows "group_ok hn phase g'"
proof -
  let ?W = "Resource ` set phase"
  from assms(1) obtain p where i: "i < length (g_threads g)" "g_threads g ! i = Some p"
    by (auto simp: thread_step_def split: if_splits option.splits)
  let ?e = "phase ! i"
  have ok: "g_err g = None" "length (g_heap g) = length hn" "\<forall>i<length hn. i \<notin> ?W \<longrightarrow> g_heap g ! i = hn ! i"
    "list_all2 same_identity hn (g_heap g)" "list_all2 (thread_ok hn ?W (g_heap g)) phase (g_threads g)"
    using assms(2) by (simp_all add: group_ok_def)
  have len: "length phase = length (g_threads g)" using ok(5) by (rule list_all2_lengthD)
  with i(1) have i': "i < length phase" by simp
  then have in_W: "Resource ?e \<in> ?W" by simp
  from list_all2_nthD[OF ok(5) i'] i(2)
  have p: "good hn ?W (Resource ?e) (post ?e (hn ! Resource ?e)) p (g_heap g ! Resource ?e)"
    by (simp only: thread_ok_def option.case)
  have upd: "list_all2 (thread_ok hn ?W (g_heap g)) phase ((g_threads g)[i := t])"
    if "thread_ok hn ?W (g_heap g) ?e t" for t
    by (rule threads_ok_update[OF ok(5) i' assms(4) refl that])
  have run_on: "group_ok hn phase (g\<lparr>g_threads := (g_threads g)[i := Some q]\<rparr>)"
      "group_ok hn phase (g\<lparr>g_threads := (g_threads g)[i := Some q], g_world := w\<rparr>)"
    if "good hn ?W (Resource ?e) (post ?e (hn ! Resource ?e)) q (g_heap g ! Resource ?e)" for q w
    using ok upd[of "Some q"] that by (simp_all add: group_ok_def thread_ok_def)
  show ?thesis
  proof (cases p)
    case (Return a)
    with p have a: "a = None" "post ?e (hn ! Resource ?e) (g_heap g ! Resource ?e)" by simp_all
    with assms(1) i Return have "g' = g\<lparr>g_threads := (g_threads g)[i := None], g_err := first_error (g_err g) None\<rparr>"
      by (simp add: thread_step_def)
    with ok a upd[of None] show ?thesis by (simp add: group_ok_def thread_ok_def first_error_def)
  next
    case (Call q k)
    obtain s w where s: "env False q (g_world g) = (s, w)" by fastforce
    with assms(3) have "friendly q s" unfolding cooperative_def by (metis fst_conv)
    with p Call have "good hn ?W (Resource ?e) (post ?e (hn ! Resource ?e)) (k s) (g_heap g ! Resource ?e)" by simp
    moreover have "g' = g\<lparr>g_threads := (g_threads g)[i := Some (k s)], g_world := w\<rparr>"
      using assms(1) i Call s ok(1) by (simp add: thread_step_def)
    ultimately show ?thesis by (simp add: run_on)
  next
    case (Load r k)
    have r: "r < length (g_heap g)" "good hn ?W (Resource ?e) (post ?e (hn ! Resource ?e)) (k (g_heap g ! r)) (g_heap g ! Resource ?e)"
      using p[unfolded Load] assms(5) i' ok(2,3) by (auto split: if_splits)
    moreover have "g' = g\<lparr>g_threads := (g_threads g)[i := Some (k (g_heap g ! r))]\<rparr>"
      using assms(1) i Load r(1) by (simp add: thread_step_def)
    ultimately show ?thesis by (simp add: run_on)
  next
    case (Store r f q)
    let ?h = "(g_heap g)[r := f (g_heap g ! r)]"
    from p[unfolded Store] have r: "r = Resource ?e" "same_identity (g_heap g ! r) (f (g_heap g ! r))"
      "good hn ?W r (post ?e (hn ! r)) q (f (g_heap g ! r))" by auto
    have bound: "r < length (g_heap g)" using r(1) assms(5) i' ok(2) by simp
    have "thread_ok hn ?W ?h ?e (Some q)" using r bound by (simp add: thread_ok_def)
    then have "list_all2 (thread_ok hn ?W ?h) phase ((g_threads g)[i := Some q])"
      by (intro threads_ok_update[OF ok(5) i' assms(4)]) (simp_all add: r(1))
    moreover have "list_all2 same_identity hn ?h" using ok(4) heap_update_same[OF r(2)] by (rule spock.heap_trans)
    moreover have "\<forall>i<length hn. i \<notin> ?W \<longrightarrow> ?h ! i = hn ! i"
      using ok(3) in_W[folded r(1)] nth_list_update_neq by metis
    moreover have "g' = g\<lparr>g_threads := (g_threads g)[i := Some q], g_heap := ?h\<rparr>"
      using assms(1) i Store bound by (simp add: thread_step_def)
    ultimately show ?thesis using ok(1,2) by (simp add: group_ok_def)
  qed (use p in simp_all)
qed

subsection \<open>The phases\<close>

text \<open>
  \<open>started phases h1 n hn\<close>: \<open>hn\<close> can be the heap when phase \<open>n\<close> starts, where \<open>h1\<close> was the one
  before the first. A plan is \<open>runnable\<close> when what the creates of each phase read has been made before.
\<close>

definition started :: "ref event list list \<Rightarrow> heap \<Rightarrow> nat \<Rightarrow> heap \<Rightarrow> bool" where
  "started phases h1 n hn \<longleftrightarrow> list_all2 same_identity h1 hn \<and>
     (\<forall>m<n. \<forall>e\<in>set (phases ! m). Action e = ActionCreate \<longrightarrow> Resource e < length hn \<and> ready (hn ! Resource e))"

definition runnable :: "ref event list list \<Rightarrow> heap \<Rightarrow> bool" where
  "runnable phases h1 \<longleftrightarrow> (\<forall>n<length phases. distinct (map Resource (phases ! n)) \<and>
     (\<forall>hn. started phases h1 n hn \<longrightarrow> (\<forall>e\<in>set (phases ! n). startable hn (Resource ` set (phases ! n)) e)))"

lemma started_first: "started phases h1 0 h1"
  by (simp add: started_def spock.heap_refl)

lemma returned_post:
  assumes "group_ok hn phase g" and "all_returned g" and "e \<in> set phase"
  shows "post e (hn ! Resource e) (g_heap g ! Resource e)"
proof -
  from assms(1) have ok: "list_all2 (thread_ok hn (Resource ` set phase) (g_heap g)) phase (g_threads g)"
    by (simp add: group_ok_def)
  from assms(3) obtain i where i: "i < length phase" "phase ! i = e" by (auto simp: in_set_conv_nth)
  with list_all2_lengthD[OF ok] assms(2) have "g_threads g ! i = None" by (simp add: all_returned_def)
  with list_all2_nthD[OF ok i(1)] i(2) show ?thesis by (simp only: thread_ok_def option.case)
qed

lemma group_ok_ready:
  assumes "group_ok hn phase g" and "all_returned g" and "r < length hn" and "ready (hn ! r)"
  shows "ready (g_heap g ! r)"
proof (cases "r \<in> Resource ` set phase")
  case True
  then obtain e where "e \<in> set phase" "r = Resource e" by blast
  with returned_post[OF assms(1,2), of e] assms(4) show ?thesis by (simp add: post_def split: if_splits)
next
  case False
  with assms(1,3,4) show ?thesis by (simp add: group_ok_def)
qed

lemma started_next:
  assumes "started phases h1 n hn" and "group_ok hn (phases ! n) g" and "all_returned g"
    and "\<forall>e\<in>set (phases ! n). Resource e < length hn"
  shows "started phases h1 (Suc n) (g_heap g)"
  unfolding started_def
proof (intro conjI allI impI ballI)
  have "list_all2 same_identity h1 hn" "list_all2 same_identity hn (g_heap g)"
    using assms(1,2) by (simp_all add: started_def group_ok_def)
  then show "list_all2 same_identity h1 (g_heap g)" by (rule spock.heap_trans)
  from \<open>list_all2 same_identity hn (g_heap g)\<close> have len: "length (g_heap g) = length hn" by (simp add: list_all2_lengthD)
  fix m e
  assume m: "m < Suc n" "e \<in> set (phases ! m)" "Action e = ActionCreate"
  have "Resource e < length hn \<and> ready (g_heap g ! Resource e)"
  proof (cases "m = n")
    case True
    with returned_post[OF assms(2,3)] m(2,3) assms(4) show ?thesis by (simp add: post_def)
  next
    case False
    with m(1) have "m < n" by simp
    with m assms(1) have "Resource e < length hn \<and> ready (hn ! Resource e)" unfolding started_def by blast
    with group_ok_ready[OF assms(2,3)] show ?thesis by blast
  qed
  then show "Resource e < length (g_heap g)" "ready (g_heap g ! Resource e)" using len by simp_all
qed

subsection \<open>The invariant of an execution that succeeds\<close>

fun unhindered :: "ref event list list \<Rightarrow> heap \<Rightarrow> (request, reply, object, 'w, ref) exec_state \<Rightarrow> bool" where
  "unhindered phases h1 (Executing n phase rest g log) \<longleftrightarrow>
     n < length phases \<and> phase = phases ! n \<and> rest = drop (Suc n) phases \<and>
     (\<exists>hn. started phases h1 n hn \<and> group_ok hn phase g)"
| "unhindered phases h1 (Finished err h w log) \<longleftrightarrow> err = None"
| "unhindered phases h1 Crashed \<longleftrightarrow> False"

lemma runnableD:
  assumes "runnable phases h1" and "n < length phases" and "started phases h1 n hn"
  shows "distinct (map Resource (phases ! n))" and "\<forall>e\<in>set (phases ! n). startable hn (Resource ` set (phases ! n)) e"
  using assms by (simp_all add: runnable_def)

lemma runnable_bounds:
  assumes "runnable phases h1" and "n < length phases" and "started phases h1 n hn"
  shows "\<forall>e\<in>set (phases ! n). Resource e < length hn"
  using runnableD(2)[OF assms] by (simp add: startable_def)

lemma group_ok_alive:
  assumes "group_ok hn phase g" and "Some p \<in> set (g_threads g)"
  shows "p \<noteq> Panic \<and> p \<noteq> Spin"
proof -
  from assms(1) have "list_all2 (thread_ok hn (Resource ` set phase) (g_heap g)) phase (g_threads g)" by (simp add: group_ok_def)
  with assms(2) obtain e where "thread_ok hn (Resource ` set phase) (g_heap g) e (Some p)"
    unfolding in_set_conv_nth list_all2_conv_all_nth by metis
  then show ?thesis by (auto simp: thread_ok_def)
qed

lemma unhindered_step:
  assumes "exec_step (spock_methods fuel) env s t" and "unhindered phases h1 s" and "cooperative env"
    and "runnable phases h1" and "0 < fuel"
  shows "unhindered phases h1 t"
  using assms(1,2)
proof (induction rule: exec_step.induct)
  case (goroutine i g g' n phase rest log)
  then obtain hn where hn: "started phases h1 n hn" "group_ok hn phase g" by auto
  from goroutine(2) have n: "n < length phases" "phase = phases ! n" by simp_all
  have "group_ok hn phase g'"
    using group_ok_step[OF goroutine(1) hn(2) assms(3)] runnableD(1)[OF assms(4) n(1) hn(1)]
      runnable_bounds[OF assms(4) n(1) hn(1)] n(2) by simp
  with hn(1) goroutine(2) show ?case by auto
next
  case (panic g n phase rest log)
  then obtain hn where "group_ok hn phase g" by auto
  from group_ok_alive[OF this panic(1)] show ?case by simp
next
  case (next_phase g n phase phase' rest log)
  then obtain hn where hn: "started phases h1 n hn" "group_ok hn (phases ! n) g" by auto
  from next_phase(3) have n: "n < length phases" "phase' # rest = drop (Suc n) phases" by simp_all
  then have n': "Suc n < length phases" by (metis drop_eq_Nil list.discI not_le_imp_less)
  with n(2) have rest: "phase' = phases ! Suc n" "rest = drop (Suc (Suc n)) phases"
    by (simp_all add: Cons_nth_drop_Suc[symmetric])
  have st: "started phases h1 (Suc n) (g_heap g)"
    by (rule started_next[OF hn next_phase(1) runnable_bounds[OF assms(4) n(1) hn(1)]])
  note group_ok_spawn[OF runnableD(2)[OF assms(4) n' st] assms(5), of "g_world g"]
  with st n' rest show ?case by auto
next
  case (failed g e n phase rest log)
  then obtain hn where "group_ok hn phase g" by auto
  with failed(2) show ?case by (simp add: group_ok_def)
qed simp

lemma unhindered_start:
  assumes "runnable phases h1" and "0 < fuel"
  shows "unhindered phases h1 (exec_start (spock_methods fuel) phases h1 w)"
proof (cases phases)
  case (Cons phase rest)
  then have "0 < length phases" by simp
  from group_ok_spawn[OF runnableD(2)[OF assms(1) this started_first] assms(2), of w] Cons started_first[of phases h1]
  show ?thesis by (auto simp: exec_start_def)
qed (simp add: exec_start_def)

lemma unhindered_reached:
  assumes "exec_reaches (spock_methods fuel) env (exec_start (spock_methods fuel) phases h1 w) s" and "cooperative env"
    and "runnable phases h1" and "0 < fuel"
  shows "unhindered phases h1 s"
  using assms(1)
proof (induction "exec_start (spock_methods fuel) phases h1 w" s rule: exec_reaches.induct)
  case here
  from unhindered_start[OF assms(3,4)] show ?case .
next
  case (more t u)
  from unhindered_step[OF more(3,2) assms(2-4)] show ?case .
qed

lemma unhindered_final:
  assumes "unhindered phases h1 s" and "exec_final s"
  shows "\<exists>h w log. s = Finished None h w log"
  using assms
proof (cases s)
  case (Executing n phase rest g log)
  with assms(1) obtain hn where "group_ok hn phase g" by auto
  moreover have "Some Spin \<in> set (g_threads g)" using assms(2) Executing by (simp add: exec_final_def)
  ultimately show ?thesis using group_ok_alive by blast
qed simp_all

end
