(* ===== verification/Success.thy ===== *)
theory Success
  imports Progress
begin

text \<open>
  A plan for the resources of \<open>ComputeDesired\<close> is runnable, so that \<open>Reconcile\<close> succeeds where
  every call succeeds: each field that hands an LSN or a timestamp over leads to an object that a
  phase before has created.
\<close>

subsection \<open>Every object that is pointed to is in the map\<close>

definition handed_types :: "string set" where
  "handed_types = {ResourceTypeSyncEvent, ResourceTypeLagTrackerCommitTS, ResourceTypeReplicationSlotAdvanceFromCTS}"

definition handed :: "object list \<Rightarrow> ident list" where
  "handed obs = map Identifier (filter (\<lambda>ob. Type (Identifier ob) \<in> handed_types) obs)"

definition peer_handed :: "node \<Rightarrow> node \<Rightarrow> ident list" where
  "peer_handed nn p = (if is_peer nn p then
     [mk_id ResourceTypeSyncEvent (pair_id (Name p) (source_of nn)),
      mk_id ResourceTypeLagTrackerCommitTS (pair_id (Name p) (Name nn)),
      mk_id ResourceTypeReplicationSlotAdvanceFromCTS (pair_id (Name p) (Name nn))] else [])"

lemma handed_append: "handed (xs @ ys) = handed xs @ handed ys"
  by (simp add: handed_def)

lemma handed_Nil: "handed [] = []"
  by (simp add: handed_def)

lemma handed_none: "\<forall>x\<in>set xs. handed (f x) = [] \<Longrightarrow> handed (concat (map f xs)) = []"
  by (induction xs) (simp_all add: handed_append handed_Nil)

lemma handed_peers: "handed (peers_objects cfg nn conns b ps) = concat (map (peer_handed nn) ps)"
proof (induction ps arbitrary: b)
  case (Cons p ps)
  have "handed (peer_objects cfg nn conns b p) = peer_handed nn p"
    by (simp add: handed_def handed_types_def peer_objects_def peer_handed_def type_defs new_defs)
  with Cons.IH show ?case by (simp add: handed_append)
qed (simp add: handed_Nil)

lemma handed_base: "handed (base_objects cfg conns n) = []"
  by (simp add: handed_def handed_types_def base_objects_def type_defs)

lemma handed_pair: "handed (pair_objects cfg conns m d a b) = []"
  by (simp add: handed_def handed_types_def pair_objects_def type_defs)

lemma handed_desired_none: "new_nodes cfg = [] \<Longrightarrow> mset (ord []) = {#} \<Longrightarrow> handed (desired_objects ord cfg conns base) = []"
  unfolding desired_objects_def Let_def handed_append pairs_objects_def
  by (simp add: handed_none handed_base handed_pair handed_Nil)

lemma handed_desired_one:
  assumes "new_nodes cfg = [(Name nn, nn)]" and "mset (ord [Name nn]) = {#Name nn#}"
  shows "handed (desired_objects ord cfg conns base) =
    concat (map (peer_handed nn) (Nodes cfg)) @ [mk_id ResourceTypeSyncEvent (pair_id (source_of nn) (Name nn))]"
proof -
  have src: "handed (source_objects nn conns b) = [mk_id ResourceTypeSyncEvent (pair_id (source_of nn) (Name nn))]" for b
    by (simp add: handed_def handed_types_def source_objects_def type_defs new_defs)
  from assms(2) have "ord [Name nn] = [Name nn]" by simp
  with assms(1) show ?thesis
    unfolding desired_objects_def Let_def handed_append pairs_objects_def
    by (simp add: handed_none handed_base handed_pair handed_Nil populate_objects_def Let_def handed_append handed_peers src)
qed

lemma peers_handed_distinct:
  assumes "distinct (map Name ps)" and "\<forall>p\<in>set ps. plain_name (Name p)"
  shows "distinct (concat (map (peer_handed nn) ps))"
  using assms
proof (induction ps)
  case (Cons p ps)
  have "distinct (peer_handed nn p)" by (simp add: peer_handed_def type_defs)
  moreover have "set (peer_handed nn p) \<inter> set (peer_handed nn q) = {}" if "q \<in> set ps" for q
  proof -
    from that Cons.prems have "Name p \<noteq> Name q" "plain_name (Name p)" "plain_name (Name q)" by auto
    then show ?thesis by (auto simp: peer_handed_def pair_id_eq type_defs)
  qed
  ultimately show ?case using Cons by (auto simp del: split_paired_All)
qed simp

lemma desired_handed_distinct:
  assumes "plain_config cfg" and "distinct (map Name (Nodes cfg))" and "\<And>ks. mset (ord ks) = mset ks"
  shows "distinct (handed (desired_objects ord cfg conns base))"
proof (cases "new_nodes cfg")
  case Nil
  with handed_desired_none[OF Nil, of ord conns base] assms(3) show ?thesis by simp
next
  case (Cons x xs)
  then obtain k nn where "map_of (new_nodes cfg) k = Some nn" by (cases x) (simp, metis map_of_Cons_code(2))
  from one_new[OF _ this] assms(1) have nn: "new_nodes cfg = [(Name nn, nn)]" by (simp add: plain_config_def)
  then have "map_of (new_nodes cfg) (Name nn) = Some nn" by simp
  from new_nodes_lookup[OF this] sources_okD[of cfg nn] assms(1)
  have "plain_name (source_of nn)" "\<forall>n\<in>set (Nodes cfg). plain_name (Name n)"
    by (auto simp: plain_config_def list_all_iff)
  then have "mk_id ResourceTypeSyncEvent (pair_id (source_of nn) (Name nn)) \<notin> set (peer_handed nn p)" if "p \<in> set (Nodes cfg)" for p
    using that by (auto simp: peer_handed_def pair_id_eq is_peer_def type_defs)
  with peers_handed_distinct[OF assms(2), of nn] \<open>\<forall>n\<in>set (Nodes cfg). plain_name (Name n)\<close> show ?thesis
    using handed_desired_one[OF nn, of ord conns base] assms(3) by auto
qed

lemma filter_map_distinct:
  assumes "distinct (map f (filter P xs))" and "i < length xs" and "j < length xs" and "P (xs ! i)" and "P (xs ! j)"
    and "f (xs ! i) = f (xs ! j)"
  shows "i = j"
  using assms
proof (induction xs arbitrary: i j)
  case (Cons x xs)
  have False if "P x" "k < length xs" "P (xs ! k)" "f (xs ! k) = f x" for k
    using that Cons.prems(1) by (auto simp: image_iff)
  with Cons show ?case by (cases i; cases j) (auto split: if_splits)
qed simp

lemma handed_key:
  assumes "plain_config cfg" and "distinct (map Name (Nodes cfg))" and ord: "\<And>ks. mset (ord ks) = mset ks"
    and compute: "ComputeDesired ord cfg conns [] = (h0, m)" and q: "q < length h0" "Type (Identifier (h0 ! q)) \<in> handed_types"
  shows "map_of m (Identifier (h0 ! q)) = Some q"
proof -
  have h0: "h0 = desired_objects ord cfg conns 0" using desired_heap[of ord cfg conns] compute by simp
  have "Identifier (h0 ! q) \<in> set (keys m)"
    using desired_keys[of ord cfg conns] compute q(1) by (simp add: h0[symmetric])
  then obtain r where r: "map_of m (Identifier (h0 ! q)) = Some r" using keys_lookup by fastforce
  have "q = r"
    using desired_at[OF compute r] q desired_handed_distinct[OF assms(1-3), of conns 0]
    by (intro filter_map_distinct[of Identifier "\<lambda>ob. Type (Identifier ob) \<in> handed_types" h0]) (simp_all add: handed_def h0)
  with r show ?thesis by simp
qed

subsection \<open>The plan is runnable\<close>

lemma pointee_type_handed: "pointer ob = Some q \<Longrightarrow> pointee_type ob \<in> handed_types"
  by (cases ob) (simp_all add: handed_types_def)

lemma pointee_after:
  assumes cfg: "plain_config cfg" and ord: "go_order ord" "go_order rord"
    and names: "distinct (map Name (Nodes cfg))" and sord: "\<And>ks. mset (sord ks) = mset ks"
    and compute: "ComputeDesired sord cfg conns [] = (h0, m)"
    and refresh: "RefreshActual rord env cfg conns m h0 w = Some (Inr actual, h1, w1)"
    and plan: "plan ord (spock_methods fuel) h1 actual m = Some phases" and n: "n < length phases"
    and e: "e \<in> set (phases ! n)" "Action e = ActionCreate" and st: "started phases h1 n hn"
  shows "pointee hn (Resource ` set (phases ! n)) (Resource e) (hn ! Resource e)"
proof -
  let ?vt = "spock_methods fuel"
  have sord': "set (sord ks) = set ks" for ks using sord by (metis set_mset_mset)
  note same = refresh_actual_refreshed[OF refresh]
  note keyed1 = refreshed_keyed[OF compute same, of fuel]
  note conc = in_concat_nth[OF n e(1)]
  note k = created_at_key[OF ord(1) keyed1 plan conc e(2)]
  note w = created_wired[OF compute same k]
  have len: "length h0 \<le> length h1" using same by (auto simp: refreshed_def dest!: list_all2_lengthD)
  have hn: "list_all2 same_identity h1 hn" using st by (simp add: started_def)
  have id: "same_identity (h1 ! Resource e) (hn ! Resource e)" using list_all2_nthD[OF hn] w(1) len by simp
  have own: "pointer (hn ! Resource e) = pointer (h1 ! Resource e)"
    "pointee_type (hn ! Resource e) = pointee_type (h1 ! Resource e)"
    using id same_pointee_type[OF id] by (simp_all add: same_identity_def)
  show ?thesis
  proof (cases "pointer (h1 ! Resource e)")
    case None
    with w(2) w(3) have "pointee_type (h0 ! Resource e) = ''''" by (simp add: wired_def same_identity_def)
    with same_pointee_type[OF w(3)] None own show ?thesis by (simp add: pointee_def)
  next
    case (Some q)
    note earlier = pointed_earlier[OF cfg ord sord' compute refresh plan n e Some]
    then obtain l x where x: "l < n" "x \<in> set (phases ! l)" "Action x = ActionCreate"
      "event_id ?vt h1 x = Identifier (h0 ! q)" by blast
    from x(1) n have "l < length phases" by simp
    from created_at_key[OF ord(1) keyed1 plan in_concat_nth[OF this x(2)] x(3)] x(4)
    have "map_of m (Identifier (h0 ! q)) = Some (Resource x)" by simp
    moreover have "map_of m (Identifier (h0 ! q)) = Some q"
      using handed_key[OF cfg names sord compute earlier(1)] earlier(2) pointee_type_handed[OF Some] by simp
    ultimately have q: "Resource x = q" by simp
    have ready: "ready (hn ! q)" using st x(1-3) q by (auto simp: started_def)
    have "same_identity (h1 ! q) (hn ! q)" using list_all2_nthD[OF hn] earlier(1) len by simp
    with refreshed_at[OF same earlier(1)] have "Identifier (hn ! q) = Identifier (h0 ! q)" by (simp add: same_identity_def)
    with earlier(2) own have type: "Type (Identifier (hn ! q)) = pointee_type (hn ! Resource e)" by simp
    have apart: "q \<notin> Resource ` set (phases ! n)"
    proof
      assume "q \<in> Resource ` set (phases ! n)"
      then obtain y where y: "y \<in> set (phases ! n)" "Resource y = q" by blast
      let ?P = "\<lambda>z. Action z = ActionCreate \<and> event_id ?vt h1 z = Identifier (h0 ! q)"
      have "?P x" "?P y" using x y q actions_in_order[OF ord(1) plan n n e(1) y(1)] e(2) by simp_all
      from two_in_filter[where P = ?P, OF x(2) y(1) x(1) n this]
      show False
        using plan_counts_desired[OF ord(1) keyed1 plan, of ActionCreate "Identifier (h0 ! q)"] by (simp split: if_splits)
    qed
    with e(1) have "q \<noteq> Resource e" by blast
    with Some own ready type apart earlier(1) len list_all2_lengthD[OF hn] show ?thesis by (simp add: pointee_def)
  qed
qed

lemma plan_actions:
  assumes "go_order ord" and "plan ord vt h actual desired = Some phases" and "e \<in> set (concat phases)"
  shows "Action e \<in> {ActionCreate, ActionUpdate, ActionDelete}"
proof (rule plan_phase_sections[OF assms(1,2)])
  fix ds us cs
  assume "phases = ds @ us @ cs" "\<And>e. e \<in> set (concat ds) \<Longrightarrow> Action e = ActionDelete"
    "\<And>e. e \<in> set (concat us) \<Longrightarrow> Action e = ActionUpdate" "\<And>e. e \<in> set (concat cs) \<Longrightarrow> Action e = ActionCreate"
  moreover from this(1) assms(3) have "e \<in> set (concat ds) \<or> e \<in> set (concat us) \<or> e \<in> set (concat cs)" by auto
  ultimately show ?thesis by blast
qed

lemma plan_runnable:
  assumes cfg: "plain_config cfg" and ord: "go_order ord" "go_order rord"
    and names: "distinct (map Name (Nodes cfg))" and sord: "\<And>ks. mset (sord ks) = mset ks"
    and compute: "ComputeDesired sord cfg conns [] = (h0, m)"
    and refresh: "RefreshActual rord env cfg conns m h0 w = Some (Inr actual, h1, w1)"
    and plan: "plan ord (spock_methods fuel) h1 actual m = Some phases"
  shows "runnable phases h1"
  unfolding runnable_def
proof (intro allI impI conjI ballI)
  note same = refresh_actual_refreshed[OF refresh]
  fix n
  assume n: "n < length phases"
  have "distinct (map (\<lambda>r. Identifier (h1 ! r)) (map Resource (phases ! n)))"
    using phase_ids_distinct[OF ord(1) plan n] by (simp add: comp_def)
  then show "distinct (map Resource (phases ! n))" by (simp only: distinct_map)
  fix hn e
  assume st: "started phases h1 n hn" and e: "e \<in> set (phases ! n)"
  note conc = in_concat_nth[OF n e]
  have "Resource e < length h1"
  proof (cases "Action e = ActionCreate")
    case True
    from created_wired(1)[OF compute same created_at_key[OF ord(1) refreshed_keyed[OF compute same] plan conc True]] same
    show ?thesis by (auto simp: refreshed_def dest!: list_all2_lengthD)
  next
    case False
    from event_unpointed[OF compute refresh ord(2,1) plan conc False] show ?thesis ..
  qed
  moreover have "length hn = length h1" using st by (auto simp: started_def dest: list_all2_lengthD)
  moreover have "Action e \<in> {ActionCreate, ActionUpdate, ActionDelete}"
    using plan_actions[OF ord(1) plan conc] .
  ultimately show "startable hn (Resource ` set (phases ! n)) e"
    using pointee_after[OF cfg ord names sord compute refresh plan n e _ st] by (simp add: startable_def)
qed

subsection \<open>\<open>Reconcile\<close> succeeds\<close>

lemma reconcile_unhindered:
  assumes cfg: "plain_config cfg" "distinct (map Name (Nodes cfg))"
    and ord: "go_order ord" "go_order rord" "\<And>ks. mset (sord ks) = mset ks" and env: "cooperative env" and "0 < fuel"
  obtains h0 m actual h1 w1 phases where
    "ComputeDesired sord cfg conns [] = (h0, m)" "RefreshActual rord env cfg conns m h0 w = Some (Inr actual, h1, w1)"
    "runnable phases h1"
    "\<And>s. Reconcile ord (spock_methods fuel) env (spock_reconciler sord rord env cfg conns) [] w s \<longleftrightarrow>
       exec_reaches (spock_methods fuel) env (exec_start (spock_methods fuel) phases h1 w1) s"
proof -
  let ?r = "spock_reconciler sord rord env cfg conns"
  obtain h0 m where compute: "ComputeDesired sord cfg conns [] = (h0, m)" by fastforce
  from refresh_actual_runs[where env = env and m = m and h = h0 and ord = rord and cfg = cfg and conns = conns and w = w, OF cooperative_total[OF env] desired_refs[OF compute] ord(2)]
    cooperative_inspectable[OF env]
  obtain res h1 w1 where "RefreshActual rord env cfg conns m h0 w = Some (res, h1, w1)" "\<not> isl res" by blast
  then obtain actual where refresh: "RefreshActual rord env cfg conns m h0 w = Some (Inr actual, h1, w1)"
    by (cases res) simp_all
  obtain phases where plan: "plan ord (spock_methods fuel) h1 actual m = Some phases"
    by (rule plan_sections[OF ord(1), of "spock_methods fuel" h1 actual m])
  have only: "Reconcile ord (spock_methods fuel) env ?r [] w s \<longleftrightarrow>
       exec_reaches (spock_methods fuel) env (exec_start (spock_methods fuel) phases h1 w1) s" for s
  proof
    assume "exec_reaches (spock_methods fuel) env (exec_start (spock_methods fuel) phases h1 w1) s"
    from Reconcile.executes[OF _ _ plan this, of ?r "[]" h0 w] compute refresh
    show "Reconcile ord (spock_methods fuel) env ?r [] w s" by simp
  next
    assume "Reconcile ord (spock_methods fuel) env ?r [] w s"
    then show "exec_reaches (spock_methods fuel) env (exec_start (spock_methods fuel) phases h1 w1) s"
      by (cases) (use compute refresh plan in simp_all)
  qed
  show thesis
    by (rule that[OF compute refresh plan_runnable[OF cfg(1) ord(1,2) cfg(2) ord(3) compute refresh plan] only])
qed

lemma reconcile_states:
  assumes "plain_config cfg" and "distinct (map Name (Nodes cfg))"
    and "go_order ord" and "go_order rord" and "\<And>ks. mset (sord ks) = mset ks" and "cooperative env" and "0 < fuel"
  shows "\<And>s. Reconcile ord (spock_methods fuel) env (spock_reconciler sord rord env cfg conns) [] w s \<Longrightarrow>
      (\<exists>h' w' log. s = Finished None h' w' log) \<or> (\<exists>t. exec_step (spock_methods fuel) env s t \<and>
        Reconcile ord (spock_methods fuel) env (spock_reconciler sord rord env cfg conns) [] w t)"
    and "\<exists>h' w' log. Reconcile ord (spock_methods fuel) env (spock_reconciler sord rord env cfg conns) [] w (Finished None h' w' log)"
proof -
  obtain h0 m actual h1 w1 phases where run: "runnable phases h1"
    and only: "\<And>s. Reconcile ord (spock_methods fuel) env (spock_reconciler sord rord env cfg conns) [] w s \<longleftrightarrow>
      exec_reaches (spock_methods fuel) env (exec_start (spock_methods fuel) phases h1 w1) s"
    by (rule reconcile_unhindered[where w = w and conns = conns, OF assms]) (rule that; assumption)
  show "(\<exists>h' w' log. s = Finished None h' w' log) \<or> (\<exists>t. exec_step (spock_methods fuel) env s t \<and>
        Reconcile ord (spock_methods fuel) env (spock_reconciler sord rord env cfg conns) [] w t)"
    if "Reconcile ord (spock_methods fuel) env (spock_reconciler sord rord env cfg conns) [] w s" for s
  proof (cases "exec_final s")
    case True
    from unhindered_final[OF unhindered_reached[OF that[unfolded only] assms(6) run assms(7)] this] show ?thesis by blast
  next
    case False
    with exec_progress obtain t where t: "exec_step (spock_methods fuel) env s t" by blast
    from exec_reaches.more[OF that[unfolded only] this] t show ?thesis unfolding only by blast
  qed
  obtain t where t: "exec_reaches (spock_methods fuel) env (exec_start (spock_methods fuel) phases h1 w1) t" "exec_final t"
    using exec_reaches_final by blast
  from unhindered_final[OF unhindered_reached[OF t(1) assms(6) run assms(7)] t(2)] t(1)
  show "\<exists>h' w' log. Reconcile ord (spock_methods fuel) env (spock_reconciler sord rord env cfg conns) [] w (Finished None h' w' log)"
    unfolding only by blast
qed

text \<open>
  Claim C5: \<open>Reconcile\<close> succeeds when nothing fails around it. Let the names be without a dash or an
  underscore and no two of them the same, at most one node be populated, from another one of the
  configuration, and every call succeed and every wait be over at once, in whatever state the servers
  are: then each state of each interleaving is a result of \<open>nil\<close> or can go on to another one, and
  none goes on for ever, so that the code neither panics nor hangs nor reports an error of its own.
  In particular an LSN that a wait reads has been set before.
\<close>

theorem reconcile_succeeds:
  assumes "plain_config cfg" and "distinct (map Name (Nodes cfg))"
    and "go_order ord" and "go_order rord" and "\<And>ks. mset (sord ks) = mset ks" and "cooperative env" and "0 < fuel"
  shows "(\<forall>s. Reconcile ord (spock_methods fuel) env (spock_reconciler sord rord env cfg conns) [] w s \<longrightarrow>
      (\<exists>h' w' log. s = Finished None h' w' log) \<or>
      (\<exists>t. exec_step (spock_methods fuel) env s t \<and>
        Reconcile ord (spock_methods fuel) env (spock_reconciler sord rord env cfg conns) [] w t)) \<and>
    wfp (\<lambda>t s. exec_step (spock_methods fuel) env s t) \<and>
    (\<exists>h' w' log. Reconcile ord (spock_methods fuel) env (spock_reconciler sord rord env cfg conns) [] w (Finished None h' w' log))"
  using reconcile_states[OF assms, of conns w] exec_wf by blast

text \<open>A world where every call succeeds, and where no resource exists yet.\<close>

fun blank_row :: "stmt \<Rightarrow> reply" where
  "blank_row SendSyncEvent = RText ''0/16B3748''"
| "blank_row (LsnFromCommitTs a ts) = RText ''0/16B3748''"
| "blank_row (SlotRestartLsn a) = RText ''0/0''"
| "blank_row (SubStatus a) = RText ''replicating''"
| "blank_row (CommitTimestamp a b) = RTime 0"
| "blank_row (WaitSyncEvent a b n) = RBool True"
| "blank_row (ProgressReached a b) = RBool True"
| "blank_row q = RBool False"

definition blank_env :: "(unit, request, reply) env" where
  "blank_env c q w = ((case q of
      PoolQueryRow k st \<Rightarrow> blank_row st
    | TxQueryRow t st \<Rightarrow> blank_row st
    | PoolQuery k st \<Rightarrow> RRows [] None
    | Begin k \<Rightarrow> RTx 0
    | ListClusters n l \<Rightarrow> RClusters [(''pgedge-n1'', healthyPhase)]
    | NewPool cs \<Rightarrow> RPool 0
    | _ \<Rightarrow> ROk), w)"

lemma blank_row_answer: "row_answer q (blank_row q)"
  by (cases q) simp_all

lemma blank_rows_answer: "rows_answer q (RRows [] None)"
  by (cases q) simp_all

lemma blank_cooperative: "cooperative blank_env"
  unfolding cooperative_def
proof (intro allI)
  fix q and w :: unit
  show "friendly q (fst (blank_env False q w))" by (cases q) (simp_all add: blank_env_def blank_row_answer blank_rows_answer)
qed

theorem reconcile_succeeds_witness:
  "\<exists>h' w' log. Reconcile (\<lambda>n ks. ks) (spock_methods 1) blank_env
     (spock_reconciler (\<lambda>ks. ks) (\<lambda>n ks. ks) blank_env add_node_config add_node_conns) [] () (Finished None h' w' log)"
proof -
  have "distinct (map Name (Nodes add_node_config))" by code_simp
  from reconcile_succeeds[OF sample_plain this go_order_id go_order_id refl blank_cooperative, of 1 add_node_conns "()"]
  show ?thesis by simp
qed

subsection \<open>A node is added step by step\<close>

text \<open>An entry of the log: the create of a resource that returned \<open>nil\<close>.\<close>

fun created_entry :: "heap \<Rightarrow> nat \<times> ref event \<times> goerror option \<Rightarrow> ident \<Rightarrow> bool" where
  "created_entry h (n, e, res) x \<longleftrightarrow> Action e = ActionCreate \<and> Identifier (h ! Resource e) = x \<and> res = None"

lemma created_logged:
  assumes "exec_reaches (spock_methods fuel) env (exec_start (spock_methods fuel) phases h1 w1) (Finished None h' w' log)"
    and "created_in (spock_methods fuel) h1 phases i x"
  shows "\<exists>k<length log. fst (log ! k) = i \<and> created_entry h1 (log ! k) x"
proof -
  from exec_inv_reached[OF assms(1)] have complete: "\<forall>m<length phases. mset (returned_in log m) = mset (phases ! m)"
    and none: "\<forall>m e res. (m, e, res) \<in> set log \<longrightarrow> m < length phases \<and> res = None" by simp_all
  from assms(2) obtain e where e: "i < length phases" "e \<in> set (phases ! i)" "Action e = ActionCreate"
    "Identifier (h1 ! Resource e) = x" by (auto simp: created_in_def list_ex_iff)
  with complete have "e \<in> set (returned_in log i)" by (metis set_mset_mset)
  then obtain res where "(i, e, res) \<in> set log" unfolding in_returned_in ..
  moreover from none this have "res = None" by blast
  ultimately obtain k where "k < length log" "log ! k = (i, e, None)" by (auto simp: in_set_conv_nth)
  with e show ?thesis by (intro exI[of _ k]) simp
qed

text \<open>
  Claim C6: A node is added step by step. Let the names of the nodes have neither a dash nor an underscore
  and \<open>nn\<close> be the only node to be populated, from another node of the configuration (\<open>plain_config\<close>), and
  let \<open>p\<close> be a further node. When \<open>Reconcile\<close> returns \<open>nil\<close> and the two subscriptions of \<open>nn\<close> (from the
  source and from \<open>p\<close>) were not there yet, the creates of the ten resources from the slot on \<open>p\<close> to \<open>p\<close>'s
  subscription (\<open>add_chain\<close>) were made without an error and returned one after the other in this order, in
  whatever interleaving; and the create of the peer's disabled subscription returned without an error after
  that of the slot and before that of the source's sync event, so before the lag tracker was read.
\<close>

theorem reconcile_adds_node:
  assumes "plain_config cfg" and "go_order ord" and "go_order rord" and "\<And>ks. set (sord ks) = set ks"
    and "map_of (new_nodes cfg) (Name nn) = Some nn" and "p \<in> set (Nodes cfg)" and "is_peer nn p"
    and "ComputeDesired sord cfg conns [] = (h0, m)"
    and "RefreshActual rord env cfg conns m h0 w = Some (Inr actual, h1, w1)"
    and "\<not> has_key actual (mk_id ResourceTypeSubscription (spock_sub_name (source_of nn) (Name nn)))"
    and "\<not> has_key actual (mk_id ResourceTypeSubscription (spock_sub_name (Name p) (Name nn)))"
    and "Reconcile ord (spock_methods fuel) env (spock_reconciler sord rord env cfg conns) [] w (Finished None h' w' log)"
  shows "\<exists>ks d. sorted_wrt (<) ks \<and> list_all2 (\<lambda>k x. k < length log \<and> created_entry h1 (log ! k) x) ks (add_chain cfg nn p catchup)
    \<and> d < length log \<and> created_entry h1 (log ! d) (disabled_id nn p) \<and> ks ! 0 < d \<and> d < ks ! 4"
  using assms(12)
proof (rule Reconcile_FinishedE)
  fix h0' m' actual' h1' w1' phases
  assume c: "rc_ComputeDesired (spock_reconciler sord rord env cfg conns) [] = (h0', m')"
    and r: "rc_RefreshActual (spock_reconciler sord rord env cfg conns) m' h0' w = Some (Inr actual', h1', w1')"
    and plan: "plan ord (spock_methods fuel) h1' actual' m' = Some phases"
    and run: "exec_reaches (spock_methods fuel) env (exec_start (spock_methods fuel) phases h1' w1') (Finished None h' w' log)"
  have m': "h0' = h0" "m' = m" using c unfolding spock_reconciler_simps assms(8) by simp_all
  have h1': "actual' = actual" "h1' = h1" using r unfolding spock_reconciler_simps m' assms(9) by simp_all
  note plan = plan[unfolded m' h1'] and run = run[unfolded h1']
  have "\<not> has_key actual x" if x: "x \<in> set (add_chain cfg nn p catchup)" for x
    using assms(10,11) populate_missing[OF assms(8,9,3) chain_in_map[OF assms(1,4,5,6,7,8) x] chain_types[OF x]] by blast
  moreover have "\<not> has_key actual (disabled_id nn p)"
    by (rule populate_missing[OF assms(8,9,3) disabled_in_map[OF assms(1,4,5,6,7,8)] disabled_type])
  ultimately have missing: "\<forall>x\<in>set (disabled_id nn p # add_chain cfg nn p catchup). \<not> has_key actual x" by simp
  from chain_created[OF assms(1,4,5,6,7,8) refresh_actual_refreshed[OF assms(9)] assms(2) plan missing]
  obtain ps d where ps: "sorted_wrt (<) ps"
    "list_all2 (created_in (spock_methods fuel) h1 phases) ps (add_chain cfg nn p catchup)"
    and d: "created_in (spock_methods fuel) h1 phases d (disabled_id nn p)" "ps ! 0 < d" "d < ps ! 4" by blast
  have sorted: "sorted (map fst log)"
    using log_sorted[OF run exec_inv_start] by (simp add: exec_start_def split: list.splits)
  note entry = created_logged[OF run]
  from positions_in_order[where Q = "created_entry h1", OF ps(2,1) sorted entry] obtain ks where
    ks: "sorted_wrt (<) ks" "list_all2 (\<lambda>k x. k < length log \<and> created_entry h1 (log ! k) x) ks (add_chain cfg nn p catchup)"
    "map (\<lambda>k. fst (log ! k)) ks = ps" by blast
  from entry[OF d(1)] obtain k where k: "k < length log" "fst (log ! k) = d" "created_entry h1 (log ! k) (disabled_id nn p)"
    by blast
  have len: "length ks = 10" using list_all2_lengthD[OF ks(2)] by (simp add: add_chain_def)
  have at: "j < 10 \<Longrightarrow> ks ! j < length log \<and> fst (log ! (ks ! j)) = ps ! j" for j
    using list_all2_nthD[OF ks(2), of j] ks(3) len by auto
  have "ks ! 0 < k"
    using sorted_nth_mono[OF sorted, of k "ks ! 0"] at[of 0] k(1,2) d(2) by (cases "ks ! 0 < k") auto
  moreover have "k < ks ! 4"
    using sorted_nth_mono[OF sorted, of "ks ! 4" k] at[of 4] k(1,2) d(3) by (cases "k < ks ! 4") auto
  ultimately show ?thesis using ks(1,2) k(1,3) by blast
qed simp

lemma blank_missing:
  assumes "RefreshActual ord blank_env cfg conns m h w = Some (Inr actual, h', w')"
    and "well_keyed (spock_methods fuel) h m" and "go_order ord"
  shows "\<not> has_key actual i"
proof (rule refresh_actual_parts[OF assms])
  fix h1 actual1 w1 obs
  assume at: "\<And>i. i \<in> fst ` set m \<Longrightarrow> at_key m i < length h \<and>
       (\<exists>qs st. answers blank_env qs \<and> reported (h ! at_key m i) qs st \<and> h1 ! at_key m i = set_status st (h ! at_key m i))"
    and m1: "\<And>i. map_of actual1 i = (if i \<in> fst ` set m \<and> Exists (Status (h1 ! at_key m i)) then Some (at_key m i) else None)"
    and disc: "discover_each blank_env cfg conns (Nodes cfg) (h1, actual1) w1 = Some ((h1 @ obs, actual), w')"
  have missing: "st = existing False" if "answers blank_env qs" "reported ob qs st" for qs st ob
    using that by (cases ob) (auto simp: answers_def blank_env_def)
  have "map_of actual1 i = None"
  proof (cases "i \<in> fst ` set m")
    case True
    from at[OF True] obtain qs st where "answers blank_env qs" "reported (h ! at_key m i) qs st"
      "h1 ! at_key m i = set_status st (h ! at_key m i)" by blast
    with missing[OF this(1,2)] m1[of i] show ?thesis by (simp add: existing_def)
  qed (use m1[of i] in simp)
  moreover have "catalogs blank_env (map Name (Nodes cfg)) (\<lambda>c. []) (\<lambda>c. [])"
    by (simp add: catalogs_def blank_env_def)
  from discover_each_grows[OF this disc] have "map_of actual i = map_of actual1 i"
    by (simp add: grows_def orphan_ids_def)
  ultimately show ?thesis by simp
qed

theorem reconcile_adds_node_witness:
  "\<exists>h1 log ks d. sorted_wrt (<) ks \<and> list_all2 (\<lambda>k x. k < length (log :: ref exec_log) \<and> created_entry h1 (log ! k) x) ks
      (add_chain add_node_config (added_node ''n3'' ''n1'') (plain_node ''n2'') True)
    \<and> d < length log \<and> created_entry h1 (log ! d) (disabled_id (added_node ''n3'' ''n1'') (plain_node ''n2''))
    \<and> ks ! 0 < d \<and> d < ks ! 4"
proof -
  let ?nn = "added_node ''n3'' ''n1''" and ?p = "plain_node ''n2''"
  have names: "distinct (map Name (Nodes add_node_config))" by code_simp
  have node: "map_of (new_nodes add_node_config) (Name ?nn) = Some ?nn" "?p \<in> set (Nodes add_node_config)" "is_peer ?nn ?p"
    by code_simp+
  show ?thesis
  proof (rule reconcile_unhindered[OF sample_plain names go_order_id go_order_id refl blank_cooperative, of 1 add_node_conns "()"])
    fix h0' m' actual h1 w1 phases
    assume c: "ComputeDesired (\<lambda>ks. ks) add_node_config add_node_conns [] = (h0', m')"
      and r: "RefreshActual (\<lambda>n ks. ks) blank_env add_node_config add_node_conns m' h0' () = Some (Inr actual, h1, w1)"
    note missing = blank_missing[OF r desired_keyed(1)[OF c, of 0] go_order_id]
    obtain h' w' log where run: "Reconcile (\<lambda>n ks. ks) (spock_methods 1) blank_env
        (spock_reconciler (\<lambda>ks. ks) (\<lambda>n ks. ks) blank_env add_node_config add_node_conns) [] () (Finished None h' w' log)"
      using reconcile_states(2)[OF sample_plain names go_order_id go_order_id refl blank_cooperative zero_less_one] by blast
    from reconcile_adds_node[OF sample_plain go_order_id go_order_id refl node c r missing missing run, of True]
    show ?thesis by blast
  qed simp
qed

end
