(* ===== verification/Pg.thy ===== *)
theory Pg
  imports Cluster
begin

text \<open>
  \<open>internal/pg/pg.go\<close>: connection strings, connections and pools, and waiting for a node to accept
  connections. Loading the certificate, pgx's parser and the connection itself are calls to the
  environment; a parsed configuration is the string it was made from. \<open>TLSConfig\<close> is not modelled:
  its fields are constants that only pgx reads.
\<close>

subsection \<open>Connection strings\<close>

definition defaultPort :: nat where
  "defaultPort = 5432"

text \<open>In nanoseconds, as a \<open>time.Duration\<close>.\<close>

definition connectTimeout :: nat where
  "connectTimeout = 3 * 1000000000"

definition defaultCertPath :: string where
  "defaultCertPath = ''/certificates/admin/tls.crt''"

definition defaultKeyPath :: string where
  "defaultKeyPath = ''/certificates/admin/tls.key''"

definition connectHost :: "string \<Rightarrow> string \<Rightarrow> string" where
  "connectHost hostname internalHostname = (if internalHostname \<noteq> '''' then internalHostname else hostname)"

definition conn_string :: "string \<Rightarrow> string \<Rightarrow> string \<Rightarrow> string" where
  "conn_string host dbName user =
     ''host='' @ host @ '' port='' @ show_nat defaultPort @ '' dbname='' @ dbName @ '' user='' @ user
     @ '' sslmode=require connect_timeout='' @ show_nat (connectTimeout div 1000000000)"

subsection \<open>Connections and pools\<close>

text \<open>A call that can fail, with the error passed on: \<open>wrap\<close> is what the code makes of it.\<close>

definition attempt :: "request \<Rightarrow> (goerror \<Rightarrow> goerror) \<Rightarrow> ('o, goerror + 'a) program \<Rightarrow> ('o, goerror + 'a) program" where
  "attempt q wrap p = ask q (\<lambda>s. case err_of s of Some e \<Rightarrow> Return (Inl (wrap e)) | None \<Rightarrow> p)"

definition buildConnConfig :: "string \<Rightarrow> string \<Rightarrow> string \<Rightarrow> string \<Rightarrow> string \<Rightarrow> ('o, goerror + string) program" where
  "buildConnConfig host dbName user certPath keyPath =
     attempt (LoadX509KeyPair certPath keyPath) (Wrapf ''load TLS client cert'')
       (let connStr = conn_string host dbName user in
        attempt (ParseConfig connStr) (Wrapf ''parse connection string'') (Return (Inr connStr)))"

definition Connect :: "string \<Rightarrow> string \<Rightarrow> string \<Rightarrow> 'o op" where
  "Connect host dbName user =
     Effects.bind (buildConnConfig host dbName user defaultCertPath defaultKeyPath) (\<lambda>r. case r of
         Inl e \<Rightarrow> Return (Some e)
       | Inr cfg \<Rightarrow> ask (ConnectConfig cfg) (\<lambda>s. Return (err_of s)))"

definition buildPoolConfig :: "string \<Rightarrow> string \<Rightarrow> string \<Rightarrow> string \<Rightarrow> string \<Rightarrow> string \<Rightarrow> ('o, goerror + string) program" where
  "buildPoolConfig hostname internalHostname dbName user certPath keyPath =
     Effects.bind (buildConnConfig (connectHost hostname internalHostname) dbName user certPath keyPath) (\<lambda>r. case r of
         Inl e \<Rightarrow> Return (Inl e)
       | Inr connCfg \<Rightarrow> attempt (ParsePoolConfig connCfg) (Wrapf ''parse pool config'') (Return (Inr connCfg)))"

definition ConnectPool :: "string \<Rightarrow> string \<Rightarrow> string \<Rightarrow> string \<Rightarrow> ('o, goerror + nat) program" where
  "ConnectPool hostname internalHostname dbName user =
     Effects.bind (buildPoolConfig hostname internalHostname dbName user defaultCertPath defaultKeyPath) (\<lambda>r. case r of
         Inl e \<Rightarrow> Return (Inl e)
       | Inr poolCfg \<Rightarrow> ask (NewPool poolCfg) (\<lambda>s. case s of
             RPool p \<Rightarrow> Return (Inr p)
           | RErr e \<Rightarrow> Return (Inl e)
           | _ \<Rightarrow> Return (Inl (ErrOther ''new pool''))))"

primrec wait_ready :: "nat \<Rightarrow> string \<Rightarrow> string \<Rightarrow> string \<Rightarrow> string \<Rightarrow> 'o op" where
  "wait_ready 0 hostname host dbName user = Spin"
| "wait_ready (Suc fuel) hostname host dbName user =
     Effects.bind (Connect host dbName user) (\<lambda>err. case err of
         None \<Rightarrow> ask ConnClose (\<lambda>s. ok)
       | Some e \<Rightarrow> poll_again 3000 (''timed out waiting for '' @ hostname) (wait_ready fuel hostname host dbName user))"

definition WaitReady :: "nat \<Rightarrow> string \<Rightarrow> string \<Rightarrow> string \<Rightarrow> string \<Rightarrow> 'o op" where
  "WaitReady fuel hostname internalHostname dbName user =
     wait_ready fuel hostname (connectHost hostname internalHostname) dbName user"

subsection \<open>Polling ends with the context\<close>

lemma ends_attempt: "(\<And>s w'. env c q w = (s, w') \<Longrightarrow> ends env c h p w') \<Longrightarrow> ends env c h (attempt q f p) w"
  unfolding attempt_def by (rule ends_ask) (auto simp: ends_return split: option.split)

text \<open>How many calls are left after a run.\<close>

lemma run_left:
  assumes "done_law env left"
  shows "run env c p h w = (x, h', w') \<Longrightarrow> left w' \<le> left w"
proof (induction p arbitrary: h w rule: prog_induct)
  case (Call q k)
  obtain s w1 where e: "env c q w = (s, w1)" by fastforce
  with assms have "left w1 \<le> left w" unfolding done_law_def deadline_def by (metis snd_conv)
  with Call e show ?case by (metis (no_types, lifting) case_prod_conv le_trans run.simps(4))
qed (auto split: if_splits)

lemma ends_Connect: "ends env c h (Connect host dbName user) w"
  unfolding Connect_def buildConnConfig_def Let_def
  by (intro ends_bind ends_attempt) (auto intro: ends_ask ends_return split: sum.split)

lemma ends_wait_ready:
  assumes "done_law env left"
  shows "left w < fuel \<Longrightarrow> ends env c h (wait_ready fuel hostname host dbName user) w"
proof (induction fuel arbitrary: w h)
  case (Suc fuel)
  show ?case
    unfolding wait_ready.simps
  proof (intro ends_bind ends_Connect)
    fix err h1 w1
    assume "run env c (Connect host dbName user) h w = (Returned err, h1, w1)"
    from run_left[OF assms this] Suc.prems have left: "left w1 < Suc fuel" by simp
    show "ends env c h1 (case err of None \<Rightarrow> ask ConnClose (\<lambda>s. ok)
       | Some e \<Rightarrow> poll_again 3000 (''timed out waiting for '' @ hostname) (wait_ready fuel hostname host dbName user)) w1"
    proof (cases err)
      case (Some e)
      have "ends env c h1 (wait_ready fuel hostname host dbName user) w2"
        if e: "env c (DoneOrAfter 3000) w1 = (s, w2)" "s \<noteq> RDone" for s w2
      proof (rule Suc.IH)
        note d = assms[unfolded done_law_def deadline_def]
        have "0 < left w1" using d e by (metis fst_conv gr0I)
        with d e(1) have "left w2 < left w1" by (metis request.distinct snd_conv)
        with left show "left w2 < fuel" by simp
      qed
      with Some show ?thesis by (simp add: ends_poll_again)
    qed (auto intro: ends_ask ends_return)
  qed
qed simp

subsection \<open>Properties\<close>

lemma bind_attempt:
  "Effects.bind (attempt q wrap p) f = ask q (\<lambda>s. case err_of s of Some e \<Rightarrow> f (Inl (wrap e)) | None \<Rightarrow> Effects.bind p f)"
  unfolding attempt_def bind_ask by (rule arg_cong[of _ _ "ask q"]) (auto split: option.split)

lemma bind_attempt_error:
  assumes "\<And>e. f (Inl e) = Return (Inl e)"
  shows "Effects.bind (attempt q wrap p) f = attempt q wrap (Effects.bind p f)"
  unfolding bind_attempt unfolding attempt_def assms ..

lemma Connect_steps:
  "Connect host dbName user =
     exec (LoadX509KeyPair defaultCertPath defaultKeyPath) ''load TLS client cert'' (
     exec (ParseConfig (conn_string host dbName user)) ''parse connection string'' (
     ask (ConnectConfig (conn_string host dbName user)) (\<lambda>s. Return (err_of s))))"
  by (simp add: Connect_def buildConnConfig_def bind_attempt Let_def exec_def unless_def failed_def cong: option.case_cong)

lemma nil_bind_Connect:
  assumes "\<And>qs e. nil_only_if (f (Some e)) (\<lambda>rs. Q (qs @ rs))"
    and "\<And>qs s. err_of s = None \<Longrightarrow> nil_only_if (f None) (\<lambda>rs. Q (qs @ (ConnectConfig (conn_string host dbName user), s) # rs))"
  shows "nil_only_if (Effects.bind (Connect host dbName user) f) Q"
proof -
  have "nil_only_if (f (err_of s)) (\<lambda>rs. Q (qs @ (ConnectConfig (conn_string host dbName user), s) # rs))" for qs s
    using assms(1)[of _ "qs @ [(ConnectConfig (conn_string host dbName user), s)]"] assms(2)[of s qs]
    by (cases "err_of s") simp_all
  note last = this[of _ "[_, _]", simplified]
  note early = assms(1)[of _ "[_]", simplified] assms(1)[of _ "[_, _]", simplified]
  show ?thesis
    unfolding Connect_steps bind_exec bind_ask bind.simps
    by (intro nil_ask) (auto split: option.split intro!: nil_ask early last)
qed

definition connected :: "string \<Rightarrow> calls \<Rightarrow> bool" where
  "connected connStr qs \<longleftrightarrow> (\<exists>ps s s'. qs = ps @ [(ConnectConfig connStr, s), (ConnClose, s')] \<and> err_of s = None)"

lemma connected_append: "connected connStr qs \<Longrightarrow> connected connStr (ps @ qs)"
  by (force simp: connected_def)

lemma nil_wait_ready:
  "nil_only_if (wait_ready fuel hostname host dbName user :: 'o op) (connected (conn_string host dbName user))"
proof (induction fuel)
  case (Suc fuel)
  let ?c = "conn_string host dbName user"
  have again: "nil_only_if (poll_again 3000 msg (wait_ready fuel hostname host dbName user :: 'o op)) (\<lambda>rs. connected ?c (qs @ rs))"
    for msg qs
  proof (rule nil_poll_again, rule nil_mono[OF Suc])
    fix s rs
    assume "connected ?c rs"
    from connected_append[OF this, of "qs @ [(DoneOrAfter 3000, s)]"] show "connected ?c (qs @ (DoneOrAfter 3000, s) # rs)" by simp
  qed
  have closed: "nil_only_if (ask ConnClose (\<lambda>s. ok)) (\<lambda>rs. connected ?c (qs @ (ConnectConfig ?c, s) # rs))"
    if "err_of s = None" for qs s
    using that by (intro nil_ask) (auto simp: connected_def)
  show ?case
    unfolding wait_ready.simps by (rule nil_bind_Connect) (simp_all only: option.case again closed)
qed simp

text \<open>
  \<open>WaitReady\<close> returns \<open>nil\<close> only after a connection to the node was made, with the
  connection string of the host that the internal host name prefers, and the last thing it does is to
  close that connection.
\<close>

lemma ready_nil_connected:
  assumes "run env c (WaitReady fuel hostname internalHostname dbName user) h w = (Returned None, h', w')"
  shows "connected (conn_string (connectHost hostname internalHostname) dbName user)
    (trace env c (WaitReady fuel hostname internalHostname dbName user) h w)"
  using nil_only_if_trace[OF nil_wait_ready assms[unfolded WaitReady_def]] unfolding WaitReady_def .

text \<open>A server that refuses connections twice.\<close>

definition starting_env :: "(nat, request, reply) env" where
  "starting_env c q w = (case q of
       ConnectConfig s \<Rightarrow> (if w > 10 then RErr (ErrOther ''connection refused'') else ROk, w - 1)
     | ContextErr \<Rightarrow> (if w = 0 then RErr ErrDeadlineExceeded else ROk, w)
     | DoneOrAfter n \<Rightarrow> (if w = 0 then RDone else ROk, w - 1)
     | NewPool s \<Rightarrow> (RPool w, w - 1)
     | _ \<Rightarrow> (ROk, w - 1))"

lemma sample_conn_string:
  "conn_string (connectHost ''n1-rw'' ''n1-rw.local'') ''app'' ''admin'' =
     ''host=n1-rw.local port=5432 dbname=app user=admin sslmode=require connect_timeout=3''"
  by (simp add: connectHost_def conn_string_def defaultPort_def connectTimeout_def show_nat.simps digit_def char_of_def bit_0)

lemma run_wait_ready:
  "run env c (wait_ready (Suc fuel) hostname host dbName user) h w =
     (case run env c (Connect host dbName user) h w of
        (Returned None, h', w') \<Rightarrow> run env c (ask ConnClose (\<lambda>s. ok)) h' w'
      | (Returned (Some e), h', w') \<Rightarrow> run env c (poll_again 3000 (''timed out waiting for '' @ hostname)
          (wait_ready fuel hostname host dbName user)) h' w'
      | x \<Rightarrow> x)"
  by (auto simp: run_bind split: prod.split outcome.split option.split)

lemma ready_nil_connected_witness:
  "connected ''host=n1-rw.local port=5432 dbname=app user=admin sslmode=require connect_timeout=3''
    (trace starting_env False (WaitReady 3 ''n1-rw'' ''n1-rw.local'' ''app'' ''admin'') ([] :: heap) 14)"
proof -
  have "run starting_env False (WaitReady 3 ''n1-rw'' ''n1-rw.local'' ''app'' ''admin'') ([] :: heap) 14 = (Returned None, [], 6)"
    by (simp add: WaitReady_def run_wait_ready Connect_steps run_exec run_unless run_ask run_poll_again
        eval_nat_numeral(3)[of num.One] numeral_2_eq_2 starting_env_def err_of_def del: wait_ready.simps)
  from ready_nil_connected[OF this] show ?thesis unfolding sample_conn_string .
qed

lemma ConnectPool_steps:
  "ConnectPool hostname internalHostname dbName user =
     (let connStr = conn_string (connectHost hostname internalHostname) dbName user in
      attempt (LoadX509KeyPair defaultCertPath defaultKeyPath) (Wrapf ''load TLS client cert'') (
      attempt (ParseConfig connStr) (Wrapf ''parse connection string'') (
      attempt (ParsePoolConfig connStr) (Wrapf ''parse pool config'') (
      ask (NewPool connStr) (\<lambda>s. case s of
          RPool p \<Rightarrow> Return (Inr p)
        | RErr e \<Rightarrow> Return (Inl e)
        | _ \<Rightarrow> Return (Inl (ErrOther ''new pool'')))))))"
  by (simp add: ConnectPool_def buildPoolConfig_def buildConnConfig_def Let_def bind_attempt_error)

lemma run_attempt:
  "run env c (attempt q wrap p) h w = (case env c q w of (s, w') \<Rightarrow>
     if s = RPanic then (Panicked, h, w')
     else case err_of s of Some e \<Rightarrow> (Returned (Inl (wrap e)), h, w') | None \<Rightarrow> run env c p h w')"
  by (auto simp: attempt_def run_ask split: prod.split option.split)

end
