(* ===== verification/Timeout.thy ===== *)
theory Timeout
  imports Prelude "HOL-Library.Word"
begin

text \<open>
  The timeout of the job (\<open>cmd/init-spock/main.go\<close>): the number of seconds in
  \<open>INIT_SPOCK_TIMEOUT\<close>, less a grace period, as a \<open>time.Duration\<close>. A duration is a signed 64-bit
  number of nanoseconds and its multiplication wraps around.
\<close>

subsection \<open>\<open>strconv.Atoi\<close>\<close>

definition is_digit :: "char \<Rightarrow> bool" where
  "is_digit c \<longleftrightarrow> 48 \<le> (of_char c :: nat) \<and> (of_char c :: nat) \<le> 57"

fun digits_value :: "string \<Rightarrow> nat \<Rightarrow> nat option" where
  "digits_value [] acc = Some acc"
| "digits_value (c # cs) acc =
     (if is_digit c then digits_value cs (10 * acc + (of_char c - 48)) else None)"

definition parse_digits :: "string \<Rightarrow> nat option" where
  "parse_digits s = (if s = '''' then None else digits_value s 0)"

text \<open>An optional sign, the rest of the string, and the range of an \<open>int\<close>.\<close>

definition split_sign :: "string \<Rightarrow> bool \<times> string" where
  "split_sign s = (case s of
       [] \<Rightarrow> (False, s)
     | c # t \<Rightarrow> if c = CHR ''-'' then (True, t) else if c = CHR ''+'' then (False, t) else (False, s))"

definition atoi :: "string \<Rightarrow> int option" where
  "atoi s = (case split_sign s of (negative, t) \<Rightarrow> (case parse_digits t of
       None \<Rightarrow> None
     | Some v \<Rightarrow>
         let n = (if negative then - int v else int v) in
         if - (2 ^ 63) \<le> n \<and> n < 2 ^ 63 then Some n else None))"

subsection \<open>The duration\<close>

definition gracePeriod :: "int \<Rightarrow> int" where
  "gracePeriod timeoutSec = (if timeoutSec \<le> 30 then 0 else 30)"

definition timeout_duration :: "int \<Rightarrow> 64 word" where
  "timeout_duration timeoutSec = word_of_int (timeoutSec - gracePeriod timeoutSec) * 1000000000"

text \<open>None where the context gets no deadline.\<close>

definition job_timeout :: "string \<Rightarrow> 64 word option" where
  "job_timeout timeoutStr =
     (if timeoutStr = '''' then None
      else case atoi timeoutStr of
          None \<Rightarrow> None
        | Some timeoutSec \<Rightarrow> if timeoutSec > 0 then Some (timeout_duration timeoutSec) else None)"

subsection \<open>Reading a printed number\<close>

lemma is_digit_digit: "n < 10 \<Longrightarrow> is_digit (digit n)"
  by (simp add: is_digit_def digit_def)

lemma value_digit: "n < 10 \<Longrightarrow> of_char (digit n) - 48 = n"
  by (simp add: digit_def)

lemma digits_value_snoc:
  "digits_value s acc = Some v \<Longrightarrow> is_digit c \<Longrightarrow> digits_value (s @ [c]) acc = Some (10 * v + (of_char c - 48))"
  by (induction s acc rule: digits_value.induct) (auto split: if_splits)

lemma digits_value_show: "digits_value (show_nat n) 0 = Some n"
proof (induction n rule: show_nat.induct)
  case (1 n)
  show ?case
  proof (cases "n < 10")
    case True
    then show ?thesis by (simp add: show_nat.simps is_digit_digit value_digit)
  next
    case False
    from digits_value_snoc[OF 1[OF False] is_digit_digit[of "n mod 10"]] False show ?thesis
      by (simp add: show_nat.simps[of n] value_digit)
  qed
qed

lemma show_nat_digits: "show_nat n \<noteq> [] \<and> is_digit (hd (show_nat n))"
proof (induction n rule: show_nat.induct)
  case (1 n)
  then show ?case by (cases "n < 10") (simp_all add: show_nat.simps[of n] is_digit_digit)
qed

lemma split_sign_show: "split_sign (show_nat n) = (False, show_nat n)"
proof -
  obtain c t where "show_nat n = c # t" "is_digit c"
    using show_nat_digits[of n] by (cases "show_nat n") auto
  then show ?thesis by (auto simp: split_sign_def is_digit_def)
qed

lemma parse_digits_show: "parse_digits (show_nat n) = Some n"
  using show_nat_digits[of n] by (simp add: parse_digits_def digits_value_show)

lemma atoi_show: "n < 2 ^ 63 \<Longrightarrow> atoi (show_nat n) = Some (int n)"
proof -
  assume "n < 2 ^ 63"
  then have "int n < 2 ^ 63" by (metis of_nat_less_iff of_nat_numeral of_nat_power)
  then show ?thesis by (simp add: atoi_def split_sign_show parse_digits_show)
qed

text \<open>
  \<open>strconv.Atoi\<close> reads back what \<open>%d\<close> prints: for every number of the range of an
  \<open>int\<close>, negative ones included.
\<close>

lemma atoi_round_trip:
  assumes "- (2 ^ 63) \<le> i" and "i < 2 ^ 63"
  shows "atoi (show_int i) = Some i"
proof (cases "i < 0")
  case True
  have "split_sign (''-'' @ show_nat (nat (- i))) = (True, show_nat (nat (- i)))"
    by (simp add: split_sign_def)
  with True assms show ?thesis by (simp add: show_int_def atoi_def parse_digits_show)
next
  case False
  with assms atoi_show[of "nat i"] show ?thesis by (simp add: show_int_def nat_less_iff)
qed

lemma atoi_round_trip_witness: "atoi (show_int (- 30)) = Some (- 30)"
  by (rule atoi_round_trip) simp_all

subsection \<open>The bounds of the timeout\<close>

lemma sint_duration:
  assumes "0 < n" and "n \<le> 9223372066"
  shows "sint (timeout_duration n) = (n - gracePeriod n) * 1000000000"
proof -
  have b: "0 \<le> (n - gracePeriod n) * 1000000000" "(n - gracePeriod n) * 1000000000 < 2 ^ 63"
    using assms by (auto simp: gracePeriod_def)
  have "timeout_duration n = word_of_int ((n - gracePeriod n) * 1000000000)"
    by (simp add: timeout_duration_def)
  then have "sint (timeout_duration n) = signed_take_bit 63 ((n - gracePeriod n) * 1000000000)"
    by (simp only: sint_sbintrunc' len_num0 len_bit0 len_num1 One_nat_def) simp
  also have "\<dots> = (n - gracePeriod n) * 1000000000"
    by (rule signed_take_bit_int_eq_self) (use b in simp_all)
  finally show ?thesis .
qed

text \<open>
  Claim C29: The deadline that a decimal number of seconds up to 9223372066 asks for is that number
  less 30 seconds, or the number itself up to 30, exactly: it is positive, and the multiplication by
  a second does not overflow. (So 31 leaves one second where 30 leaves thirty.)
\<close>

theorem timeout_exact:
  assumes "0 < n" and "n \<le> 9223372066"
  shows "map_option sint (job_timeout (show_nat n)) = Some ((int n - (if n \<le> 30 then 0 else 30)) * 1000000000)"
proof -
  have "atoi (show_nat n) = Some (int n)" by (rule atoi_show) (use assms in simp)
  moreover have "show_nat n \<noteq> ''''" using show_nat_digits[of n] by simp
  ultimately have "job_timeout (show_nat n) = Some (timeout_duration (int n))"
    using assms by (simp add: job_timeout_def)
  with sint_duration[of "int n"] assms show ?thesis by (simp add: gracePeriod_def)
qed

theorem timeout_exact_witness: "map_option sint (job_timeout (show_nat 600)) = Some 570000000000"
  using timeout_exact[of 600] by simp

text \<open>The bound is the largest: a second more gives a deadline in the past.\<close>

lemma timeout_wraps: "sint (timeout_duration 9223372067) < 0"
  by (simp add: timeout_duration_def gracePeriod_def)

end
