(* ===== verification/Init_Spock.thy ===== *)
theory Init_Spock
  imports Pg Reset Reconcile Timeout
begin

text \<open>
  \<open>run\<close> of \<open>cmd/init-spock/main.go\<close>: the configuration, the deadline, the wait for the clusters and
  the nodes, a pool per node, the reset, and \<open>Reconcile\<close>. The environment variables, the file
  system and the YAML parser are parameters, and so is the outside world for each deadline of the
  context, which the signals that \<open>main\<close> listens to cancel. \<open>main\<close> turns the result into the exit
  status of the process.
\<close>

subsection \<open>The nodes and their pools\<close>

text \<open>
  What the loop over the nodes leaves: its error, the pools whose \<open>Close\<close> is deferred (the last
  one first), and the map \<open>conns\<close>.
\<close>

type_synonym opened = "goerror option \<times> nat list \<times> conns"

primrec connect_nodes :: "nat \<Rightarrow> config \<Rightarrow> node list \<Rightarrow> nat list \<Rightarrow> conns \<Rightarrow> (object, opened) program" where
  "connect_nodes fuel cfg [] pools conns = Return (None, pools, conns)"
| "connect_nodes fuel cfg (n # ns) pools conns =
     Effects.bind (WaitReady fuel (Hostname n) (InternalHostname n) (DBName cfg) (AdminUser cfg)) (\<lambda>err. case err of
         Some e \<Rightarrow> Return (Some e, pools, conns)
       | None \<Rightarrow>
           Effects.bind (ConnectPool (Hostname n) (InternalHostname n) (DBName cfg) (AdminUser cfg)) (\<lambda>r. case r of
               Inl e \<Rightarrow> Return (Some e, pools, conns)
             | Inr pool \<Rightarrow> connect_nodes fuel cfg ns (pool # pools) (put (Name n) pool conns)))"

text \<open>Step 3: the reset that the configuration asks for.\<close>

definition reset_where_needed :: "config \<Rightarrow> conns \<Rightarrow> object op" where
  "reset_where_needed cfg conns =
     (if ResetSpock cfg then ResetSpock_nodes cfg conns else ResetBootstrappedNodes cfg conns)"

text \<open>Steps 1 to 3.\<close>

definition prepare :: "nat \<Rightarrow> config \<Rightarrow> (object, opened) program" where
  "prepare fuel cfg =
     Effects.bind (WaitForAll fuel (Namespace cfg) (AppName cfg)) (\<lambda>err. case err of
         Some e \<Rightarrow> Return (Some e, [], [])
       | None \<Rightarrow>
           Effects.bind (connect_nodes fuel cfg (Nodes cfg) [] []) (\<lambda>(err, pools, conns). case err of
               Some e \<Rightarrow> Return (Some e, pools, conns)
             | None \<Rightarrow> Effects.bind (reset_where_needed cfg conns) (\<lambda>err. Return (err, pools, conns))))"

text \<open>The deferred calls, the last one deferred first.\<close>

primrec close_pools :: "nat list \<Rightarrow> (object, unit) program" where
  "close_pools [] = Return ()"
| "close_pools (p # ps) = ask (PoolClose (Some p)) (\<lambda>s. close_pools ps)"

subsection \<open>The whole job\<close>

text \<open>What the process gets from outside: the context with or without a deadline decides the last.\<close>

record ('f, 'w) host =
  Getenv :: "string \<Rightarrow> string"
  ReadFile :: "string \<Rightarrow> goerror + 'f"
  Unmarshal :: "'f \<Rightarrow> goerror + node list"
  World :: "64 word option \<Rightarrow> ('w, request, reply) env"

definition host_config :: "('f, 'w) host \<Rightarrow> goerror + config" where
  "host_config host = load (Getenv host) (ReadFile host) (Unmarshal host) ''/config/pgedge.yaml''"

definition host_env :: "('f, 'w) host \<Rightarrow> ('w, request, reply) env" where
  "host_env host = World host (job_timeout (Getenv host ''INIT_SPOCK_TIMEOUT''))"

text \<open>
  Where \<open>run\<close> can be: it has panicked, it polls, \<open>Reconcile\<close> is in some state, or it has
  returned, after these calls of steps 1 to 3, this log of events and these deferred calls.
\<close>

datatype 'w job_state =
    JobPanicked
  | JobPolling
  | JobReconciling "(request, reply, object, 'w, ref) exec_state"
  | JobReturned "goerror option" calls "ref exec_log" calls

definition steps_1_to_3 :: "nat \<Rightarrow> ('f, 'w) host \<Rightarrow> config \<Rightarrow> 'w \<Rightarrow> opened outcome \<times> heap \<times> 'w" where
  "steps_1_to_3 fuel host cfg w = run (host_env host) False (prepare fuel cfg) [] w"

abbreviation step_4 where
  "step_4 sord rord ord fuel host cfg conns \<equiv>
     Reconcile ord (spock_methods fuel) (host_env host) (spock_reconciler sord rord (host_env host) cfg conns)"

inductive job :: "(string list \<Rightarrow> string list) \<Rightarrow> ident order \<Rightarrow> ident order \<Rightarrow> nat \<Rightarrow> ('f, 'w) host \<Rightarrow> 'w
    \<Rightarrow> 'w job_state \<Rightarrow> bool" for sord rord ord fuel host w where
  no_config: "host_config host = Inl e \<Longrightarrow>
    job sord rord ord fuel host w (JobReturned (Some e) [] [] [])"
| preparing_panics: "host_config host = Inr cfg \<Longrightarrow> steps_1_to_3 fuel host cfg w = (Panicked, h1, w1) \<Longrightarrow>
    job sord rord ord fuel host w JobPanicked"
| preparing_polls: "host_config host = Inr cfg \<Longrightarrow> steps_1_to_3 fuel host cfg w = (Spinning, h1, w1) \<Longrightarrow>
    job sord rord ord fuel host w JobPolling"
| preparing_fails: "host_config host = Inr cfg \<Longrightarrow>
    steps_1_to_3 fuel host cfg w = (Returned (Some e, pools, conns), h1, w1) \<Longrightarrow>
    run (host_env host) False (close_pools pools) h1 w1 = (Returned (), h2, w2) \<Longrightarrow>
    job sord rord ord fuel host w (JobReturned (Some e) (trace (host_env host) False (prepare fuel cfg) [] w) []
      (trace (host_env host) False (close_pools pools) h1 w1))"
| reconciling: "host_config host = Inr cfg \<Longrightarrow>
    steps_1_to_3 fuel host cfg w = (Returned (None, pools, conns), h1, w1) \<Longrightarrow>
    step_4 sord rord ord fuel host cfg conns h1 w1 s \<Longrightarrow>
    job sord rord ord fuel host w (JobReconciling s)"
| reconciled: "host_config host = Inr cfg \<Longrightarrow>
    steps_1_to_3 fuel host cfg w = (Returned (None, pools, conns), h1, w1) \<Longrightarrow>
    step_4 sord rord ord fuel host cfg conns h1 w1 (Finished err h2 w2 log) \<Longrightarrow>
    run (host_env host) False (close_pools pools) h2 w2 = (Returned (), h3, w3) \<Longrightarrow>
    job sord rord ord fuel host w (JobReturned err (trace (host_env host) False (prepare fuel cfg) [] w) log
      (trace (host_env host) False (close_pools pools) h2 w2))"

text \<open>
  \<open>main\<close>: the exit status of the process, None while it runs. A panic ends a Go process, whatever
  goroutine it is in, with status 2.
\<close>

definition main_exit :: "'w job_state \<Rightarrow> int option" where
  "main_exit s = (case s of
       JobReturned (Some e) qs log qs' \<Rightarrow> Some 1
     | JobReturned None qs log qs' \<Rightarrow> Some 0
     | JobPanicked \<Rightarrow> Some 2
     | JobReconciling Crashed \<Rightarrow> Some 2
     | _ \<Rightarrow> None)"

lemma main_exit_0: "main_exit s = Some 0 \<longleftrightarrow> (\<exists>qs log qs'. s = JobReturned None qs log qs')"
  by (simp add: main_exit_def split: job_state.split option.split exec_state.split)

inductive_cases job_returnedE: "job sord rord ord fuel host w (JobReturned err qs log qs')"

subsection \<open>What a program can return after which calls\<close>

primrec yields :: "('o, 'a) program \<Rightarrow> ('a \<Rightarrow> calls \<Rightarrow> bool) \<Rightarrow> bool" where
  "yields (Return a) = (\<lambda>Q. Q a [])"
| "yields Panic = (\<lambda>Q. True)"
| "yields Spin = (\<lambda>Q. True)"
| "yields (Call q k) = (\<lambda>Q. \<forall>s. yields (k s) (\<lambda>a qs. Q a ((q, s) # qs)))"
| "yields (Load r k) = (\<lambda>Q. \<forall>x. yields (k x) Q)"
| "yields (Store r f p) = (\<lambda>Q. yields p Q)"

lemma yields_trace:
  "yields p Q \<Longrightarrow> run env c p h w = (Returned a, h', w') \<Longrightarrow> Q a (trace env c p h w)"
proof (induction p arbitrary: Q h w rule: prog_induct)
  case (Call q k)
  obtain s w1 where e: "env c q w = (s, w1)" by fastforce
  from Call.prems have "yields (k s) (\<lambda>a qs. Q a ((q, s) # qs))" by simp
  from Call.IH[OF this] Call.prems(2) e show ?case by simp
next
  case (Load r k)
  from Load.prems have r: "r < length h" "yields (k (h ! r)) Q" by (auto split: if_splits)
  from Load.IH[OF r(2)] Load.prems(2) r(1) show ?case by simp
next
  case (Store r f p)
  from Store.prems have r: "r < length h" "yields p Q" by (auto split: if_splits)
  from Store.IH[OF r(2)] Store.prems(2) r(1) show ?case by simp
qed auto

lemma yields_mono: "yields p Q \<Longrightarrow> (\<And>a qs. Q a qs \<Longrightarrow> Q' a qs) \<Longrightarrow> yields p Q'"
proof (induction p arbitrary: Q Q' rule: prog_induct)
  case (Call q k)
  show ?case
    unfolding yields.simps
  proof
    fix s
    from Call.prems(1) have y: "yields (k s) (\<lambda>a qs. Q a ((q, s) # qs))" by simp
    show "yields (k s) (\<lambda>a qs. Q' a ((q, s) # qs))" by (rule Call.IH[OF y]) (rule Call.prems(2))
  qed
next
  case (Load r k)
  show ?case
    unfolding yields.simps
  proof
    fix x
    from Load.prems(1) have y: "yields (k x) Q" by simp
    show "yields (k x) Q'" by (rule Load.IH[OF y]) (rule Load.prems(2))
  qed
next
  case (Store r f p)
  from Store.prems(1) have y: "yields p Q" by simp
  show ?case unfolding yields.simps by (rule Store.IH[OF y]) (rule Store.prems(2))
qed auto

lemma yields_bind:
  assumes "yields p P" and "\<And>a qs. P a qs \<Longrightarrow> yields (f a) (\<lambda>b rs. Q b (qs @ rs))"
  shows "yields (Effects.bind p f) Q"
proof -
  have bind: "yields p (\<lambda>a qs. yields (f a) (\<lambda>b rs. Q b (qs @ rs))) \<Longrightarrow> yields (Effects.bind p f) Q" for Q
    by (induction p arbitrary: Q rule: prog_induct) auto
  show ?thesis by (rule bind, rule yields_mono[OF assms(1)]) (rule assms(2))
qed

lemma yields_option:
  "(\<And>e. v = Some e \<Longrightarrow> yields (f e) Q) \<Longrightarrow> (v = None \<Longrightarrow> yields p Q) \<Longrightarrow>
    yields (case v of Some e \<Rightarrow> f e | None \<Rightarrow> p) Q"
  by (simp split: option.split)

lemma yields_sum:
  "(\<And>e. v = Inl e \<Longrightarrow> yields (f e) Q) \<Longrightarrow> (\<And>x. v = Inr x \<Longrightarrow> yields (g x) Q) \<Longrightarrow>
    yields (case v of Inl e \<Rightarrow> f e | Inr x \<Rightarrow> g x) Q"
  by (simp split: sum.split)

lemma yields_return: "Q a [] \<Longrightarrow> yields (Return a) Q"
  by simp

lemma yields_calls: "calls_in P p \<Longrightarrow> yields p (\<lambda>a qs. list_all (\<lambda>(q, s). P q) qs)"
proof (induction p rule: prog_induct)
  case (Call q k)
  then have "yields (k s) (\<lambda>a qs. list_all (\<lambda>(q, s). P q) ((q, s) # qs))" for s
    using yields_mono[OF Call.IH[of s]] by simp
  then show ?case by simp
qed auto

lemma yields_nil: "nil_only_if p Q \<Longrightarrow> yields p (\<lambda>err qs. err = None \<longrightarrow> Q qs)"
  by (induction p arbitrary: Q rule: prog_induct) auto

lemma yields_conj: "yields p Q \<Longrightarrow> yields p Q' \<Longrightarrow> yields p (\<lambda>a qs. Q a qs \<and> Q' a qs)"
  by (induction p arbitrary: Q Q' rule: prog_induct) auto

lemma yields_ask: "(\<And>s. yields (k s) (\<lambda>a qs. Q a ((q, s) # qs))) \<Longrightarrow> yields (ask q k) Q"
  by (simp add: ask_def split: reply.split)

lemma yields_attempt:
  "(\<And>s e. err_of s = Some e \<Longrightarrow> Q (Inl (wrap e)) [(q, s)]) \<Longrightarrow>
    (\<And>s. yields p (\<lambda>a qs. Q a ((q, s) # qs))) \<Longrightarrow> yields (attempt q wrap p) Q"
  unfolding attempt_def by (rule yields_ask) (simp split: option.split)

subsection \<open>Every pool is closed\<close>

definition opened_pools :: "calls \<Rightarrow> nat list" where
  "opened_pools qs = concat (map (\<lambda>(q, s). case (q, s) of (NewPool cs, RPool p) \<Rightarrow> [p] | _ \<Rightarrow> []) qs)"

definition closed_pools :: "calls \<Rightarrow> nat list" where
  "closed_pools qs = concat (map (\<lambda>(q, s). case q of PoolClose (Some p) \<Rightarrow> [p] | _ \<Rightarrow> []) qs)"

lemma opened_pools_simps [simp]:
  "opened_pools [] = []"
  "opened_pools (qs @ rs) = opened_pools qs @ opened_pools rs"
  "opened_pools ((NewPool cs, RPool p) # qs) = p # opened_pools qs"
  by (simp_all add: opened_pools_def)

lemma opened_pools_other:
  assumes "\<nexists>cs p. (q, s) = (NewPool cs, RPool p)"
  shows "opened_pools ((q, s) # qs) = opened_pools qs"
  using assms by (cases q; cases s) (simp_all add: opened_pools_def)

text \<open>Calls of which none opens a pool.\<close>

fun opens :: "request \<Rightarrow> bool" where
  "opens (NewPool cs) \<longleftrightarrow> True"
| "opens q \<longleftrightarrow> False"

lemma no_pool_opened: "list_all (\<lambda>(q, s). \<not> opens q) qs \<Longrightarrow> opened_pools qs = []"
proof (induction qs)
  case (Cons x qs)
  obtain q s where "x = (q, s)" by fastforce
  with Cons show ?case by (cases q) (simp_all add: opened_pools_other)
qed simp

lemma opens_nothing: "calls_in (\<lambda>q. \<not> opens q) p \<Longrightarrow> yields p (\<lambda>a qs. opened_pools qs = [])"
  by (rule yields_mono[OF yields_calls]) (auto intro: no_pool_opened)

text \<open>The calls of steps 1 and 2 on the way to a pool, and those of the wait for the clusters.\<close>

fun polls :: "request \<Rightarrow> bool" where
  "polls InClusterConfig \<longleftrightarrow> True"
| "polls NewDynamicClient \<longleftrightarrow> True"
| "polls (ListClusters n l) \<longleftrightarrow> True"
| "polls (DoneOrAfter ms) \<longleftrightarrow> True"
| "polls ContextErr \<longleftrightarrow> True"
| "polls q \<longleftrightarrow> False"

lemma polls_opens: "polls q \<Longrightarrow> \<not> opens q"
  by (cases q) simp_all

lemma calls_timed_out: "P ContextErr \<Longrightarrow> calls_in P (timed_out msg)"
  unfolding timed_out_def by (rule calls_in_ask) (simp_all split: option.split)

lemma calls_poll_again: "P ContextErr \<Longrightarrow> P (DoneOrAfter ms) \<Longrightarrow> calls_in P p \<Longrightarrow> calls_in P (poll_again ms msg p)"
  unfolding poll_again_def by (rule calls_in_ask) (auto simp: calls_timed_out split: reply.split)

lemma calls_WaitForAll: "calls_in polls (WaitForAll fuel namespace appName :: object op)"
proof -
  have "calls_in polls (waitForAll fuel namespace appName :: object op)"
  proof (induction fuel)
    case (Suc fuel)
    then have "calls_in polls (poll_again 5000 msg (waitForAll fuel namespace appName :: object op))" for msg
      by (intro calls_poll_again) simp_all
    then show ?case
      unfolding waitForAll.simps Let_def
      by (intro calls_in_ask) (auto simp: list_clusters_def split: reply.split)
  qed simp
  then show ?thesis unfolding WaitForAll_def by (intro calls_intros) simp_all
qed

lemma calls_Connect: "calls_in (\<lambda>q. \<not> opens q) (Connect host dbName user :: object op)"
  unfolding Connect_steps by (intro calls_intros) simp_all

lemma calls_wait_ready: "calls_in (\<lambda>q. \<not> opens q) (wait_ready fuel hostname host dbName user :: object op)"
proof (induction fuel)
  case (Suc fuel)
  then have "calls_in (\<lambda>q. \<not> opens q) (poll_again 3000 msg (wait_ready fuel hostname host dbName user :: object op))" for msg
    by (intro calls_poll_again) simp_all
  moreover have "calls_in (\<lambda>q. \<not> opens q) (ask ConnClose (\<lambda>s. ok) :: object op)"
    by (intro calls_intros) simp
  ultimately show ?case
    unfolding wait_ready.simps by (intro calls_in_bind calls_Connect) (simp split: option.split)
qed simp

lemma calls_reset: "calls_in (\<lambda>q. \<not> opens q) (reset_where_needed cfg conns)"
proof -
  have "calls_in (\<lambda>q. \<not> opens q) (reset_nodes msg cfg conns ns)" for msg ns
    by (rule calls_in_mono[OF calls_reset_nodes]) (auto elim!: on_pool.elims)
  then show ?thesis
    by (simp add: reset_where_needed_def ResetSpock_nodes_def ResetBootstrappedNodes_def reset_bootstrapped_filter)
qed

text \<open>What \<open>WaitReady\<close> and \<open>ConnectPool\<close> give for one node.\<close>

definition node_conn :: "config \<Rightarrow> node \<Rightarrow> string" where
  "node_conn cfg n = conn_string (connectHost (Hostname n) (InternalHostname n)) (DBName cfg) (AdminUser cfg)"

lemma yields_WaitReady:
  "yields (WaitReady fuel (Hostname n) (InternalHostname n) (DBName cfg) (AdminUser cfg) :: object op)
     (\<lambda>err qs. opened_pools qs = [] \<and> (err = None \<longrightarrow> connected (node_conn cfg n) qs))"
  unfolding WaitReady_def node_conn_def
  by (intro yields_conj opens_nothing calls_wait_ready yields_nil nil_wait_ready)

lemma yields_ConnectPool:
  "yields (ConnectPool (Hostname n) (InternalHostname n) (DBName cfg) (AdminUser cfg))
     (\<lambda>r qs. case r of Inl e \<Rightarrow> opened_pools qs = []
        | Inr p \<Rightarrow> opened_pools qs = [p] \<and> (\<exists>us. qs = us @ [(NewPool (node_conn cfg n), RPool p)]))"
  unfolding ConnectPool_steps Let_def node_conn_def[symmetric]
  by (intro yields_attempt yields_ask) (auto simp: opened_pools_other split: reply.split)

text \<open>A node's pool was opened with its connection string, after a connection to it succeeded.\<close>

definition has_pool :: "config \<Rightarrow> conns \<Rightarrow> calls \<Rightarrow> node \<Rightarrow> bool" where
  "has_pool cfg conns qs n \<longleftrightarrow> (\<exists>us vs s p. qs = us @ (NewPool (node_conn cfg n), RPool p) # vs
     \<and> map_of conns (Name n) = Some p \<and> (ConnectConfig (node_conn cfg n), s) \<in> set us \<and> err_of s = None)"

lemma has_pool_append: "has_pool cfg conns qs n \<Longrightarrow> has_pool cfg conns (us @ qs) n"
  unfolding has_pool_def by (metis Un_iff append_assoc set_append)

lemma has_pool_more: "has_pool cfg conns qs n \<Longrightarrow> has_pool cfg conns (qs @ vs) n"
  unfolding has_pool_def by (metis append.assoc append_Cons)

lemma has_pool_first:
  assumes "connected (node_conn cfg n) ws" and "map_of conns (Name n) = Some p"
  shows "has_pool cfg conns (ws @ us @ [(NewPool (node_conn cfg n), RPool p)] @ rs) n"
proof -
  from assms(1) obtain ps s s' where s: "ws = ps @ [(ConnectConfig (node_conn cfg n), s), (ConnClose, s')]" "err_of s = None"
    unfolding connected_def by blast
  then have "(ConnectConfig (node_conn cfg n), s) \<in> set (ws @ us)" by simp
  moreover note s(2)
  moreover have "ws @ us @ [(NewPool (node_conn cfg n), RPool p)] @ rs = (ws @ us) @ (NewPool (node_conn cfg n), RPool p) # rs"
    by simp
  ultimately show ?thesis using assms(2) unfolding has_pool_def by blast
qed

definition pools_for :: "config \<Rightarrow> node list \<Rightarrow> nat list \<Rightarrow> conns \<Rightarrow> opened \<Rightarrow> calls \<Rightarrow> bool" where
  "pools_for cfg ns pools conns r qs \<longleftrightarrow> (case r of (err, pools', conns') \<Rightarrow>
     pools' = rev (opened_pools qs) @ pools \<and>
     (err = None \<longrightarrow> distinct (map Name ns) \<longrightarrow>
        (\<forall>k. k \<notin> Name ` set ns \<longrightarrow> map_of conns' k = map_of conns k) \<and> (\<forall>n\<in>set ns. has_pool cfg conns' qs n)))"

lemma pools_for_Cons:
  assumes "connected (node_conn cfg n) ws" and "opened_pools ws = []"
    and "opened_pools us = [p]" and "us = us' @ [(NewPool (node_conn cfg n), RPool p)]"
    and "pools_for cfg ns (p # pools) (put (Name n) p conns) r rs"
  shows "pools_for cfg (n # ns) pools conns r (ws @ us @ rs)"
proof -
  obtain err pools' conns' where r: "r = (err, pools', conns')" by (rule prod_cases3)
  note rest = assms(5)[unfolded pools_for_def r prod.case]
  have "has_pool cfg conns' (ws @ us @ rs) m" if "err = None" "distinct (map Name (n # ns))" "m \<in> set (n # ns)" for m
  proof (cases "m = n")
    case True
    with rest that(1,2) have "map_of conns' (Name n) = Some p" by auto
    with has_pool_first[OF assms(1)] True show ?thesis by (simp add: assms(4))
  next
    case False
    with rest that have "has_pool cfg conns' rs m" by simp
    from has_pool_append[OF this, of "ws @ us"] show ?thesis by simp
  qed
  moreover have "map_of conns' k = map_of conns k"
    if "err = None" "distinct (map Name (n # ns))" "k \<notin> Name ` set (n # ns)" for k
    using rest that by auto
  moreover have "pools' = rev (opened_pools (ws @ us @ rs)) @ pools"
    using rest assms(2,3) by simp
  ultimately show ?thesis unfolding pools_for_def r prod.case by blast
qed

lemma yields_connect_nodes: "yields (connect_nodes fuel cfg ns pools conns) (pools_for cfg ns pools conns)"
proof (induction ns arbitrary: pools conns)
  case Nil
  show ?case by (simp add: pools_for_def)
next
  case (Cons n ns)
  show ?case
    unfolding connect_nodes.simps
  proof (rule yields_bind[OF yields_WaitReady], rule yields_option)
    fix err :: "goerror option" and ws e
    assume "opened_pools ws = [] \<and> (err = None \<longrightarrow> connected (node_conn cfg n) ws)" "err = Some e"
    then show "yields (Return (Some e, pools, conns)) (\<lambda>r rs. pools_for cfg (n # ns) pools conns r (ws @ rs))"
      by (simp add: pools_for_def)
  next
    fix err :: "goerror option" and ws
    assume "opened_pools ws = [] \<and> (err = None \<longrightarrow> connected (node_conn cfg n) ws)" "err = None"
    then have ws: "connected (node_conn cfg n) ws" "opened_pools ws = []" by simp_all
    show "yields (Effects.bind (ConnectPool (Hostname n) (InternalHostname n) (DBName cfg) (AdminUser cfg)) (\<lambda>r. case r of
          Inl e \<Rightarrow> Return (Some e, pools, conns)
        | Inr pool \<Rightarrow> connect_nodes fuel cfg ns (pool # pools) (put (Name n) pool conns)))
      (\<lambda>r rs. pools_for cfg (n # ns) pools conns r (ws @ rs))"
    proof (rule yields_bind[OF yields_ConnectPool], rule yields_sum)
      fix r :: "goerror + nat" and us e
      assume "case r of Inl e \<Rightarrow> opened_pools us = []
        | Inr p \<Rightarrow> opened_pools us = [p] \<and> (\<exists>us'. us = us' @ [(NewPool (node_conn cfg n), RPool p)])" "r = Inl e"
      with ws show "yields (Return (Some e, pools, conns)) (\<lambda>r rs. pools_for cfg (n # ns) pools conns r (ws @ us @ rs))"
        by (simp add: pools_for_def)
    next
      fix r :: "goerror + nat" and us p
      assume "case r of Inl e \<Rightarrow> opened_pools us = []
        | Inr p \<Rightarrow> opened_pools us = [p] \<and> (\<exists>us'. us = us' @ [(NewPool (node_conn cfg n), RPool p)])" "r = Inr p"
      then obtain us' where us: "opened_pools us = [p]" "us = us' @ [(NewPool (node_conn cfg n), RPool p)]" by auto
      show "yields (connect_nodes fuel cfg ns (p # pools) (put (Name n) p conns))
          (\<lambda>r rs. pools_for cfg (n # ns) pools conns r (ws @ us @ rs))"
        by (rule yields_mono[OF Cons.IH]) (rule pools_for_Cons[OF ws us])
    qed
  qed
qed

text \<open>Steps 1 to 3 as a whole.\<close>

definition prepared :: "config \<Rightarrow> conns \<Rightarrow> calls \<Rightarrow> bool" where
  "prepared cfg conns qs \<longleftrightarrow> (\<exists>ws rs. qs = ws @ rs
     \<and> found_healthy (Namespace cfg) (AppName cfg) ws \<and> list_all (\<lambda>(q, s). polls q) ws
     \<and> (distinct (map Name (Nodes cfg)) \<longrightarrow> (\<forall>n\<in>set (Nodes cfg). has_pool cfg conns rs n)))"

lemma polls_open_nothing: "list_all (\<lambda>(q, s). polls q) ws \<Longrightarrow> opened_pools ws = []"
  by (intro no_pool_opened) (auto simp: list_all_iff polls_opens)

definition prepare_result :: "config \<Rightarrow> opened \<Rightarrow> calls \<Rightarrow> bool" where
  "prepare_result cfg r qs \<longleftrightarrow> (case r of (err, pools, conns) \<Rightarrow>
     pools = rev (opened_pools qs) \<and> (err = None \<longrightarrow> prepared cfg conns qs))"

lemma prepared_result:
  assumes "found_healthy (Namespace cfg) (AppName cfg) ws" and "list_all (\<lambda>(q, s). polls q) ws"
    and "pools_for cfg (Nodes cfg) [] [] (None, pools, conns) us" and "opened_pools rs = []"
  shows "prepare_result cfg (err, pools, conns) (ws @ us @ rs)"
proof -
  have "prepared cfg conns (ws @ us @ rs)"
    unfolding prepared_def
    by (intro exI[of _ ws] exI[of _ "us @ rs"]) (use assms in \<open>auto simp: pools_for_def has_pool_more\<close>)
  with assms polls_open_nothing[OF assms(2)] show ?thesis by (simp add: prepare_result_def pools_for_def)
qed

lemma yields_steps:
  assumes "found_healthy (Namespace cfg) (AppName cfg) ws" and "list_all (\<lambda>(q, s). polls q) ws"
  shows "yields (Effects.bind (connect_nodes fuel cfg (Nodes cfg) [] []) (\<lambda>(err, pools, conns). case err of
      Some e \<Rightarrow> Return (Some e, pools, conns)
    | None \<Rightarrow> Effects.bind (reset_where_needed cfg conns) (\<lambda>err. Return (err, pools, conns))))
    (\<lambda>r rs. prepare_result cfg r (ws @ rs))"
proof (rule yields_bind[OF yields_connect_nodes])
  fix r us
  assume us: "pools_for cfg (Nodes cfg) [] [] r us"
  obtain err pools conns where r: "r = (err, pools, conns)" by (rule prod_cases3)
  show "yields (case r of (err, pools, conns) \<Rightarrow> case err of
        Some e \<Rightarrow> Return (Some e, pools, conns)
      | None \<Rightarrow> Effects.bind (reset_where_needed cfg conns) (\<lambda>err. Return (err, pools, conns)))
    (\<lambda>r rs. prepare_result cfg r (ws @ us @ rs))"
    unfolding r prod.case
  proof (rule yields_option)
    fix e
    assume "err = Some e"
    with us polls_open_nothing[OF assms(2)]
    show "yields (Return (Some e, pools, conns)) (\<lambda>r rs. prepare_result cfg r (ws @ us @ rs))"
      by (simp add: r prepare_result_def pools_for_def)
  next
    assume "err = None"
    with us r have us: "pools_for cfg (Nodes cfg) [] [] (None, pools, conns) us" by simp
    show "yields (Effects.bind (reset_where_needed cfg conns) (\<lambda>err. Return (err, pools, conns)))
        (\<lambda>r rs. prepare_result cfg r (ws @ us @ rs))"
      by (rule yields_bind[OF opens_nothing[OF calls_reset]], rule yields_return)
        (simp add: prepared_result[OF assms us])
  qed
qed

lemma yields_prepare: "yields (prepare fuel cfg) (prepare_result cfg)"
  unfolding prepare_def
proof (rule yields_bind[OF yields_conj[OF yields_nil[OF nil_WaitForAll] yields_calls[OF calls_WaitForAll]]], rule yields_option)
  fix err :: "goerror option" and ws e
  assume "(err = None \<longrightarrow> found_healthy (Namespace cfg) (AppName cfg) ws) \<and> list_all (\<lambda>(q, s). polls q) ws" "err = Some e"
  then show "yields (Return (Some e, [], [])) (\<lambda>r rs. prepare_result cfg r (ws @ rs))"
    by (simp add: prepare_result_def polls_open_nothing)
qed (simp add: yields_steps)

subsection \<open>Properties\<close>

lemma closes:
  "run env c (close_pools ps) h w = (Returned (), h', w') \<Longrightarrow> closed_pools (trace env c (close_pools ps) h w) = ps"
proof (induction ps arbitrary: w)
  case (Cons p ps)
  obtain s w1 where s: "env c (PoolClose (Some p)) w = (s, w1)" by fastforce
  with Cons.prems have "s \<noteq> RPanic" "run env c (close_pools ps) h w1 = (Returned (), h', w')"
    by (auto simp: run_ask split: if_splits)
  with Cons.IH[of w1] s show ?case by (simp add: trace_ask closed_pools_def)
qed (simp add: closed_pools_def)

lemma prepare_yields:
  assumes "steps_1_to_3 fuel host cfg w = (Returned r, h1, w1)"
  shows "prepare_result cfg r (trace (host_env host) False (prepare fuel cfg) [] w)"
  using yields_trace[OF yields_prepare assms[unfolded steps_1_to_3_def]] .

text \<open>
  Claim C19: No pool is leaked: whenever \<open>run\<close> returns, with an error or without, its deferred calls
  have closed every pool that it had opened, each once, the last one first.
\<close>

theorem pools_closed:
  assumes "job sord rord ord fuel host w (JobReturned err qs log qs')"
  shows "closed_pools qs' = rev (opened_pools qs)"
  using assms
proof (rule job_returnedE)
  fix cfg e pools conns h1 w1 h2 w2
  assume "steps_1_to_3 fuel host cfg w = (Returned (Some e, pools, conns), h1, w1)"
    "run (host_env host) False (close_pools pools) h1 w1 = (Returned (), h2, w2)"
    "qs = trace (host_env host) False (prepare fuel cfg) [] w" "qs' = trace (host_env host) False (close_pools pools) h1 w1"
  with prepare_yields closes show ?thesis unfolding prepare_result_def by fastforce
next
  fix cfg pools conns h1 w1 h2 w2 h3 w3
  assume "steps_1_to_3 fuel host cfg w = (Returned (None, pools, conns), h1, w1)"
    "run (host_env host) False (close_pools pools) h2 w2 = (Returned (), h3, w3)"
    "qs = trace (host_env host) False (prepare fuel cfg) [] w" "qs' = trace (host_env host) False (close_pools pools) h2 w2"
  with prepare_yields closes show ?thesis unfolding prepare_result_def by fastforce
qed (simp add: closed_pools_def)

text \<open>What a job that returns \<open>nil\<close> has done.\<close>

lemma job_nil_steps:
  assumes "job sord rord ord fuel host w (JobReturned None qs log qs')" and "go_order ord"
  shows "\<exists>cfg conns w1 h2 w2 h0 desired actual h1 w3. host_config host = Inr cfg \<and> prepared cfg conns qs
    \<and> step_4 sord rord ord fuel host cfg conns [] w1 (Finished None h2 w2 log)
    \<and> ComputeDesired sord cfg conns [] = (h0, desired)
    \<and> RefreshActual rord (host_env host) cfg conns desired h0 w1 = Some (Inr actual, h1, w3)
    \<and> list_all (\<lambda>i. has_key actual i \<or> taken (\<lambda>e. Identifier (h1 ! Resource e)) log ActionCreate i = 1) (keys desired)"
  using assms(1)
proof (rule job_returnedE)
  fix cfg pools conns h1 w1 h2 w2 h3 w3
  assume cfg: "host_config host = Inr cfg"
    and prep: "steps_1_to_3 fuel host cfg w = (Returned (None, pools, conns), h1, w1)"
    and rec: "step_4 sord rord ord fuel host cfg conns h1 w1 (Finished None h2 w2 log)"
    and qs: "qs = trace (host_env host) False (prepare fuel cfg) [] w"
  from prepare_yields[OF prep] have "prepared cfg conns qs" unfolding qs by (simp add: prepare_result_def)
  moreover have h1: "h1 = []" using run_length[OF prep[unfolded steps_1_to_3_def]] by simp
  moreover obtain h0 desired actual h3 w3 phases where
    "ComputeDesired sord cfg conns [] = (h0, desired)"
    "RefreshActual rord (host_env host) cfg conns desired h0 w1 = Some (Inr actual, h3, w3)"
    "list_all (\<lambda>i. has_key actual i \<or> taken (\<lambda>e. Identifier (h3 ! Resource e)) log ActionCreate i = 1) (keys desired)"
    using created_or_there[OF rec[unfolded h1] assms(2)] by blast
  ultimately show ?thesis using cfg rec[unfolded h1] by blast
qed simp_all

text \<open>
  Claim C2: When the process exits with status 0, the job went through its steps in order: the
  configuration was read; with nothing but polling calls before, all clusters were seen healthy; then
  every node had answered before its own pool was opened, with its own connection string; \<open>Reconcile\<close>
  ran on these pools and returned \<open>nil\<close>; and every desired resource either existed or was created.
\<close>

theorem job_nil_converged:
  assumes "job sord rord ord fuel host w s" and "main_exit s = Some 0" and "go_order ord"
  shows "\<exists>qs log qs' cfg conns w1 h2 w2 h0 desired actual h1 w3. s = JobReturned None qs log qs'
    \<and> host_config host = Inr cfg \<and> prepared cfg conns qs
    \<and> step_4 sord rord ord fuel host cfg conns [] w1 (Finished None h2 w2 log)
    \<and> ComputeDesired sord cfg conns [] = (h0, desired)
    \<and> RefreshActual rord (host_env host) cfg conns desired h0 w1 = Some (Inr actual, h1, w3)
    \<and> list_all (\<lambda>i. has_key actual i \<or> taken (\<lambda>e. Identifier (h1 ! Resource e)) log ActionCreate i = 1) (keys desired)"
proof -
  from assms(2) obtain qs log qs' where "s = JobReturned None qs log qs'" unfolding main_exit_0 by blast
  with job_nil_steps[OF assms(1)[unfolded this] assms(3)] show ?thesis by blast
qed

subsection \<open>The steps before \<open>Reconcile\<close> end with the deadline\<close>

primrec loop_free :: "('o, 'a) program \<Rightarrow> bool" where
  "loop_free (Return a) \<longleftrightarrow> True"
| "loop_free Panic \<longleftrightarrow> True"
| "loop_free Spin \<longleftrightarrow> False"
| "loop_free (Call q k) \<longleftrightarrow> (\<forall>s. loop_free (k s))"
| "loop_free (Load r k) \<longleftrightarrow> (\<forall>x. loop_free (k x))"
| "loop_free (Store r f p) \<longleftrightarrow> loop_free p"

lemma loop_free_ends: "loop_free p \<Longrightarrow> ends env c h p w"
  unfolding ends_def
  by (induction p arbitrary: h w rule: prog_induct) (auto split: prod.split)

named_theorems loop_free_intros "programs without a polling loop"

lemma loop_free_bind [loop_free_intros]:
  "loop_free p \<Longrightarrow> (\<And>a. loop_free (f a)) \<Longrightarrow> loop_free (Effects.bind p f)"
  by (induction p rule: prog_induct) auto

lemma loop_free_ask [loop_free_intros]: "(\<And>s. loop_free (k s)) \<Longrightarrow> loop_free (ask q k)"
  by (simp add: ask_def split: reply.split)

lemma loop_free_calls [loop_free_intros]:
  "loop_free (Return a)" "loop_free (failed msg e)"
  "loop_free p \<Longrightarrow> loop_free (unless msg p err)"
  "loop_free p \<Longrightarrow> loop_free (exec q msg p)"
  "(\<And>b. loop_free (f b)) \<Longrightarrow> loop_free (query_bool q msg f)"
  "(P \<Longrightarrow> loop_free p) \<Longrightarrow> (\<not> P \<Longrightarrow> loop_free p') \<Longrightarrow> loop_free (if P then p else p')"
  by (auto simp: failed_def exec_def query_bool_def unless_def scanned_def
      intro!: loop_free_ask split: option.split sum.split)

lemma loop_free_tx [loop_free_intros]: "(\<And>t. loop_free (body t)) \<Longrightarrow> loop_free (in_tx k msg body)"
  unfolding in_tx_def by (auto intro!: loop_free_intros split: reply.split)

lemma loop_free_resetNode [loop_free_intros]: "loop_free (resetNode c nd db user)"
proof -
  have tables: "loop_free (restore_tables t nm ts p)" if "loop_free p" for t nm ts p
    using that by (induction ts) (auto intro: loop_free_intros)
  have sets: "loop_free (restore_sets t nm ss p)" if "loop_free p" for t nm ss p
    using that by (induction ss) (auto intro: loop_free_intros)
  have restore: "loop_free (restoreRepsets k nm snap)" for k nm snap
    unfolding restoreRepsets_def by (auto split: option.split intro!: loop_free_intros sets tables)
  have recreate: "loop_free (recreate_spock c nd db user snap)" for snap
    unfolding recreate_spock_def exec_logged_def by (intro loop_free_intros restore)
  have backup: "loop_free (backupRepsets k nm)" for k nm
    unfolding backupRepsets_def by (auto split: sum.split intro!: loop_free_intros)
  show ?thesis
    unfolding resetNode_def
    by (intro loop_free_intros backup recreate) (simp split: sum.split add: recreate loop_free_intros)
qed

lemma loop_free_reset: "loop_free (reset_where_needed cfg conns)"
proof -
  have "loop_free (reset_nodes msg cfg conns ns)" for msg ns
    by (induction ns) (auto intro!: loop_free_intros)
  then show ?thesis
    by (simp add: reset_where_needed_def ResetSpock_nodes_def ResetBootstrappedNodes_def reset_bootstrapped_filter)
qed

lemma ends_ConnectPool: "ends env c h (ConnectPool hostname internalHostname dbName user) w"
  unfolding ConnectPool_steps Let_def
  by (intro ends_attempt ends_ask) (simp add: ends_return split: reply.split)

lemma ends_option:
  "(\<And>e. v = Some e \<Longrightarrow> ends env c h (f e) w) \<Longrightarrow> (v = None \<Longrightarrow> ends env c h p w) \<Longrightarrow>
    ends env c h (case v of Some e \<Rightarrow> f e | None \<Rightarrow> p) w"
  by (simp split: option.split)

lemma ends_connect_nodes:
  assumes "done_law env left"
  shows "left w < fuel \<Longrightarrow> ends env c h (connect_nodes fuel cfg ns pools conns) w"
proof (induction ns arbitrary: pools conns h w)
  case (Cons n ns)
  show ?case
    unfolding connect_nodes.simps
  proof (intro ends_bind ends_option ends_ConnectPool ends_return)
    show "ends env c h (WaitReady fuel (Hostname n) (InternalHostname n) (DBName cfg) (AdminUser cfg)) w"
      unfolding WaitReady_def by (rule ends_wait_ready[OF assms Cons.prems])
  next
    fix err h1 w1 r h2 w2
    assume "run env c (WaitReady fuel (Hostname n) (InternalHostname n) (DBName cfg) (AdminUser cfg)) h w
        = (Returned err, h1, w1)"
      "run env c (ConnectPool (Hostname n) (InternalHostname n) (DBName cfg) (AdminUser cfg)) h1 w1 = (Returned r, h2, w2)"
    with run_left[OF assms] Cons.prems have "left w2 < fuel" by (meson order.strict_trans1)
    from Cons.IH[OF this]
    show "ends env c h2 (case r of Inl e \<Rightarrow> Return (Some e, pools, conns)
        | Inr pool \<Rightarrow> connect_nodes fuel cfg ns (pool # pools) (put (Name n) pool conns)) w2"
      by (simp add: ends_return split: sum.split)
  qed
qed (simp add: ends_return)

lemma ends_prepare:
  assumes "done_law env left" and "left w < fuel"
  shows "ends env c h (prepare fuel cfg) w"
  unfolding prepare_def
proof (intro ends_bind ends_option ends_return ends_WaitForAll[OF assms])
  fix err h1 w1
  assume "run env c (WaitForAll fuel (Namespace cfg) (AppName cfg)) h w = (Returned err, h1, w1)"
  from run_left[OF assms(1) this] assms(2) have "left w1 < fuel" by simp
  from ends_connect_nodes[OF assms(1) this]
  show "ends env c h1 (connect_nodes fuel cfg (Nodes cfg) [] []) w1" .
next
  fix r h2 w2
  have "ends env c h2 (reset_where_needed cfg conns) w2" for conns
    by (rule loop_free_ends[OF loop_free_reset])
  then show "ends env c h2 (case r of (err, pools, conns) \<Rightarrow> case err of
        Some e \<Rightarrow> Return (Some e, pools, conns)
      | None \<Rightarrow> Effects.bind (reset_where_needed cfg conns) (\<lambda>err. Return (err, pools, conns))) w2"
    by (auto split: prod.split option.split intro!: ends_return ends_bind)
qed

text \<open>
  Claim C28: The deadline bounds the job's waiting: when the context is done after finitely many calls,
  the steps before \<open>Reconcile\<close> end, however the clusters and the servers answer; a bound of
  iterations above the calls that are left is never used up.
\<close>

theorem waiting_ends:
  assumes "done_law (host_env host) left" and "left w < fuel"
  shows "\<not> job sord rord ord fuel host w JobPolling"
proof
  assume "job sord rord ord fuel host w JobPolling"
  then show False
  proof cases
    case (preparing_polls cfg h1 w1)
    with ends_prepare[OF assms, of False "[]" cfg] show False by (simp add: ends_def steps_1_to_3_def)
  qed
qed

text \<open>A host with one node that is ready at once and has a Spock node to be created.\<close>

definition job_env :: "(nat, request, reply) env" where
  "job_env c q w = ((case q of
      ListClusters n l \<Rightarrow> RClusters [(''pgedge-n1'', healthyPhase)]
    | NewPool cs \<Rightarrow> RPool 0
    | PoolQueryRow k st \<Rightarrow> RBool False
    | TxQueryRow t st \<Rightarrow> RBool False
    | PoolQuery k st \<Rightarrow> RRows [] None
    | Begin k \<Rightarrow> RTx w
    | DoneOrAfter n \<Rightarrow> if w = 0 then RDone else ROk
    | ContextErr \<Rightarrow> if w = 0 then RErr ErrDeadlineExceeded else ROk
    | _ \<Rightarrow> ROk), if q = ContextErr then w else w - 1)"

definition sample_host :: "(unit, nat) host" where
  "sample_host = \<lparr>Getenv = (\<lambda>v. if v = ''APP_NAME'' then ''pgedge'' else if v = ''DB_NAME'' then ''app''
       else if v = ''INIT_SPOCK_TIMEOUT'' then ''600'' else ''''),
     ReadFile = (\<lambda>path. Inr ()), Unmarshal = (\<lambda>data. Inr [plain_node ''n1'']), World = (\<lambda>d. job_env)\<rparr>"

theorem waiting_ends_witness: "\<not> job (\<lambda>ks. ks) (\<lambda>n ks. ks) (\<lambda>n ks. ks) 101 sample_host 100 JobPolling"
  by (rule waiting_ends[of _ "\<lambda>w. w"])
    (auto simp: done_law_def deadline_def host_env_def sample_host_def job_env_def split: request.split)

subsection \<open>A run of the job\<close>

abbreviation one_node :: config where
  "one_node \<equiv> sample_config [plain_node ''n1'']"

lemma sample_host_simps:
  "host_config sample_host = Inr one_node" "host_env sample_host = job_env"
  by (simp_all add: host_config_def host_env_def sample_host_def load_def load_nodes_def parse_bool_def sample_config_def Let_def)

lemma sample_prepared:
  "steps_1_to_3 1 sample_host one_node 20 = (Returned (None, [0], [(''n1'', 0)]), [], 9)"
  unfolding steps_1_to_3_def sample_host_simps
  by (simp add: prepare_def WaitForAll_def run_bind run_exec run_unless run_waitForAll list_clusters_def
      WaitReady_def run_wait_ready Connect_steps ConnectPool_steps Let_def run_attempt run_ask
      reset_where_needed_def ResetBootstrappedNodes_def sample_config_def plain_node_def job_env_def err_of_def
      del: waitForAll.simps wait_ready.simps)

abbreviation sample_reconcile where
  "sample_reconcile \<equiv> reconcile_seq (\<lambda>n ks. ks) (spock_methods 1) job_env
     (spock_reconciler (\<lambda>ks. ks) (\<lambda>n ks. ks) job_env one_node [(''n1'', 0)]) [] 9"

lemma sample_reconciled: "map_option fst sample_reconcile = Some None"
  by code_simp

lemma sample_job:
  "\<exists>log qs'. job (\<lambda>ks. ks) (\<lambda>n ks. ks) (\<lambda>n ks. ks) 1 sample_host 20
     (JobReturned None (trace job_env False (prepare 1 one_node) [] 20) log qs')"
proof -
  obtain h' w' where "sample_reconcile = Some (None, h', w')" using sample_reconciled by fastforce
  from reconcile_seq_refines[OF this] obtain log where
    rec: "step_4 (\<lambda>ks. ks) (\<lambda>n ks. ks) (\<lambda>n ks. ks) 1 sample_host one_node [(''n1'', 0)] [] 9 (Finished None h' w' log)"
    unfolding sample_host_simps ..
  have "run (host_env sample_host) False (close_pools [0]) h' w' = (Returned (), h', w' - 1)"
    by (simp add: sample_host_simps run_ask job_env_def)
  from job.reconciled[OF sample_host_simps(1) sample_prepared rec this]
  show ?thesis unfolding sample_host_simps by blast
qed

theorem pools_closed_witness:
  "\<exists>log qs'. job (\<lambda>ks. ks) (\<lambda>n ks. ks) (\<lambda>n ks. ks) 1 sample_host 20
     (JobReturned None (trace job_env False (prepare 1 one_node) [] 20) log qs') \<and> closed_pools qs' = [0]"
proof -
  obtain log qs' where r: "job (\<lambda>ks. ks) (\<lambda>n ks. ks) (\<lambda>n ks. ks) 1 sample_host 20
     (JobReturned None (trace job_env False (prepare 1 one_node) [] 20) log qs')" using sample_job by blast
  note p = prepare_yields[OF sample_prepared, unfolded sample_host_simps prepare_result_def prod.case]
  from pools_closed[OF r] p[THEN conjunct1, symmetric] have "closed_pools qs' = [0]" by (rule trans)
  with r show ?thesis by blast
qed

theorem job_nil_converged_witness:
  "\<exists>log qs' conns h0 actual h1 w1 w3 desired. job (\<lambda>ks. ks) (\<lambda>n ks. ks) (\<lambda>n ks. ks) 1 sample_host 20
      (JobReturned None (trace job_env False (prepare 1 one_node) [] 20) log qs')
    \<and> prepared one_node conns (trace job_env False (prepare 1 one_node) [] 20)
    \<and> ComputeDesired (\<lambda>ks. ks) one_node conns [] = (h0, desired)
    \<and> RefreshActual (\<lambda>n ks. ks) job_env one_node conns desired h0 w1 = Some (Inr actual, h1, w3)
    \<and> list_all (\<lambda>i. has_key actual i \<or> taken (\<lambda>e. Identifier (h1 ! Resource e)) log ActionCreate i = 1) (keys desired)"
proof -
  obtain log qs' where r: "job (\<lambda>ks. ks) (\<lambda>n ks. ks) (\<lambda>n ks. ks) 1 sample_host 20
     (JobReturned None (trace job_env False (prepare 1 one_node) [] 20) log qs')" using sample_job by blast
  have "main_exit (JobReturned None (trace job_env False (prepare 1 one_node) [] 20) log qs') = Some 0"
    by (simp add: main_exit_def)
  from job_nil_converged[OF r this go_order_id] r show ?thesis
    unfolding sample_host_simps sum.inject job_state.inject by (elim exE conjE) (hypsubst, intro exI conjI)
qed

end
