(* ===== verification/Job_Success.thy ===== *)
theory Job_Success
  imports Success Init_Spock
begin

text \<open>
  The whole job in a world where every call succeeds: the steps before \<open>Reconcile\<close> run one after the
  other, so that a weakest precondition of their programs (\<open>sure\<close>) is enough; with the result on
  \<open>Reconcile\<close> the process exits with status 0.
\<close>

subsection \<open>Sequential programs that can only succeed\<close>

text \<open>\<open>sure p Q\<close>: if every call succeeds, \<open>p\<close> returns a value with \<open>Q\<close>, and it touches no object.\<close>

primrec sure :: "('o, 'a) program \<Rightarrow> ('a \<Rightarrow> bool) \<Rightarrow> bool" where
  "sure (Return a) = (\<lambda>Q. Q a)"
| "sure Panic = (\<lambda>Q. False)"
| "sure Spin = (\<lambda>Q. False)"
| "sure (Call q k) = (\<lambda>Q. \<forall>s. friendly q s \<longrightarrow> sure (k s) Q)"
| "sure (Load r k) = (\<lambda>Q. False)"
| "sure (Store r f p) = (\<lambda>Q. False)"

abbreviation nil :: "goerror option \<Rightarrow> bool" where
  "nil err \<equiv> err = None"

lemma sure_run:
  assumes "cooperative env"
  shows "sure p Q \<Longrightarrow> \<exists>a w'. run env False p h w = (Returned a, h, w') \<and> Q a"
proof (induction p arbitrary: w rule: prog_induct)
  case (Call q k)
  obtain s w1 where e: "env False q w = (s, w1)" by fastforce
  with assms have "friendly q s" unfolding cooperative_def by (metis fst_conv)
  with Call.prems have "sure (k s) Q" by simp
  from Call.IH[OF this, of w1] e show ?case by simp
qed simp_all

named_theorems sure_intros "programs that can only succeed"

lemma sure_return [sure_intros]: "Q a \<Longrightarrow> sure (Return a) Q"
  by simp

lemma sure_bind: "sure p P \<Longrightarrow> (\<And>a. P a \<Longrightarrow> sure (f a) Q) \<Longrightarrow> sure (Effects.bind p f) Q"
  by (induction p rule: prog_induct) auto

lemma sure_ask:
  assumes "\<And>s. friendly q s \<Longrightarrow> sure (k s) Q"
  shows "sure (ask q k) Q"
proof -
  have "sure (case s of RPanic \<Rightarrow> Panic | _ \<Rightarrow> k s) Q" if "friendly q s" for s
    using assms[OF that] friendly_no_panic[of q] that by (cases s) simp_all
  then show ?thesis by (simp add: ask_def)
qed

lemma sure_answers_ok:
  assumes "answers_ok q" and "sure (k ROk) Q"
  shows "sure (ask q k) Q"
  by (rule sure_ask) (use assms answers_ok_friendly in blast)

lemma sure_exec [sure_intros]: "answers_ok q \<Longrightarrow> sure p Q \<Longrightarrow> sure (exec q msg p) Q"
  unfolding exec_def by (rule sure_answers_ok) (simp_all add: unless_def err_of_def)

lemma sure_exec_logged [sure_intros]: "answers_ok q \<Longrightarrow> sure p Q \<Longrightarrow> sure (exec_logged q p) Q"
  unfolding exec_logged_def by (rule sure_answers_ok)

lemma sure_attempt [sure_intros]: "answers_ok q \<Longrightarrow> sure p Q \<Longrightarrow> sure (attempt q wrap p) Q"
  unfolding attempt_def by (rule sure_answers_ok) (simp_all add: err_of_def)

lemma sure_in_tx [sure_intros]:
  assumes "\<And>t. sure (body t) nil"
  shows "sure (in_tx c msg body) nil"
  unfolding in_tx_def
proof (rule sure_ask)
  fix s
  assume "friendly (Begin c) s"
  then obtain t where "s = RTx t" by (auto split: reply.splits)
  moreover have "sure (Effects.bind (body t) (\<lambda>res. ask (TxRollback t) (\<lambda>_. Return res))) nil"
    by (rule sure_bind[OF assms]) (simp add: sure_answers_ok)
  ultimately show "sure (case s of RTx t \<Rightarrow> Effects.bind (body t) (\<lambda>res. ask (TxRollback t) (\<lambda>_. Return res))
      | RErr e \<Rightarrow> failed msg e | _ \<Rightarrow> failed msg (ErrOther ''begin'')) nil" by simp
qed

text \<open>A step whose error is returned, and the rest.\<close>

lemma sure_then: "sure p nil \<Longrightarrow> sure r Q \<Longrightarrow>
    sure (Effects.bind p (\<lambda>err. case err of Some e \<Rightarrow> f e | None \<Rightarrow> r)) Q"
  by (rule sure_bind[where P = nil]) simp_all

lemma sure_unless: "sure p nil \<Longrightarrow> sure r Q \<Longrightarrow> sure (Effects.bind p (unless msg r)) Q"
  by (rule sure_bind[where P = nil]) (simp_all add: unless_def)

lemmas sure_steps = sure_intros answers_ok.simps[THEN iffD2] TrueI

subsection \<open>The steps of the job\<close>

lemma sure_WaitForAll: "sure (WaitForAll (Suc fuel) namespace appName) nil"
  unfolding WaitForAll_def waitForAll.simps Let_def list_clusters_def
  by (intro sure_steps sure_ask) (auto split: reply.splits)

lemma sure_Connect: "sure (Connect host dbName user) nil"
  unfolding Connect_steps Let_def by (intro sure_steps sure_answers_ok) (simp add: err_of_def)

lemma sure_WaitReady: "sure (WaitReady (Suc fuel) hostname internalHostname dbName user) nil"
  unfolding WaitReady_def wait_ready.simps
  by (rule sure_bind[OF sure_Connect]) (simp add: sure_answers_ok)

lemma sure_ConnectPool: "sure (ConnectPool hostname internalHostname dbName user) (\<lambda>r. \<exists>p. r = Inr p)"
  unfolding ConnectPool_steps Let_def
  by (intro sure_steps sure_ask) (auto split: reply.splits)

lemma sure_connect_nodes: "sure (connect_nodes (Suc fuel) cfg ns pools conns) (\<lambda>r. fst r = None)"
proof (induction ns arbitrary: pools conns)
  case (Cons n ns)
  have "sure (case r of Inl e \<Rightarrow> Return (Some e, pools, conns)
      | Inr pool \<Rightarrow> connect_nodes (Suc fuel) cfg ns (pool # pools) (put (Name n) pool conns)) (\<lambda>r. fst r = None)"
    if "\<exists>p. r = Inr p" for r
    using that Cons.IH by auto
  then show ?case
    unfolding connect_nodes.simps by (intro sure_then sure_WaitReady sure_bind[OF sure_ConnectPool])
qed simp

lemma read_rows_ok:
  assumes "s = RRows rows None" and "\<forall>rw\<in>set rows. \<exists>x. scan rw = Inr x"
  shows "\<exists>xs. read_rows m m' m'' scan s = Inr xs"
proof -
  have "\<exists>xs. scan_rows scan rows acc = Inr xs" for acc
    using assms(2) by (induction rows arbitrary: acc) auto
  from this[of "[]"] assms(1) show ?thesis by (auto simp: read_rows_def)
qed

lemma row_kinds:
  "(case rw of RowRepset x \<Rightarrow> True | _ \<Rightarrow> False) \<longleftrightarrow> (\<exists>x. scan_repset rw = Inr x)"
  "(case rw of RowTable x \<Rightarrow> True | _ \<Rightarrow> False) \<longleftrightarrow> (\<exists>x. scan_table rw = Inr x)"
  by (cases rw; simp add: scan_repset_def scan_table_def)+

lemma friendly_rows:
  "friendly (PoolQuery c Repsets) s \<Longrightarrow> \<exists>xs. read_rows m m' m'' scan_repset s = Inr xs"
  "friendly (PoolQuery c RepsetTables) s \<Longrightarrow> \<exists>xs. read_rows m m' m'' scan_table s = Inr xs"
  by (cases s; simp add: row_kinds list_all_iff read_rows_ok)+

lemma sure_backup: "sure (backupRepsets c nodeName) (\<lambda>r. \<exists>snap. r = Inr snap)"
  unfolding backupRepsets_def
proof (rule sure_ask)
  fix s
  assume "friendly (PoolQuery c Repsets) s"
  from friendly_rows(1)[OF this] obtain sets where sets: "read_rows (''query replication sets on '' @ nodeName)
      (''scan replication set on '' @ nodeName) (''read replication sets on '' @ nodeName) scan_repset s = Inr sets" by blast
  show "sure (case read_rows (''query replication sets on '' @ nodeName) (''scan replication set on '' @ nodeName)
         (''read replication sets on '' @ nodeName) scan_repset s of
       Inl e \<Rightarrow> Return (Inl e)
     | Inr sets \<Rightarrow> ask (PoolQuery c RepsetTables) (\<lambda>s.
         case read_rows (''query replication set tables on '' @ nodeName) (''scan replication set table on '' @ nodeName)
                (''read replication set tables on '' @ nodeName) scan_table s of
           Inl e \<Rightarrow> Return (Inl e)
         | Inr tables \<Rightarrow> Return (Inr \<lparr>rp_sets = sets, rp_tables = tables\<rparr>))) (\<lambda>r. \<exists>snap. r = Inr snap)"
    unfolding sets sum.case
  proof (rule sure_ask)
    fix s
    assume "friendly (PoolQuery c RepsetTables) s"
    from friendly_rows(2)[OF this] obtain tables where "read_rows (''query replication set tables on '' @ nodeName)
        (''scan replication set table on '' @ nodeName) (''read replication set tables on '' @ nodeName) scan_table s = Inr tables"
      by blast
    then show "sure (case read_rows (''query replication set tables on '' @ nodeName)
           (''scan replication set table on '' @ nodeName) (''read replication set tables on '' @ nodeName) scan_table s of
         Inl e \<Rightarrow> Return (Inl e)
       | Inr tables \<Rightarrow> Return (Inr \<lparr>rp_sets = sets, rp_tables = tables\<rparr>)) (\<lambda>r. \<exists>snap. r = Inr snap)" by simp
  qed
qed

lemma sure_restore: "sure (restoreRepsets c nodeName snap) nil"
proof -
  have tables: "sure (restore_tables tx nodeName ts p) nil" if "sure p nil" for tx ts and p :: "object op"
    using that by (induction ts) (auto intro: sure_steps)
  have sets: "sure (restore_sets tx nodeName ss p) nil" if "sure p nil" for tx ss and p :: "object op"
    using that by (induction ss) (auto intro: sure_steps)
  show ?thesis
    unfolding restoreRepsets_def by (auto split: option.split intro!: sure_in_tx sets tables sure_exec)
qed

lemma sure_resetNode: "sure (resetNode c n dbName pgedgeUser) nil"
proof -
  have recreate: "sure (recreate_spock c n dbName pgedgeUser snap) nil" for snap
    unfolding recreate_spock_def by (intro sure_steps sure_unless sure_restore refl)
  have "sure (case r of Inl e \<Rightarrow> failed (''backup repsets on '' @ Name n) e
      | Inr snap \<Rightarrow> recreate_spock c n dbName pgedgeUser (Some snap)) nil" if "\<exists>snap. r = Inr snap" for r
    using that recreate by auto
  then have "sure (if b then Effects.bind (backupRepsets c (Name n)) (\<lambda>r. case r of
        Inl e \<Rightarrow> failed (''backup repsets on '' @ Name n) e
      | Inr snap \<Rightarrow> recreate_spock c n dbName pgedgeUser (Some snap)) else recreate_spock c n dbName pgedgeUser None) nil" for b
    using recreate by (simp add: sure_bind[OF sure_backup])
  then show ?thesis
    unfolding resetNode_def query_bool_def
    by (intro sure_ask) (auto simp: scan_bool_def scanned_def split: reply.splits)
qed

lemma sure_reset: "sure (reset_where_needed cfg conns) nil"
proof -
  have "sure (reset_nodes msg cfg conns ns) nil" for msg ns
    by (induction ns) (auto intro!: sure_unless sure_resetNode)
  then show ?thesis
    by (simp add: reset_where_needed_def ResetSpock_nodes_def ResetBootstrappedNodes_def reset_bootstrapped_filter)
qed

lemma sure_prepare: "0 < fuel \<Longrightarrow> sure (prepare fuel cfg) (\<lambda>r. fst r = None)"
proof -
  assume "0 < fuel"
  then obtain n where n: "fuel = Suc n" using gr0_conv_Suc by blast
  have "sure (case r of (err, pools, conns) \<Rightarrow> case err of Some e \<Rightarrow> Return (Some e, pools, conns)
      | None \<Rightarrow> Effects.bind (reset_where_needed cfg conns) (\<lambda>err. Return (err, pools, conns))) (\<lambda>r. fst r = None)"
    if "fst r = None" for r :: opened
    using that by (cases r) (auto intro!: sure_bind[OF sure_reset])
  then show ?thesis
    unfolding prepare_def n by (intro sure_then sure_WaitForAll sure_bind[OF sure_connect_nodes])
qed

lemma sure_close: "sure (close_pools pools) (\<lambda>u. True)"
  by (induction pools) (simp_all add: sure_answers_ok)

subsection \<open>The process exits with 0\<close>

lemma cooperative_prepare:
  assumes "cooperative (host_env host)" and "0 < fuel"
  obtains pools conns w1 where "steps_1_to_3 fuel host cfg w = (Returned (None, pools, conns), [], w1)"
proof -
  from sure_run[OF assms(1) sure_prepare[OF assms(2)], of cfg "[]" w]
  obtain a w1 where "run (host_env host) False (prepare fuel cfg) [] w = (Returned a, [], w1)" "fst a = None" by blast
  then show thesis by (cases a) (auto simp: steps_1_to_3_def intro: that)
qed

lemma cooperative_close:
  assumes "cooperative (host_env host)"
  shows "\<exists>w'. run (host_env host) False (close_pools pools) h w = (Returned (), h, w')"
  using sure_run[OF assms sure_close, of pools h w] by simp

text \<open>Where \<open>Reconcile\<close> has returned \<open>nil\<close> the deferred calls run, and the process exits.\<close>

lemma job_exits:
  assumes "host_config host = Inr cfg" and "steps_1_to_3 fuel host cfg w = (Returned (None, pools, conns), h1, w1)"
    and "step_4 sord rord ord fuel host cfg conns h1 w1 (Finished None h2 w2 log)" and "cooperative (host_env host)"
  shows "\<exists>qs qs'. job sord rord ord fuel host w (JobReturned None qs log qs')"
proof -
  from cooperative_close[OF assms(4)] obtain w3 where "run (host_env host) False (close_pools pools) h2 w2 = (Returned (), h2, w3)" ..
  from job.reconciled[OF assms(1-3) this] show ?thesis by blast
qed

text \<open>
  Claim C3: The job does its work when nothing fails around it: with a configuration that can be
  read, under the conditions of the success of \<open>Reconcile\<close>, the process never exits with another
  status than 0, it does not stay in a polling loop, \<open>Reconcile\<close> can go on in every state of every
  interleaving until it has returned \<open>nil\<close>, and then the process exits with 0.
\<close>

theorem job_succeeds:
  assumes "host_config host = Inr cfg" and "plain_config cfg" and "distinct (map Name (Nodes cfg))"
    and "go_order ord" and "go_order rord" and "\<And>ks. mset (sord ks) = mset ks"
    and "cooperative (host_env host)" and "0 < fuel"
  shows "(\<forall>s. job sord rord ord fuel host w s \<longrightarrow> main_exit s = Some 0 \<or> (\<exists>r. s = JobReconciling r \<and>
        ((\<exists>t. exec_step (spock_methods fuel) (host_env host) r t \<and> job sord rord ord fuel host w (JobReconciling t)) \<or>
         (\<exists>h' w' log qs qs'. r = Finished None h' w' log \<and> job sord rord ord fuel host w (JobReturned None qs log qs'))))) \<and>
    (\<exists>s. job sord rord ord fuel host w s \<and> main_exit s = Some 0)"
proof (rule cooperative_prepare[OF assms(7,8), of cfg w])
  fix pools conns w1
  assume prep: "steps_1_to_3 fuel host cfg w = (Returned (None, pools, conns), [], w1)"
  let ?goes_on = "\<lambda>r. (\<exists>t. exec_step (spock_methods fuel) (host_env host) r t \<and> job sord rord ord fuel host w (JobReconciling t)) \<or>
         (\<exists>h' w' log qs qs'. r = Finished None h' w' log \<and> job sord rord ord fuel host w (JobReturned None qs log qs'))"
  note states = reconcile_states[OF assms(2-8), of conns w1]
  have goes_on: "?goes_on r" if "step_4 sord rord ord fuel host cfg conns [] w1 r" for r
    using states(1)[OF that]
  proof (elim disjE exE conjE)
    fix h' w' log
    assume r: "r = Finished None h' w' log"
    with job_exits[OF assms(1) prep that[unfolded r] assms(7)] show ?thesis by blast
  next
    fix t
    assume "exec_step (spock_methods fuel) (host_env host) r t" "step_4 sord rord ord fuel host cfg conns [] w1 t"
    with job.reconciling[OF assms(1) prep this(2)] show ?thesis by blast
  qed
  have "main_exit s = Some 0 \<or> (\<exists>r. s = JobReconciling r \<and> ?goes_on r)" if "job sord rord ord fuel host w s" for s
    using that
  proof cases
    case (reconciling cfg' pools' conns' h1' w1' r)
    with prep assms(1) have "step_4 sord rord ord fuel host cfg conns [] w1 r" by simp
    from goes_on[OF this] reconciling(1) show ?thesis by blast
  next
    case (reconciled cfg' pools' conns' h1' w1' err h2 w2 log h3 w3)
    with prep assms(1) have "step_4 sord rord ord fuel host cfg conns [] w1 (Finished err h2 w2 log)" by simp
    from states(1)[OF this] have "err = None" by auto
    with reconciled(1) show ?thesis by (simp add: main_exit_def)
  qed (use prep assms(1) in simp_all)
  moreover from states(2) obtain h' w' log where "step_4 sord rord ord fuel host cfg conns [] w1 (Finished None h' w' log)" by blast
  from job_exits[OF assms(1) prep this assms(7)] have "\<exists>s. job sord rord ord fuel host w s \<and> main_exit s = Some 0"
    unfolding main_exit_0 by blast
  ultimately show ?thesis by blast
qed

text \<open>A node is added, on servers without anything.\<close>

definition blank_host :: "(unit, unit) host" where
  "blank_host = \<lparr>Getenv = (\<lambda>v. if v = ''APP_NAME'' then ''pgedge'' else if v = ''DB_NAME'' then ''app'' else ''''),
     ReadFile = (\<lambda>path. Inr ()), Unmarshal = (\<lambda>data. Inr (Nodes add_node_config)), World = (\<lambda>d. blank_env)\<rparr>"

theorem job_succeeds_witness:
  "\<exists>s. job (\<lambda>ks. ks) (\<lambda>n ks. ks) (\<lambda>n ks. ks) 1 blank_host () s \<and> main_exit s = Some 0"
proof -
  have cfg: "host_config blank_host = Inr add_node_config"
    by (simp add: host_config_def blank_host_def load_def load_nodes_def parse_bool_def sample_config_def Let_def)
  have env: "cooperative (host_env blank_host)"
    using blank_cooperative by (simp add: host_env_def blank_host_def)
  have "distinct (map Name (Nodes add_node_config))" by code_simp
  from job_succeeds[OF cfg sample_plain this go_order_id go_order_id refl env, of 1 "()"] show ?thesis by simp
qed

end
