(* ===== verification/Resume.thy ===== *)
theory Resume
  imports Success
begin

text \<open>
  What the next run makes of an add-node that was interrupted: \<open>Plan\<close> puts updates before creates,
  so that a disabled subscription that is already there is enabled too early.
\<close>

lemma planned_event:
  assumes "go_order ord" and "well_keyed vt h desired" and "plan ord vt h actual desired = Some phases"
    and "a \<noteq> ActionDelete" and "planned vt h actual desired a x"
  shows "\<exists>i<length phases. \<exists>e\<in>set (phases ! i). Action e = a \<and> event_id vt h e = x"
proof -
  have "filter (\<lambda>e. Action e = a \<and> event_id vt h e = x) (concat phases) \<noteq> []"
    using plan_counts_desired[OF assms(1-4), of x] assms(5) by auto
  then obtain e where e: "e \<in> set (concat phases)" "Action e = a \<and> event_id vt h e = x"
    by (auto simp: filter_empty_conv)
  from nth_sections[OF e(1)] e(2) show ?thesis by blast
qed

lemma disabled_needs_update:
  assumes "ComputeDesired sord cfg conns [] = (h0, m)"
    and "RefreshActual rord env cfg conns m h0 w = Some (Inr actual, h1, w1)" and "go_order rord"
    and "map_of m i = Some r" and "has_key actual i" and "NeedsUpdate (Status (h1 ! r))"
  shows "planned (spock_methods fuel) h1 actual m ActionUpdate i"
proof -
  from actual_status[OF assms(2) desired_keyed(1)[OF assms(1), of 0] assms(3) map_of_SomeD[OF assms(4)]] obtain qs st where
    st: "reported (h0 ! r) qs st" and
    h1: "h1 ! r = set_status (if map_of actual i = Some r \<and> broken actual i (h0 ! r) then slot_missing else st) (h0 ! r)"
    by blast
  with assms(6) have h1: "Status (h1 ! r) = st" "NeedsUpdate st" by (auto simp: slot_missing_def split: if_splits)
  with st have "Exists st \<and> \<not> NeedsRecreate st"
    by (cases "h0 ! r") (auto simp: existing_def split: if_splits)
  with h1 assms(4,5) show ?thesis by (simp add: needs_update_def)
qed

text \<open>
  Claim C35: An add-node that was interrupted is not resumed in order. When the next run finds the
  subscription of a peer \<open>p\<close> to the new node \<open>nn\<close>, which \<open>DisabledSubscription\<close> has made and which is
  still disabled, then the plan enables it in an earlier phase than the one that advances the
  replication origin, on which \<open>desired.go\<close> makes it depend: updates go before creates.
\<close>

theorem resumed_out_of_order:
  assumes "plain_config cfg" and "go_order ord" and "go_order rord" and "\<And>ks. set (sord ks) = set ks"
    and "map_of (new_nodes cfg) (Name nn) = Some nn" and "p \<in> set (Nodes cfg)" and "is_peer nn p"
    and "ComputeDesired sord cfg conns [] = (h0, m)"
    and "RefreshActual rord env cfg conns m h0 w = Some (Inr actual, h1, w1)"
    and "plan ord (spock_methods fuel) h1 actual m = Some phases"
    and "map_of m (mk_id ResourceTypeSubscription (spock_sub_name (Name p) (Name nn))) = Some r"
    and "has_key actual (mk_id ResourceTypeSubscription (spock_sub_name (Name p) (Name nn)))"
    and "NeedsUpdate (Status (h1 ! r))"
  shows "mk_id ResourceTypeReplicationOriginAdvance (pair_id (Name p) (Name nn)) \<in> set (Dependencies (h1 ! r)) \<and>
    (\<exists>j k. j < k \<and> k < length phases \<and>
      list_ex (\<lambda>e. Action e = ActionUpdate \<and>
        Identifier (h1 ! Resource e) = mk_id ResourceTypeSubscription (spock_sub_name (Name p) (Name nn))) (phases ! j) \<and>
      list_ex (\<lambda>e. Action e = ActionCreate \<and>
        Identifier (h1 ! Resource e) = mk_id ResourceTypeReplicationOriginAdvance (pair_id (Name p) (Name nn))) (phases ! k))"
proof -
  let ?vt = "spock_methods fuel" and ?sub = "mk_id ResourceTypeSubscription (spock_sub_name (Name p) (Name nn))"
    and ?adv = "mk_id ResourceTypeReplicationOriginAdvance (pair_id (Name p) (Name nn))"
  note same = refresh_actual_refreshed[OF assms(9)]
  note keyed1 = refreshed_keyed[OF assms(8) same, of fuel] and at = refreshed_desired[OF assms(8) same assms(11)]
  have "depends_in (desired_objects sord cfg conns 0) ?adv ?sub"
    using chain_depends[OF assms(1,4-7), of conns 0] by (simp add: add_chain_def)
  with at have dep: "?adv \<in> set (Dependencies (h1 ! r))" by (simp add: depends_in_def)
  have "?adv \<in> set (add_chain cfg nn p True)" by (simp add: add_chain_def)
  from chain_in_map[OF assms(1,4-8) this] have key: "has_key m ?adv" .
  have "Type ?adv \<notin> insert ResourceTypeUser orphan_types" by (simp add: orphan_types_def type_defs)
  from populate_missing[OF assms(8,9,3) key this] key have create: "planned ?vt h1 actual m ActionCreate ?adv" by simp
  note update = disabled_needs_update[OF assms(8,9,3,11-13), of fuel]
  from planned_event[OF assms(2) keyed1 assms(10) _ update] obtain j e where
    j: "j < length phases" "e \<in> set (phases ! j)" "Action e = ActionUpdate" "event_id ?vt h1 e = ?sub" by auto
  from planned_event[OF assms(2) keyed1 assms(10) _ create] obtain k e' where
    k: "k < length phases" "e' \<in> set (phases ! k)" "Action e' = ActionCreate" "event_id ?vt h1 e' = ?adv" by auto
  have "j < k" using actions_in_order[OF assms(2,10) j(1) k(1) j(2) k(2)] j(3) k(3) by simp
  moreover have "list_ex (\<lambda>e. Action e = ActionUpdate \<and> Identifier (h1 ! Resource e) = ?sub) (phases ! j)"
    using j by (auto simp: list_ex_iff)
  moreover have "list_ex (\<lambda>e. Action e = ActionCreate \<and> Identifier (h1 ! Resource e) = ?adv) (phases ! k)"
    using k by (auto simp: list_ex_iff)
  ultimately show ?thesis using dep k(1) by blast
qed

text \<open>
  Servers on which every slot is there, and of the subscriptions only the one from \<open>n2\<close> to \<open>n3\<close>,
  disabled.
\<close>

definition interrupted_env :: "(unit, request, reply) env" where
  "interrupted_env c q w = (case q of
      PoolQueryRow k (SubExists s) \<Rightarrow> (RBool (s = spock_sub_name ''n2'' ''n3''), w)
    | PoolQueryRow k (SlotExists s) \<Rightarrow> (RBool True, w)
    | _ \<Rightarrow> blank_env c q w)"

lemma interrupted_cooperative: "cooperative interrupted_env"
  unfolding cooperative_def
proof (intro allI)
  fix q and w :: unit
  note blank = blank_cooperative[unfolded cooperative_def, rule_format, of q w]
  show "friendly q (fst (interrupted_env False q w))"
  proof (cases q)
    case (PoolQueryRow k st)
    with blank show ?thesis by (cases st) (simp_all add: interrupted_env_def)
  qed (use blank in \<open>simp_all add: interrupted_env_def\<close>)
qed

lemma interrupted_slots:
  "answers interrupted_env qs \<Longrightarrow> reported (OSlot s) qs st \<Longrightarrow> st = existing True"
  by (auto simp: answers_def interrupted_env_def)

lemma interrupted_sub:
  "answers interrupted_env qs \<Longrightarrow> reported (OSub s) qs st \<Longrightarrow> subName s = spock_sub_name ''n2'' ''n3'' \<Longrightarrow>
    Exists st \<and> NeedsUpdate st"
  by (auto simp: answers_def interrupted_env_def blank_env_def)

lemma slot_of_type: "Type (Identifier ob) = ResourceTypeReplicationSlot \<Longrightarrow> \<exists>s. ob = OSlot s"
  by (cases ob; simp add: type_defs)

lemma interrupted_refresh:
  assumes "ComputeDesired sord cfg conns [] = (h0, m)" and "\<And>ks. set (sord ks) = set ks" and "sources_ok cfg"
    and refresh: "RefreshActual rord interrupted_env cfg conns m h0 w = Some (Inr actual, h1, w1)" and "go_order rord"
    and r: "map_of m (mk_id ResourceTypeSubscription (spock_sub_name ''n2'' ''n3'')) = Some r"
  shows "has_key actual (mk_id ResourceTypeSubscription (spock_sub_name ''n2'' ''n3'')) \<and> NeedsUpdate (Status (h1 ! r))"
proof -
  let ?sub = "mk_id ResourceTypeSubscription (spock_sub_name ''n2'' ''n3'')"
  note keyed = desired_keyed(1)[OF assms(1), of 0]
  have "catalogs interrupted_env (map Name (Nodes cfg)) (\<lambda>c. []) (\<lambda>c. [])"
    by (simp add: catalogs_def interrupted_env_def blank_env_def)
  from actual_keys[OF refresh keyed assms(5) this]
  have keys: "i \<in> set (keys actual) \<longleftrightarrow> i \<in> set (keys m) \<and> Exists (Status (h1 ! at_key m i))" for i
    by (simp add: orphan_ids_def)
  note status = actual_status[OF refresh keyed assms(5) map_of_SomeD]
  from desired_at[OF assms(1) r] have ob: "h0 ! r \<in> set (desired_objects sord cfg conns 0)" "Identifier (h0 ! r) = ?sub"
    by simp_all
  from object_of_type(4)[of "h0 ! r"] ob(2) obtain s where s: "h0 ! r = OSub s" by auto
  with ob(2) have name: "subName s = spock_sub_name ''n2'' ''n3''" by simp
  let ?slot = "mk_id ResourceTypeReplicationSlot (replicationSlotName s)"
  have "?slot \<in> set (Dependencies (h0 ! r))" by (simp add: s)
  from desired_closed[OF assms(2,3) ob(1) this] have in_m: "?slot \<in> set (keys m)"
    using desired_keys[of sord cfg conns] assms(1) by simp
  then obtain q where q: "map_of m ?slot = Some q" using keys_lookup by fastforce
  from desired_at[OF assms(1) q] slot_of_type[of "h0 ! q"] obtain sl where sl: "h0 ! q = OSlot sl" by auto
  from status[OF q] sl interrupted_slots have "Exists (Status (h1 ! q))"
    by (fastforce simp: broken_def existing_def slot_missing_def)
  with keys[of ?slot] in_m q have "?slot \<in> set (keys actual)" by simp
  then have slot: "has_key actual ?slot" unfolding has_key_iff .
  then have "\<not> broken actual ?sub (h0 ! r)" by (simp add: broken_def s)
  with status[OF r] obtain qs st where st: "answers interrupted_env qs" "reported (h0 ! r) qs st"
    "h1 ! r = set_status st (h0 ! r)" by auto
  from interrupted_sub[OF st(1) st(2)[unfolded s] name] st(3) have upd: "Exists (Status (h1 ! r))" "NeedsUpdate (Status (h1 ! r))"
    by simp_all
  have "?sub \<in> set (keys m)" using map_of_in_keys[OF r] by simp
  with keys[of ?sub] upd(1) r have "?sub \<in> set (keys actual)" by simp
  with upd(2) show ?thesis unfolding has_key_iff by simp
qed

theorem resumed_out_of_order_witness:
  "\<exists>(phases :: ref event list list) j k. \<exists>h1 :: heap. j < k \<and> k < length phases \<and>
      list_ex (\<lambda>e. Action e = ActionUpdate \<and>
        Identifier (h1 ! Resource e) = mk_id ResourceTypeSubscription (spock_sub_name ''n2'' ''n3'')) (phases ! j) \<and>
      list_ex (\<lambda>e. Action e = ActionCreate \<and>
        Identifier (h1 ! Resource e) = mk_id ResourceTypeReplicationOriginAdvance (pair_id ''n2'' ''n3'')) (phases ! k)"
proof -
  let ?nn = "added_node ''n3'' ''n1''" and ?p = "plain_node ''n2''"
  have node: "map_of (new_nodes add_node_config) (Name ?nn) = Some ?nn" "?p \<in> set (Nodes add_node_config)" "is_peer ?nn ?p"
    by code_simp+
  have names: "Name ?p = ''n2''" "Name ?nn = ''n3''" by (simp_all add: plain_node_def added_node_def)
  obtain h0 m where compute: "ComputeDesired (\<lambda>ks. ks) add_node_config add_node_conns [] = (h0, m)" by fastforce
  from refresh_actual_runs[where env = interrupted_env and m = m and h = h0 and ord = "\<lambda>n ks. ks" and cfg = add_node_config
      and conns = add_node_conns and w = "()", OF cooperative_total[OF interrupted_cooperative] desired_refs[OF compute] go_order_id]
    cooperative_inspectable[OF interrupted_cooperative]
  obtain res h1 where "RefreshActual (\<lambda>n ks. ks) interrupted_env add_node_config add_node_conns m h0 () = Some (res, h1, ())" "\<not> isl res"
    by (elim exE conjE) simp
  then obtain actual where refresh: "RefreshActual (\<lambda>n ks. ks) interrupted_env add_node_config add_node_conns m h0 ()
      = Some (Inr actual, h1, ())" by (cases res) simp_all
  obtain phases where plan: "plan (\<lambda>n ks. ks) (spock_methods 0) h1 actual m = Some phases"
    by (rule plan_sections[OF go_order_id, of "spock_methods 0" h1 actual m])
  let ?sub = "mk_id ResourceTypeSubscription (spock_sub_name (Name ?p) (Name ?nn))"
  have "?sub \<in> set (add_chain add_node_config ?nn ?p True)" by (simp add: add_chain_def)
  from chain_in_map[OF sample_plain refl node compute this] obtain r where r: "map_of m ?sub = Some r" by blast
  have "sources_ok add_node_config" using sample_plain by (simp add: plain_config_def)
  note found = interrupted_refresh[OF compute refl this refresh go_order_id r[unfolded names]]
  have "has_key actual ?sub" unfolding names by (rule found[THEN conjunct1])
  from resumed_out_of_order[OF sample_plain go_order_id go_order_id refl node compute refresh plan r this found[THEN conjunct2]]
  show ?thesis unfolding names by (elim conjE exE) (intro exI conjI; assumption)
qed

end
