(* ===== verification/Deadline.thy ===== *)
theory Deadline
  imports Reconcile
begin

text \<open>
  \<open>Reconcile\<close> ends with the context. The goroutines of a phase run at the same time and share the
  context of \<open>init-spock\<close>: what one of them spends of its deadline is spent for all. \<open>paced p n\<close> says
  that a program stays clear of a used-up polling loop when the context allows at most \<open>n\<close> more calls.
\<close>

subsection \<open>Programs that watch the context\<close>

primrec paced :: "('o, 'a) program \<Rightarrow> nat \<Rightarrow> bool" where
  "paced (Return a) = (\<lambda>n. True)"
| "paced Panic = (\<lambda>n. True)"
| "paced Spin = (\<lambda>n. False)"
| "paced (Call q k) = (\<lambda>n. \<forall>m s. m \<le> n \<longrightarrow> (q \<noteq> ContextErr \<and> 0 < n \<longrightarrow> m < n) \<longrightarrow>
     (q = ContextErr \<and> n = 0 \<longrightarrow> (\<exists>e. s = RErr e)) \<longrightarrow> paced (k s) m)"
| "paced (Load r k) = (\<lambda>n. \<forall>x. paced (k x) n)"
| "paced (Store r f p) = (\<lambda>n. paced p n)"

lemma paced_less: "paced p n \<Longrightarrow> m \<le> n \<Longrightarrow> paced p m"
proof (induction p arbitrary: n m rule: prog_induct)
  case (Call q k)
  show ?case unfolding paced.simps
  proof (intro allI impI)
    fix l s
    assume l: "l \<le> m" "q \<noteq> ContextErr \<and> 0 < m \<longrightarrow> l < m" "q = ContextErr \<and> m = 0 \<longrightarrow> (\<exists>e. s = RErr e)"
    have "l \<le> n" "q \<noteq> ContextErr \<and> 0 < n \<longrightarrow> l < n" "q = ContextErr \<and> n = 0 \<longrightarrow> (\<exists>e. s = RErr e)"
      using l Call.prems(2) by auto
    with Call.prems(1) show "paced (k s) l" unfolding paced.simps by blast
  qed
qed auto

named_theorems paced_intros "programs that do not use up a polling loop"

lemma paced_basic [paced_intros]:
  "paced (Return a) n" "paced Panic n" "paced (failed msg e) n"
  by (simp_all add: failed_def)

lemma paced_ask:
  assumes "\<And>s m. m \<le> n \<Longrightarrow> q \<noteq> ContextErr \<and> 0 < n \<longrightarrow> m < n \<Longrightarrow>
      q = ContextErr \<and> n = 0 \<longrightarrow> (\<exists>e. s = RErr e) \<Longrightarrow> paced (k s) m"
  shows "paced (ask q k) n"
  using assms by (auto simp: ask_def split: reply.split)

lemma paced_cases [paced_intros]:
  "paced a n \<Longrightarrow> paced b n \<Longrightarrow> paced (if P then a else b) n"
  "(\<And>e. paced (f e) n) \<Longrightarrow> paced a n \<Longrightarrow> paced (case err of Some e \<Rightarrow> f e | None \<Rightarrow> a) n"
  "(\<And>e. paced (g e) n) \<Longrightarrow> (\<And>x. paced (k x) n) \<Longrightarrow> paced (case v of Inl e \<Rightarrow> g e | Inr x \<Rightarrow> k x) n"
  by (auto split: option.split sum.split)

lemma paced_loads [paced_intros]:
  "(\<And>l. paced (k l) n) \<Longrightarrow> paced (load_LSN r k) n"
  "(\<And>ts. paced (k' ts) n) \<Longrightarrow> paced (load_CommitTS lag k') n"
  "(\<And>l. paced (k l) n) \<Longrightarrow> paced (load_AdvancedToLSN adv k) n"
  by (simp_all add: load_LSN_def load_CommitTS_def load_AdvancedToLSN_def split: object.split option.split)

lemma paced_store [paced_intros]: "paced p n \<Longrightarrow> paced (Store r f p) n"
  by simp

text \<open>A program without a loop, in which no number of calls matters.\<close>

lemma paced_calls [paced_intros]:
  "(\<And>s m. m \<le> n \<Longrightarrow> paced (k s) m) \<Longrightarrow> paced (ask q k) n"
  "(\<And>m. m \<le> n \<Longrightarrow> paced p m) \<Longrightarrow> paced (exec q msg p) n"
  "(\<And>b m. m \<le> n \<Longrightarrow> paced (f b) m) \<Longrightarrow> paced (query_bool q msg f) n"
  "(\<And>t m. m \<le> n \<Longrightarrow> paced (f' t) m) \<Longrightarrow> paced (query_text q msg f') n"
  unfolding exec_def unless_def query_bool_def query_text_def scanned_def
  by (intro paced_ask; auto intro: paced_intros split: option.split sum.split)+

lemma paced_bind: "paced p n \<Longrightarrow> (\<And>a m. m \<le> n \<Longrightarrow> paced (f a) m) \<Longrightarrow> paced (Effects.bind p f) n"
proof (induction p arbitrary: n rule: prog_induct)
  case (Call q k)
  show ?case unfolding Effects.bind.simps paced.simps
  proof (intro allI impI)
    fix m s
    assume m: "m \<le> n" "q \<noteq> ContextErr \<and> 0 < n \<longrightarrow> m < n" "q = ContextErr \<and> n = 0 \<longrightarrow> (\<exists>e. s = RErr e)"
    with Call.prems(1) have "paced (k s) m" unfolding paced.simps by blast
    then show "paced (Effects.bind (k s) f) m"
      by (rule Call.IH) (use Call.prems(2) m(1) in \<open>meson order_trans\<close>)
  qed
qed auto

lemma paced_in_tx [paced_intros]:
  "(\<And>t m. m \<le> n \<Longrightarrow> paced (body t) m) \<Longrightarrow> paced (in_tx c msg body) n"
  unfolding in_tx_def
  by (intro paced_intros) (auto split: reply.split intro!: paced_intros paced_bind)

subsection \<open>The polling loops\<close>

lemma paced_done_or_after: "(\<And>m. m \<le> n \<Longrightarrow> paced p m) \<Longrightarrow> paced (done_or_after ms p) n"
  unfolding done_or_after_def by (intro paced_intros) (auto split: reply.split intro!: paced_intros)

text \<open>
  A turn of a loop: the context is asked first; if it allows no more calls it says so, and else the
  query that follows spends one.
\<close>

lemma paced_turn:
  assumes "n < Suc fuel" and "\<And>e m. m \<le> n \<Longrightarrow> paced (f e) m" and "\<And>m. m \<le> fuel \<Longrightarrow> 0 < fuel \<Longrightarrow> paced p m"
  shows "paced (ask ContextErr (\<lambda>s. case err_of s of Some e \<Rightarrow> f e | None \<Rightarrow> p)) n"
proof (rule paced_ask)
  fix s m
  assume m: "m \<le> n" "ContextErr = ContextErr \<and> n = 0 \<longrightarrow> (\<exists>e. s = RErr e)"
  show "paced (case err_of s of Some e \<Rightarrow> f e | None \<Rightarrow> p) m"
  proof (cases "err_of s")
    case None
    with m(2) have "0 < n" by (auto simp: err_of_def)
    with None m(1) assms(1) show ?thesis by (simp add: assms(3))
  qed (use assms(2) m(1) in simp)
qed

lemma paced_poll:
  assumes "m \<le> fuel" and "0 < fuel" and "\<And>s l. l < fuel \<Longrightarrow> paced (k s) l"
  shows "paced (ask (PoolQueryRow c q) k) m"
proof (rule paced_ask)
  fix s l
  assume "l \<le> m" "PoolQueryRow c q \<noteq> ContextErr \<and> 0 < m \<longrightarrow> l < m"
  with assms(1,2) show "paced (k s) l" by (intro assms(3)) (cases "m = 0"; simp)
qed

lemma paced_wait_loop: "n < fuel \<Longrightarrow> paced (wait_loop fuel v evt) n"
proof (induction fuel arbitrary: n)
  case (Suc fuel)
  have again: "paced (wait_loop fuel v evt) l" if "m < fuel" "l \<le> m" for l m
    using that by (intro Suc.IH) simp
  show ?case
    unfolding wait_loop.simps Let_def
    by (rule paced_turn[OF Suc.prems]; (rule paced_poll, assumption, assumption)?;
        intro paced_intros paced_done_or_after again; assumption)
qed simp

lemma paced_catchup_loop: "n < fuel \<Longrightarrow> paced (catchup_loop fuel v evt) n"
proof (induction fuel arbitrary: n)
  case (Suc fuel)
  have again: "paced (catchup_loop fuel v evt) l" if "m < fuel" "l \<le> m" for l m
    using that by (intro Suc.IH) simp
  have poll: "paced (query_bool (PoolQueryRow c q) msg (\<lambda>reached. if reached then ok
      else done_or_after ms (catchup_loop fuel v evt))) m" if "m \<le> fuel" "0 < fuel" for c q msg ms m
    unfolding query_bool_def scanned_def
    by (rule paced_poll[OF that]) (intro paced_intros paced_done_or_after again; assumption)
  show ?case
    unfolding catchup_loop.simps by (rule paced_turn[OF Suc.prems]) (intro paced_intros poll; assumption)+
qed simp

subsection \<open>The methods of the resources\<close>

lemma paced_create_of:
  assumes "n < fuel"
  shows "paced (create_of fuel r ob) n"
proof (cases ob)
  case (OWait v)
  with paced_wait_loop[OF assms] show ?thesis
    by (auto simp: WaitForSyncEvent_Create_def Let_def intro!: paced_intros split: option.split)
next
  case (OCatchup v)
  with paced_catchup_loop[OF assms] show ?thesis
    by (auto simp: PeerCatchup_Create_def Let_def intro!: paced_intros split: option.split)
next
  case (OLag t)
  show ?thesis unfolding OLag create_of.simps LagTrackerCommitTimestamp_Create_def by (intro paced_intros)
next
  case (OSlotAdvance a)
  show ?thesis unfolding OSlotAdvance create_of.simps ReplicationSlotAdvanceFromCTS_Create_def Let_def
    by (intro paced_intros)
next
  case (OOriginAdvance a)
  show ?thesis unfolding OOriginAdvance create_of.simps ReplicationOriginAdvance_Create_def by (intro paced_intros)
next
  case (OSyncEvent e)
  show ?thesis unfolding OSyncEvent create_of.simps SyncEvent_Create_def by (intro paced_intros)
qed (simp_all only: create_of.simps end_state_noop_defs end_state_tx_defs ReplicationSlotCreate_Create_def
      DisabledSubscription_Create_def Let_def; intro paced_intros)+

lemma paced_update_of: "paced (update_of ob) n"
  by (cases ob; simp only: update_of.simps end_state_noop_defs end_state_tx_defs no_op_def; intro paced_intros)

lemma paced_delete_of: "paced (delete_of ob) n"
  by (cases ob; simp only: delete_of.simps end_state_noop_defs end_state_tx_defs no_op_def Let_def; intro paced_intros)

lemma paced_event_body: "n < fuel \<Longrightarrow> paced (event_body (spock_methods fuel) h e) n"
  unfolding event_body_def Let_def
  by (cases "Action e")
    (auto simp: Create_def Update_def Delete_def intro!: paced_bind paced_create_of paced_update_of paced_delete_of)

subsection \<open>The executions\<close>

text \<open>Every goroutine stays clear of its loop's bound, for as many calls as the context has left.\<close>

fun on_time :: "('w \<Rightarrow> nat) \<Rightarrow> nat \<Rightarrow> (request, reply, object, 'w, ref) exec_state \<Rightarrow> bool" where
  "on_time left fuel (Executing n phase rest g log) \<longleftrightarrow>
     left (g_world g) < fuel \<and> (\<forall>p. Some p \<in> set (g_threads g) \<longrightarrow> paced p (left (g_world g)))"
| "on_time left fuel (Finished err h w log) \<longleftrightarrow> True"
| "on_time left fuel Crashed \<longleftrightarrow> True"

lemma on_time_spawn:
  "left w < fuel \<Longrightarrow> on_time left fuel (Executing n phase rest (spawn (spock_methods fuel) phase h w) log)"
  by (auto simp: spawn_def intro: paced_event_body)

lemma deadline_reply:
  assumes "deadline env left" and "env c q w = (s, w')"
  shows "left w' \<le> left w" and "q \<noteq> ContextErr \<and> 0 < left w \<longrightarrow> left w' < left w"
    and "q = ContextErr \<and> left w = 0 \<longrightarrow> (\<exists>e. s = RErr e)"
  using assms unfolding deadline_def by (metis fst_conv snd_conv)+

lemma thread_step_on_time:
  assumes "deadline env left" and "thread_step env i g = Some g'" and "left (g_world g) < fuel"
    and "\<And>p. Some p \<in> set (g_threads g) \<Longrightarrow> paced p (left (g_world g))"
  shows "left (g_world g') < fuel \<and> (\<forall>p. Some p \<in> set (g_threads g') \<longrightarrow> paced p (left (g_world g')))"
proof -
  from assms(2) obtain p where i: "i < length (g_threads g)" "g_threads g ! i = Some p"
    by (auto simp: thread_step_def split: if_splits option.splits)
  then have p: "paced p (left (g_world g))" by (intro assms(4)) (auto simp: in_set_conv_nth)
  have others: "paced p' l" if "Some p' \<in> set ((g_threads g)[i := t])" "t = None \<or> (\<exists>p. t = Some p \<and> paced p l)"
    "l \<le> left (g_world g)" for p' t l
    using that assms(4) set_update_subset_insert[of "g_threads g" i t] by (auto intro: paced_less)
  show ?thesis
  proof (cases p)
    case (Call q k)
    obtain s w where e: "env (g_err g \<noteq> None) q (g_world g) = (s, w)" by fastforce
    note law = deadline_reply[OF assms(1) e]
    with p Call have "paced (k s) (left w)" by simp
    with Call assms(2,3) i e law(1) show ?thesis
      by (auto simp: thread_step_def intro: others[of _ "Some (k s)"])
  next
    case (Return a)
    with assms(2,3) i show ?thesis by (auto simp: thread_step_def intro: others[of _ None])
  next
    case (Load r k)
    with p have "paced (if r < length (g_heap g) then k (g_heap g ! r) else Panic) (left (g_world g))" by simp
    with Load assms(2,3) i show ?thesis
      by (auto simp: thread_step_def intro: others[of _ "Some (if r < length (g_heap g) then k (g_heap g ! r) else Panic)"])
  next
    case (Store r f p')
    with p have "paced (if r < length (g_heap g) then p' else Panic) (left (g_world g))" by simp
    with Store assms(2,3) i show ?thesis
      by (auto simp: thread_step_def split: if_splits intro: others[of _ "Some p'"] others[of _ "Some Panic"])
  qed (use assms(2) i in \<open>simp_all add: thread_step_def\<close>)
qed

lemma on_time_step:
  assumes "deadline env left" and "exec_step (spock_methods fuel) env s t" and "on_time left fuel s"
  shows "on_time left fuel t"
  using assms(2,3)
proof (induction rule: exec_step.induct)
  case (goroutine i g g' n phase rest log)
  then have "left (g_world g) < fuel" "\<And>p. Some p \<in> set (g_threads g) \<Longrightarrow> paced p (left (g_world g))" by simp_all
  from thread_step_on_time[OF assms(1) goroutine(1) this] show ?case by simp
next
  case (next_phase g n phase phase' rest log)
  then show ?case using on_time_spawn[of left "g_world g" fuel] by simp
qed simp_all

lemma on_time_reached:
  assumes "deadline env left" and "exec_reaches (spock_methods fuel) env s t" and "on_time left fuel s"
  shows "on_time left fuel t"
  using assms(2,3) by (induction rule: exec_reaches.induct) (auto intro: on_time_step[OF assms(1)])

text \<open>Before the plan: \<open>RefreshActual\<close> spends of the deadline, too, and gives none back.\<close>

lemma run_spends: "deadline env left \<Longrightarrow> run env c p h w = (x, h', w') \<Longrightarrow> left w' \<le> left w"
proof (induction p arbitrary: h w rule: prog_induct)
  case (Call q k)
  obtain s w1 where e: "env c q w = (s, w1)" by fastforce
  with Call have "left w' \<le> left w1" by simp
  with deadline_reply(1)[OF Call.prems(1) e] show ?case by simp
qed (auto split: if_splits)

lemma returned_spends:
  "deadline env left \<Longrightarrow> returned (run env c p h w) = Some (a, h', w') \<Longrightarrow> left w' \<le> left w"
  by (cases "run env c p h w") (auto simp: returned_def dest: run_spends split: outcome.splits)

lemma refresh_desired_spends:
  assumes "deadline env left"
  shows "refresh_desired env m is actual h w = Some (res, h', w') \<Longrightarrow> left w' \<le> left w"
proof (induction "is" arbitrary: actual h w)
  case (Cons i "is")
  from Cons.prems obtain err h1 w1 where r: "returned (run env False (Refresh (at_key m i)) h w) = Some (err, h1, w1)"
    by (auto simp: bind_eq_Some_conv Let_def)
  from returned_spends[OF assms r] have "left w1 \<le> left w" .
  with Cons.prems r Cons.IH show ?case by (fastforce simp: Let_def split: option.splits)
qed simp

lemma discover_each_spends:
  assumes "deadline env left"
  shows "discover_each env cfg conns ns s w = Some (s', w') \<Longrightarrow> left w' \<le> left w"
proof (induction ns arbitrary: s w)
  case (Cons n ns)
  from Cons.prems obtain s1 w1 s2 w2 where
    d: "discoverOrphanNodes env cfg (conn_of conns (Name n)) n (map Name (Nodes cfg)) s w = Some (s1, w1)"
    "discoverOrphanSlots env cfg (conn_of conns (Name n)) n (expected_slots cfg) s1 w1 = Some (s2, w2)"
    "discover_each env cfg conns ns s2 w2 = Some (s', w')"
    by (auto simp: bind_eq_Some_conv)
  have "left w1 \<le> left w" "left w2 \<le> left w1"
    using d(1,2) by (auto simp: discoverOrphanNodes_def discoverOrphanSlots_def bind_eq_Some_conv dest: returned_spends[OF assms])
  with Cons.IH[OF d(3)] show ?case by simp
qed simp

lemma refresh_spends:
  assumes "deadline env left" and "RefreshActual ord env cfg conns m h w = Some (res, h', w')"
  shows "left w' \<le> left w"
proof -
  from assms(2) obtain r h1 w1 where r: "refresh_desired env m (ord 0 (keys m)) [] h w = Some (r, h1, w1)"
    and rest: "(case r of Inl e \<Rightarrow> Some (Inl e, h1, w1) | Inr actual \<Rightarrow> do {
       (s, w) \<leftarrow> discoverOrphans env cfg conns (h1, actual) w1;
       Some (Inr (snd s), checkSlotHealth (ord 1) (snd s) (fst s), w) }) = Some (res, h', w')"
    by (auto simp: RefreshActual_def bind_eq_Some_conv)
  have "left w' \<le> left w1"
    using rest by (auto simp: discoverOrphans_def bind_eq_Some_conv split: sum.splits dest: discover_each_spends[OF assms(1)])
  with refresh_desired_spends[OF assms(1) r] show ?thesis by simp
qed

fun exec_ended :: "('q, 's, 'o, 'w, 'r) exec_state \<Rightarrow> bool" where
  "exec_ended (Executing n phase rest g log) = False"
| "exec_ended (Finished err h w log) = True"
| "exec_ended Crashed = True"

lemma on_time_no_spin: "on_time left fuel (Executing n phase rest g log) \<Longrightarrow> Some Spin \<notin> set (g_threads g)"
  unfolding on_time.simps by (metis paced.simps(3))

lemma on_time_moves:
  assumes "on_time left fuel s"
  shows "exec_ended s \<or> (\<exists>t. exec_step vt env s t)"
proof (cases s)
  case (Executing n phase rest g log)
  with assms have "Some Spin \<notin> set (g_threads g)" by auto
  with Executing have "\<not> exec_final s" by (simp add: exec_final_def)
  with exec_progress show ?thesis by blast
qed simp_all

text \<open>
  Claim C30: \<open>Reconcile\<close> ends with the deadline, in every interleaving. Assume that the context is done
  after finitely many calls, of whichever goroutine, and from then on its \<open>Err\<close> is an error (\<open>deadline\<close>:
  \<open>left w\<close> bounds the calls that are left). Then, whatever the servers answer, no goroutine of a phase is ever
  caught in a polling loop: a bound of iterations above the calls that are left is never used up, by any of
  the goroutines that share the context. So \<open>Reconcile\<close> has returned or crashed in every state in which it
  cannot go on, and it cannot go on for ever.
\<close>

theorem reconcile_ends:
  assumes "deadline env left" and "left w < fuel"
    and "Reconcile ord (spock_methods fuel) env (spock_reconciler sord rord env cfg conns) [] w s"
  shows "(exec_ended s \<or> (\<exists>t. exec_step (spock_methods fuel) env s t))
    \<and> (\<forall>n phase rest g log. s = Executing n phase rest g log \<longrightarrow> Some Spin \<notin> set (g_threads g))
    \<and> wfp (\<lambda>t s. exec_step (spock_methods fuel) env s t)"
proof -
  have "on_time left fuel s"
    using assms(3)
  proof cases
    case (executes h0 desired actual h1 w1 phases)
    from executes(2) refresh_spends[OF assms(1)] assms(2) have "left w1 < fuel" by fastforce
    then have "on_time left fuel (exec_start (spock_methods fuel) phases h1 w1)"
      by (cases phases) (auto simp: exec_start_def simp del: on_time.simps(1) intro: on_time_spawn)
    from on_time_reached[OF assms(1) executes(4) this] show ?thesis .
  qed simp_all
  then have "\<forall>n phase rest g log. s = Executing n phase rest g log \<longrightarrow> Some Spin \<notin> set (g_threads g)"
    using on_time_no_spin by blast
  with on_time_moves[OF \<open>on_time left fuel s\<close>] exec_wf show ?thesis by blast
qed

text \<open>A job with time for forty calls, whose plan has two phases, in the first of them.\<close>

definition hurried_env :: "(nat, request, reply) env" where
  "hurried_env c q w = ((case q of
      PoolQueryRow k st \<Rightarrow> RBool False
    | TxQueryRow t st \<Rightarrow> RBool False
    | PoolQuery k st \<Rightarrow> RRows [] None
    | Begin k \<Rightarrow> RTx w
    | ContextErr \<Rightarrow> if w = 0 then RErr ErrDeadlineExceeded else ROk
    | _ \<Rightarrow> ROk), if q = ContextErr then w else w - 1)"

abbreviation hurried where
  "hurried \<equiv> spock_reconciler (\<lambda>ks. ks) (\<lambda>n ks. ks) hurried_env (sample_config [plain_node ''n1'']) [(''n1'', 0)]"

definition hurried_phases :: "nat option" where
  "hurried_phases = (case ComputeDesired (\<lambda>ks. ks) (sample_config [plain_node ''n1'']) [(''n1'', 0)] [] of (h0, m) \<Rightarrow>
     (case RefreshActual (\<lambda>n ks. ks) hurried_env (sample_config [plain_node ''n1'']) [(''n1'', 0)] m h0 40 of
        Some (Inr actual, h1, w1) \<Rightarrow> map_option length (plan (\<lambda>n ks. ks) (spock_methods 41) h1 actual m)
      | _ \<Rightarrow> None))"

lemma hurried_phases: "hurried_phases = Some 2"
  by code_simp

theorem reconcile_ends_witness:
  "\<exists>phase rest (g :: (request, reply, object, nat) group). Reconcile (\<lambda>n ks. ks) (spock_methods 41) hurried_env hurried [] 40 (Executing 0 phase rest g [])
     \<and> Some Spin \<notin> set (g_threads g)
     \<and> (\<exists>t. exec_step (spock_methods 41) hurried_env (Executing 0 phase rest g []) t)"
proof -
  obtain h0 m where c: "ComputeDesired (\<lambda>ks. ks) (sample_config [plain_node ''n1'']) [(''n1'', 0)] [] = (h0, m)" by fastforce
  with hurried_phases obtain actual h1 w1 phases where
    r: "RefreshActual (\<lambda>n ks. ks) hurried_env (sample_config [plain_node ''n1'']) [(''n1'', 0)] m h0 40 = Some (Inr actual, h1, w1)"
    and p: "plan (\<lambda>n ks. ks) (spock_methods 41) h1 actual m = Some phases" "length phases = 2"
    by (auto simp: hurried_phases_def split: option.splits sum.splits)
  from p(2) obtain phase rest where ph: "phases = phase # rest" by (cases phases) auto
  let ?s = "Executing 0 phase rest (spawn (spock_methods 41) phase h1 w1) []"
  have s: "Reconcile (\<lambda>n ks. ks) (spock_methods 41) hurried_env hurried [] 40 ?s"
    by (rule Reconcile.executes[OF _ _ p(1)]) (use c r ph in \<open>auto simp: exec_start_def intro: exec_reaches.here\<close>)
  have "deadline hurried_env (\<lambda>w. w)" by (auto simp: deadline_def hurried_env_def)
  from reconcile_ends[OF this _ s] s show ?thesis by auto
qed

end
