(* ===== verification/Spec2Isabelle.thy ===== *)
theory Spec2Isabelle
  imports Plan Executor Resource_Laws Config Names Sql Transactions Results Handoff Desired Acyclic
    Map_Order Actual Reset Reconcile Adding Success Cluster Pg Timeout Init_Spock Job_Success Resume
    Deadline
begin

text \<open>
  A model of the init-spock job of the pgEdge Helm chart, and what makes it correct.

  The program. The job (\<open>cmd/init-spock/main.go\<close>) brings the Spock replication of a set of PostgreSQL
  nodes to the state its configuration describes. It reads the configuration
  (\<open>internal/config\<close>), waits for the Kubernetes clusters (\<open>internal/cluster\<close>) and for each node's
  server (\<open>internal/pg\<close>), resets Spock where that is asked for (\<open>internal/spock/reset.go\<close>), and then
  reconciles: it computes the resources that should exist (\<open>desired.go\<close>), asks the servers what
  exists (\<open>refresh.go\<close>), makes a plan of the difference and executes it
  (\<open>internal/resource\<close>). A resource is a user, a Spock node, a slot, a subscription, or one of the
  eight kinds of step by which a node is added to a running set.

  Theories and code.
  \<^item> \<open>Prelude\<close>: Go maps as association lists with an order that every \<open>range\<close> is free to choose,
    and the few functions on strings.
  \<^item> \<open>Effects\<close>: a Go function with effects as a tree of its calls, reads and writes; \<open>run\<close> and
    \<open>trace\<close> run it in an environment that answers the calls. \<open>Sql\<close> and \<open>Calls\<close>: the statements
    and the calls to pgx, the context and Kubernetes, and the idioms of the code around them; the texts of the statements stand file by file, and what PostgreSQL makes of them is
    not modelled.
  \<^item> \<open>Resource_Model\<close>, \<open>Topo_Sort\<close>, \<open>Plan\<close>, \<open>Executor\<close>: \<open>resource.go\<close>, \<open>plan.go\<close> and
    \<open>executor.go\<close> over resources of any kind. The executor is a step relation on the goroutines of
    a phase, so that a statement about it is one about every interleaving. (The functions \<open>run_phase\<close>,
    \<open>execute_seq\<close> and \<open>reconcile_seq\<close> are no model of code: they compute one of the executions, for the
    witnesses.)
  \<^item> \<open>Resource_Laws\<close>: what plan and execution rely on of a resource's methods, as a locale.
  \<^item> \<open>Config\<close>, \<open>Names\<close>, \<open>Objects\<close>: \<open>config.go\<close>, \<open>names.go\<close>, and the structs, constructors,
    identifiers and dependencies of the twelve resource types.
  \<^item> \<open>End_State\<close>, \<open>Populate\<close>, \<open>Spock_Methods\<close>: the methods of the resource types, one definition per
    method, and the table by which a call finds them.
  \<^item> \<open>Desired\<close>, \<open>Actual\<close>, \<open>Reset\<close>: \<open>desired.go\<close>, \<open>refresh.go\<close>, \<open>reset.go\<close> and \<open>repset.go\<close>.
  \<^item> \<open>Reconcile\<close>: \<open>Reconcile\<close> and its interface (both \<open>reconciler.go\<close>), with a locale of laws
    that the \<open>SpockReconciler\<close> satisfies.
  \<^item> \<open>Cluster\<close>, \<open>Pg\<close>, \<open>Timeout\<close>, \<open>Init_Spock\<close>: \<open>cluster.go\<close>, \<open>pg.go\<close>, and \<open>run\<close> and \<open>main\<close> of \<open>main.go\<close>.
  \<^item> \<open>Acyclic\<close>, \<open>Transactions\<close>, \<open>Results\<close>, \<open>Handoff\<close>, \<open>Map_Order\<close>, \<open>Adding\<close>, \<open>Progress\<close>,
    \<open>Success\<close>, \<open>Job_Success\<close>, \<open>Resume\<close>, \<open>Deadline\<close> have no code of their own: they hold properties that
    span several of the above.

  What is shown.
  \<^item> The plan is exact, ordered by dependencies, deletes before updates before creates, for every
    order of Go's maps (\<open>Topo_Sort\<close>, \<open>Plan\<close>); a phase runs only after the ones before it have
    succeeded, and a result of \<open>nil\<close> means that every event ran once (\<open>Executor\<close>). Which actions
    a phase has on which identifiers does not depend on the order of the maps (\<open>Map_Order\<close>). Exactness,
    order of deletes and \<open>Map_Order\<close> assume nothing of the keys of the maps, because the actual map with an
    orphan node has two keys for one identifier: what is \<open>due\<close> is said of identifiers.
  \<^item> The desired map has exactly the keys that the configuration calls for, it is closed under
    dependencies, and these have no cycle if at most one node is to be populated, from another configured
    node, and names have neither dash nor underscore (\<open>plain_config\<close>); two nodes populated from one
    source, itself not populated, always make a circle (\<open>Acyclic\<close>), and with dashes in names a
    subscription can get lost (\<open>Desired\<close>). The actual map has exactly what exists and the orphans (\<open>Actual\<close>).
  \<^item> An operation that returns \<open>nil\<close> has had its effect confirmed, keeps the transaction protocol of
    pgx, and its polling ends with the context (\<open>Results\<close>, \<open>Transactions\<close>; the one method that breaks the
    protocol is \<open>Create\<close> of a disabled subscription); LSNs and timestamps arrive where they are read
    (\<open>Handoff\<close>). With a deadline the whole of \<open>Reconcile\<close> ends, in every interleaving (\<open>Deadline\<close>).
  \<^item> A reset reads the replication sets before it drops them, and restores the custom sets and the
    assignments of tables and views; those of other kinds of relation are lost (\<open>Reset\<close>).
  \<^item> A reconciliation that returns \<open>nil\<close> has converged, one on a healthy system does nothing, a lost
    slot is repaired, and two goroutines never race on a resource (\<open>Reconcile\<close>, \<open>Adding\<close>). Where
    every call succeeds a reconciliation succeeds, in every interleaving: \<open>Progress\<close> shows that a
    goroutine whose pointers lead to objects made before can only go on and return \<open>nil\<close>, \<open>Success\<close>
    that the plan starts none before that. A node is then added step by step, the peer's
    disabled subscription beside the chain. Freedom of races, success and the order of
    adding assume \<open>plain_config\<close>. After an interruption
    this order is lost, for which there is a counterexample (\<open>Resume\<close>).
  \<^item> The job goes through its steps in order, closes every pool it opened, and does not wait beyond
    its deadline, which is computed without overflow (\<open>Init_Spock\<close>, \<open>Timeout\<close>). Where every call
    succeeds, it exits with status 0 (\<open>Job_Success\<close>).

  What is a parameter. PostgreSQL, Spock, pgx, the Kubernetes client and the clock are the environment
  \<open>env\<close>, a function from a call and the state of the world to the reply and the next state, of which
  a theorem assumes what it names (\<open>deadline\<close>, \<open>done_law\<close>, \<open>context_law\<close>, \<open>repset_server\<close>,
  \<open>all_exist\<close>, \<open>catalogs\<close>, \<open>cooperative\<close>); the variables of the process, its file system and the
  YAML parser are functions. The order of \<open>range\<close> over a map is a parameter \<open>ord\<close> with
  \<open>go_order ord\<close>. The errgroup is modelled as documented: the first error is kept and cancels the context of the others.

  Bounds. The polling loops of \<open>WaitForSyncEvent\<close>, \<open>PeerCatchup\<close>, \<open>waitForAll\<close> and \<open>WaitReady\<close> take
  a number of iterations as fuel and are \<open>Spin\<close> when it is used up, a result that is not a return.
  The termination theorems show that fuel above the number of calls the context still allows is
  never used up. \<open>topoSort\<close> needs no fuel; \<open>Plan\<close> always returns.

  Not modelled. Log lines; the TLS settings, which are constants that pgx reads; the signal
  handler, which cancels the context of the environment; deferred calls after a panic, which ends the
  process; the times that polls sleep. The chart's templates are not Go code, and the
  helpers under \<open>test/\<close> only run helm and kubectl.
\<close>

end
